(* ===== verification/Prelude.thy ===== *)
theory Prelude
  imports Main "HOL-Library.Word" "HOL-Library.Product_Lexorder" "HOL-Library.Multiset"
begin

text \<open>
  Shared ground of the development: names for the machine types the Go code uses, the
  conversions between them, the result type of fallible code, and the generic facts on
  lists, sums and words that the component theories rely on.
\<close>

named_theorems go_conv \<open>conversions between Go's integer types\<close>
named_theorems sql_simps \<open>what a SQL statement leaves of the tables\<close>
named_theorems inv_intros \<open>every operation keeps the invariant\<close>

section \<open>Machine types\<close>

text \<open>
  Go's \<open>uint64\<close> is a 64-bit word whose arithmetic wraps. PostgreSQL's \<open>bigint\<close> and Go's
  \<open>int64\<close> are written as the signed integer they denote; a conversion reads the word as
  two's complement (\<open>int64(x)\<close>) or takes the integer modulo two to the 64
  (\<open>uint64(n)\<close>). \<open>int16(n)\<close> keeps the low sixteen bits, read as two's complement.
\<close>

type_synonym u64 = "64 word"
type_synonym byte = "8 word"
type_synonym bytes = "byte list"

definition int64 :: "u64 \<Rightarrow> int" where
  "int64 w = sint w"

definition uint64 :: "int \<Rightarrow> u64" where
  "uint64 n = word_of_int n"

definition int16 :: "nat \<Rightarrow> int" where
  "int16 n = sint (word_of_nat n :: 16 word)"

abbreviation bigint_max :: int where
  "bigint_max \<equiv> 9223372036854775807"

lemma int64_small [go_conv]:
  assumes "uint w \<le> bigint_max"
  shows "int64 w = uint w"
proof -
  have "sint w = signed_take_bit 63 (uint w)"
    by (simp add: sint_uint)
  also have "\<dots> = uint w"
  proof (rule signed_take_bit_int_eq_self)
    have "- (2 ^ 63) \<le> (0::int)" by simp
    then show "- (2 ^ 63) \<le> uint w" using uint_ge_0 by (rule order_trans)
    show "uint w < 2 ^ 63" using assms by simp
  qed
  finally show ?thesis by (simp add: int64_def)
qed

lemma int64_range: "- 9223372036854775808 \<le> int64 w" "int64 w \<le> bigint_max"
  using sint_greater_eq [of w] sint_less [of w] by (simp_all add: int64_def)

lemma int64_large [go_conv]:
  assumes "bigint_max < uint w"
  shows "int64 w = uint w - 18446744073709551616"
proof -
  have u: "uint w < 18446744073709551616"
    using uint_lt2p [of w] by simp
  have "take_bit 64 (uint w - 18446744073709551616) = take_bit 64 (uint w)"
    by (simp add: take_bit_eq_mod mod_diff_right_eq)
  then have "signed_take_bit 63 (uint w) = signed_take_bit 63 (uint w - 18446744073709551616)"
    by (simp add: signed_take_bit_eq_iff_take_bit_eq)
  also have "\<dots> = uint w - 18446744073709551616"
    using assms u by (intro signed_take_bit_int_eq_self) simp_all
  finally show ?thesis by (simp add: int64_def sint_uint)
qed

lemma int64_negative_iff: "int64 w < 0 \<longleftrightarrow> bigint_max < uint w"
proof (cases "bigint_max < uint w")
  case True
  then show ?thesis using uint_lt2p [of w] by (simp add: int64_large)
next
  case False
  then show ?thesis by (simp add: int64_small)
qed

lemma uint_uint64 [go_conv]:
  assumes "0 \<le> n" and "n \<le> bigint_max"
  shows "uint (uint64 n) = n"
  using assms by (simp add: uint64_def uint_word_of_int take_bit_eq_mod)

lemma int64_uint64 [simp]:
  assumes "0 \<le> n" and "n \<le> bigint_max"
  shows "int64 (uint64 n) = n"
  using assms by (simp add: int64_small uint_uint64)

lemma uint64_int64 [simp]: "uint64 (int64 w) = w"
  by (simp add: uint64_def int64_def)

lemma int64_inject [simp]: "int64 v = int64 w \<longleftrightarrow> v = w"
  by (metis uint64_int64)

lemma u64_one_le: "(1 :: u64) \<le> w \<longleftrightarrow> w \<noteq> 0"
proof -
  have "(1 :: u64) \<le> w \<longleftrightarrow> 1 \<le> uint w" by (simp add: word_le_def)
  also have "\<dots> \<longleftrightarrow> uint w \<noteq> 0" using uint_ge_0 [of w] by linarith
  finally show ?thesis by (simp add: uint_0_iff)
qed

lemma uint_pred: "w \<noteq> 0 \<Longrightarrow> uint (w - 1 :: u64) = uint w - 1"
  using uint_minus_simple_alt [of 1 w] by (simp add: u64_one_le)

lemma uint_add_nat [go_conv]:
  assumes "uint w + int k \<le> bigint_max"
  shows "uint (w + of_nat k :: u64) = uint w + int k"
proof -
  have "w + of_nat k = word_of_int (uint w + int k)" by simp
  moreover have "0 \<le> uint w + int k" by simp
  ultimately show ?thesis using assms by (simp only: uint_word_of_int) simp
qed

lemma uint_uint64_full:
  assumes "0 \<le> n" "n < 18446744073709551616"
  shows "uint (uint64 n) = n"
  using assms by (simp add: uint64_def uint_word_of_int)

lemma unat_of_nat_u64 [go_conv]: "n < 2 ^ 64 \<Longrightarrow> unat (of_nat n :: u64) = n"
  by (simp add: unsigned_of_nat take_bit_eq_mod)

lemma int64_mono:
  assumes "v < w" "0 < int64 w"
  shows "int64 v < int64 w"
proof -
  have w: "uint w \<le> bigint_max"
    using int64_large [of w] assms(2) uint_lt2p [of w] by (cases "uint w \<le> bigint_max") simp_all
  moreover have "uint v < uint w" using assms(1) by (simp add: word_less_def)
  ultimately show ?thesis by (simp add: int64_small)
qed

lemma int64_add_nat [go_conv]:
  assumes "uint w + int k \<le> bigint_max"
  shows "int64 (w + of_nat k) = uint w + int k"
  using assms by (simp add: int64_small uint_add_nat)

lemma uint_batch_last [go_conv]:
  assumes "uint w + int k \<le> bigint_max" "w \<noteq> 0"
  shows "uint (w + of_nat k - 1 :: u64) = uint w + int k - 1"
proof -
  have "uint w \<noteq> 0" using assms(2) by (simp add: uint_0_iff)
  then have "0 < uint w" using uint_ge_0 [of w] by linarith
  then have "w + of_nat k \<noteq> 0" using uint_add_nat [OF assms(1)] by auto
  then show ?thesis using uint_add_nat [OF assms(1)] by (simp add: uint_pred)
qed

lemma int64_batch_last [go_conv]:
  assumes "uint w + int k \<le> bigint_max" "w \<noteq> 0"
  shows "int64 (w + of_nat k - 1) = uint w + int k - 1"
  using assms by (simp add: int64_small uint_batch_last)

lemma int64_pred [go_conv]:
  assumes "uint w \<le> bigint_max" "w \<noteq> 0"
  shows "int64 (w - 1) = uint w - 1"
  using assms by (simp add: int64_small uint_pred)

lemma int16_small [go_conv]:
  assumes "n < 32768"
  shows "int16 n = int n"
proof -
  have "sint (word_of_nat n :: 16 word) = signed_take_bit 15 (int n)"
    by (simp add: signed_of_nat)
  also have "\<dots> = int n"
    using assms by (intro signed_take_bit_int_eq_self) simp_all
  finally show ?thesis by (simp add: int16_def)
qed

section \<open>Results of fallible code\<close>

text \<open>Go's pair of a value and an error: \<open>Inl\<close> is a non-nil error, \<open>Inr\<close> the value.\<close>

fun is_ok :: "'e + 'a \<Rightarrow> bool" where
  "is_ok (Inl _) = False"
| "is_ok (Inr _) = True"

text \<open>A function that only returns an error: \<open>None\<close> is nil.\<close>

fun ret_err :: "'e option \<Rightarrow> 'e + unit" where
  "ret_err None = Inr ()"
| "ret_err (Some e) = Inl e"

lemma ret_err_Inr [simp]: "ret_err r = Inr u \<longleftrightarrow> r = None"
  by (cases r) simp_all

lemma ret_err_Inl [simp]: "ret_err r = Inl e \<longleftrightarrow> r = Some e"
  by (cases r) simp_all

text \<open>\<open>if err != nil { return err }\<close>, without and with a state.\<close>

fun bind_ok :: "'e + 'a \<Rightarrow> ('a \<Rightarrow> 'e + 'b) \<Rightarrow> 'e + 'b" where
  "bind_ok (Inl e) k = Inl e"
| "bind_ok (Inr a) k = k a"

fun then_do :: "('e + 'a) \<times> 's \<Rightarrow> ('a \<Rightarrow> 's \<Rightarrow> ('e + 'b) \<times> 's) \<Rightarrow> ('e + 'b) \<times> 's" where
  "then_do (Inl e, s) k = (Inl e, s)"
| "then_do (Inr a, s) k = k a s"

lemma bind_ok_Inr [simp]: "bind_ok x k = Inr b \<longleftrightarrow> (\<exists>a. x = Inr a \<and> k a = Inr b)"
  by (cases x) simp_all

lemma then_do_Inr: "then_do x k = (Inr b, s') \<longleftrightarrow> (\<exists>a s. x = (Inr a, s) \<and> k a s = (Inr b, s'))"
  by (cases x; cases "fst x") auto

section \<open>Lists\<close>

lemma append_sep_inject:
  "c \<notin> set xs \<Longrightarrow> c \<notin> set ys \<Longrightarrow> xs @ c # zs = ys @ c # ws \<Longrightarrow> xs = ys \<and> zs = ws"
proof (induction xs arbitrary: ys)
  case Nil
  then show ?case by (cases ys) auto
next
  case (Cons x xs)
  then show ?case by (cases ys) auto
qed

lemma filter_distinct_key:
  assumes "distinct (map f xs)"
  shows "filter (\<lambda>x. f x = k \<and> P x) xs = (case find (\<lambda>x. f x = k) xs of
    None \<Rightarrow> [] | Some x \<Rightarrow> if P x then [x] else [])"
  using assms
proof (induction xs)
  case Nil
  then show ?case by simp
next
  case (Cons x xs)
  show ?case
  proof (cases "f x = k")
    case True
    then have "filter (\<lambda>x. f x = k \<and> P x) xs = []"
      using Cons.prems by (auto simp: filter_empty_conv image_iff)
    with True show ?thesis by simp
  next
    case False
    with Cons show ?thesis by simp
  qed
qed

lemma find_map_key:
  "(\<And>x. f (g x) = f x) \<Longrightarrow> find (\<lambda>x. f x = k) (map g xs) = map_option g (find (\<lambda>x. f x = k) xs)"
  by (induction xs) auto

lemma find_key_Some: "find (\<lambda>x. f x = k) xs = Some x \<Longrightarrow> x \<in> set xs \<and> f x = k"
  by (induction xs) (auto split: if_splits)

lemma find_key_distinct:
  assumes "distinct (map f xs)" "x \<in> set xs"
  shows "find (\<lambda>y. f y = f x) xs = Some x"
  using assms by (induction xs) auto

lemma distinct_key_eq: "distinct (map f xs) \<Longrightarrow> x \<in> set xs \<Longrightarrow> y \<in> set xs \<Longrightarrow> f x = f y \<Longrightarrow> x = y"
  by (auto simp: distinct_map dest: inj_onD)

lemma find_key_None: "find (\<lambda>x. f x = k) xs = None \<longleftrightarrow> k \<notin> f ` set xs"
  by (induction xs) auto

end
