(* ===== verification/Go_Text.thy ===== *)
theory Go_Text
  imports Prelude
begin

text \<open>
  The parts of Go's standard library that the package applies to text: the UTF-8 check of
  \<open>unicode/utf8\<close> and the decimal rendering behind \<open>fmt.Sprintf\<close>'s \<open>%d\<close>. A Go string is a
  sequence of bytes, so text is a \<open>char list\<close> and \<open>len\<close> counts bytes.
\<close>

section \<open>UTF-8\<close>

text \<open>A continuation byte, and the byte ranges Go's acceptance table allows after a lead byte.\<close>

definition cont_byte :: "nat \<Rightarrow> bool" where
  "cont_byte c \<longleftrightarrow> 0x80 \<le> c \<and> c \<le> 0xBF"

definition accept_second :: "nat \<Rightarrow> nat \<Rightarrow> bool" where
  "accept_second b c \<longleftrightarrow>
     (if b = 0xE0 then 0xA0 \<le> c \<and> c \<le> 0xBF
      else if b = 0xED then 0x80 \<le> c \<and> c \<le> 0x9F
      else if b = 0xF0 then 0x90 \<le> c \<and> c \<le> 0xBF
      else if b = 0xF4 then 0x80 \<le> c \<and> c \<le> 0x8F
      else cont_byte c)"

text \<open>How many bytes a lead byte announces; 0 for a byte that starts no rune.\<close>

definition lead_size :: "nat \<Rightarrow> nat" where
  "lead_size b =
     (if b < 0x80 then 1
      else if 0xC2 \<le> b \<and> b \<le> 0xDF then 2
      else if 0xE0 \<le> b \<and> b \<le> 0xEF then 3
      else if 0xF0 \<le> b \<and> b \<le> 0xF4 then 4
      else 0)"

function valid_bytes :: "nat list \<Rightarrow> bool" where
  "valid_bytes [] = True"
| "valid_bytes (b # bs) =
     (if lead_size b = 1 then valid_bytes bs
      else if lead_size b = 2 then
        length bs \<ge> 1 \<and> accept_second b (bs ! 0) \<and> valid_bytes (drop 1 bs)
      else if lead_size b = 3 then
        length bs \<ge> 2 \<and> accept_second b (bs ! 0) \<and> cont_byte (bs ! 1) \<and> valid_bytes (drop 2 bs)
      else if lead_size b = 4 then
        length bs \<ge> 3 \<and> accept_second b (bs ! 0) \<and> cont_byte (bs ! 1) \<and> cont_byte (bs ! 2)
          \<and> valid_bytes (drop 3 bs)
      else False)"
  by pat_completeness auto
termination
  by (relation "measure length") auto

definition ValidString :: "string \<Rightarrow> bool" where
  "ValidString s = valid_bytes (map of_char s)"

subsection \<open>What the check accepts\<close>

text \<open>A Unicode scalar value and its UTF-8 encoding, as RFC 3629 defines them.\<close>

definition scalar :: "nat \<Rightarrow> bool" where
  "scalar r \<longleftrightarrow> r < 0xD800 \<or> 0xDFFF < r \<and> r < 0x110000"

definition encode_rune :: "nat \<Rightarrow> nat list" where
  "encode_rune r =
     (if r < 0x80 then [r]
      else if r < 0x800 then [0xC0 + r div 64, 0x80 + r mod 64]
      else if r < 0x10000 then [0xE0 + r div 4096, 0x80 + r div 64 mod 64, 0x80 + r mod 64]
      else [0xF0 + r div 262144, 0x80 + r div 4096 mod 64, 0x80 + r div 64 mod 64, 0x80 + r mod 64])"

lemmas utf8_defs = cont_byte_def accept_second_def lead_size_def scalar_def encode_rune_def

lemma valid_bytes_encode1:
  assumes "r < 0x80"
  shows "valid_bytes (encode_rune r @ bs) = valid_bytes bs"
  using assms by (simp add: encode_rune_def lead_size_def)

text \<open>
  The base-64 digits of a rune, so that the bounds below are linear in them.
\<close>

lemma rune_digits:
  fixes r :: nat
  obtains a b c where "r = 4096 * a + 64 * b + c" "b < 64" "c < 64"
    "r mod 64 = c" "r div 64 mod 64 = b" "r div 4096 = a" "r div 64 = 64 * a + b"
proof
  have 4: "r div 4096 = r div 64 div 64"
    by (simp add: div_mult2_eq [symmetric])
  then show "r div 64 = 64 * (r div 4096) + r div 64 mod 64"
    by simp
  then show "r = 4096 * (r div 4096) + 64 * (r div 64 mod 64) + r mod 64"
    using mult_div_mod_eq [of 64 r] by linarith
qed simp_all

lemma valid_bytes_encode2:
  assumes "0x80 \<le> r" "r < 0x800"
  shows "valid_bytes (encode_rune r @ bs) = valid_bytes bs"
proof -
  have "2 \<le> r div 64" "r div 64 < 32" "r mod 64 \<le> 63" using assms by auto
  then show ?thesis using assms by (simp add: utf8_defs)
qed

lemma valid_bytes_encode3:
  assumes "0x800 \<le> r" "r < 0x10000" "scalar r"
  shows "valid_bytes (encode_rune r @ bs) = valid_bytes bs"
proof -
  obtain a b c where r: "r = 4096 * a + 64 * b + c" and d: "b < 64" "c < 64"
    and e: "r mod 64 = c" "r div 64 mod 64 = b" "r div 4096 = a"
    by (rule rune_digits [of r]) blast
  have "a < 16" and "a = 0 \<longrightarrow> 32 \<le> b" and "a = 13 \<longrightarrow> b < 32"
    using assms d unfolding r scalar_def by linarith+
  moreover have "encode_rune r = [0xE0 + a, 0x80 + b, 0x80 + c]"
    using assms(1,2) e by (simp add: encode_rune_def)
  ultimately show ?thesis
    using d by (auto simp: cont_byte_def accept_second_def lead_size_def)
qed

lemma valid_bytes_encode4:
  assumes "0x10000 \<le> r" "scalar r"
  shows "valid_bytes (encode_rune r @ bs) = valid_bytes bs"
proof -
  obtain a b c where r: "r = 4096 * a + 64 * b + c" and d: "b < 64" "c < 64"
    and e: "r mod 64 = c" "r div 64 mod 64 = b" "r div 4096 = a"
    by (rule rune_digits [of r]) blast
  define a1 a0 where "a1 = a div 64" and "a0 = a mod 64"
  have a: "a = 64 * a1 + a0" "a0 < 64" by (simp_all add: a1_def a0_def)
  have "r div 262144 = a1"
    using e(3) by (simp add: a1_def div_mult2_eq [symmetric])
  then have "encode_rune r = [0xF0 + a1, 0x80 + a0, 0x80 + b, 0x80 + c]"
    using assms(1) e by (simp add: encode_rune_def a0_def)
  moreover have "a1 < 5" and "a1 = 0 \<longrightarrow> 16 \<le> a0" and "a1 = 4 \<longrightarrow> a0 < 16"
    using assms a d unfolding r scalar_def by linarith+
  ultimately show ?thesis
    using d a(2) by (auto simp: cont_byte_def accept_second_def lead_size_def)
qed

lemma valid_bytes_encode:
  assumes "scalar r"
  shows "valid_bytes (encode_rune r @ bs) = valid_bytes bs"
  using assms valid_bytes_encode1 valid_bytes_encode2 valid_bytes_encode3 valid_bytes_encode4
  by (metis not_le)

lemma digits_rune:
  fixes a b c :: nat
  assumes "b < 64" "c < 64"
  shows "(4096 * a + 64 * b + c) mod 64 = c" "(4096 * a + 64 * b + c) div 64 mod 64 = b"
    "(4096 * a + 64 * b + c) div 4096 = a"
proof -
  have r: "4096 * a + 64 * b + c = 64 * (64 * a + b) + c" by simp
  have q: "(64 * (64 * a + b) + c) div 64 = 64 * a + b" using assms(2) by simp
  show "(4096 * a + 64 * b + c) mod 64 = c"
    unfolding r mod_mult_self4 using assms(2) by simp
  show "(4096 * a + 64 * b + c) div 64 mod 64 = b" unfolding r q using assms(1) by simp
  have "(4096 * a + 64 * b + c) div 4096 = (4096 * a + 64 * b + c) div 64 div 64"
    by (simp add: div_mult2_eq [symmetric])
  also have "\<dots> = a" unfolding r q using assms(1) by simp
  finally show "(4096 * a + 64 * b + c) div 4096 = a" .
qed

lemma decode_two:
  assumes "lead_size b = 2" "accept_second b c"
  shows "\<exists>r. scalar r \<and> encode_rune r = [b, c]"
proof -
  define x y where "x = b - 0xC0" and "y = c - 0x80"
  have b: "b = 0xC0 + x" "2 \<le> x" "x < 32" and c: "c = 0x80 + y" "y < 64"
    using assms by (auto simp: lead_size_def accept_second_def cont_byte_def x_def y_def split: if_splits)
  have "scalar (64 * x + y) \<and> encode_rune (64 * x + y) = [b, c]"
    using b c by (auto simp: scalar_def encode_rune_def)
  then show ?thesis by blast
qed

lemma decode_three:
  assumes "lead_size b = 3" "accept_second b c" "cont_byte d"
  shows "\<exists>r. scalar r \<and> encode_rune r = [b, c, d]"
proof -
  define x y z where "x = b - 0xE0" and "y = c - 0x80" and "z = d - 0x80"
  have b: "b = 0xE0 + x" "x < 16" and c: "c = 0x80 + y" "y < 64" and d: "d = 0x80 + z" "z < 64"
    and s: "x = 0 \<longrightarrow> 32 \<le> y" "x = 13 \<longrightarrow> y < 32"
    using assms by (auto simp: lead_size_def accept_second_def cont_byte_def x_def y_def z_def
        split: if_splits)
  let ?r = "4096 * x + 64 * y + z"
  have r: "0x800 \<le> ?r" "?r < 0x10000"
    using b(2) c(2) d(2) s(1) by (cases "x = 0"; linarith)+
  consider "x < 13" | "x = 13" | "13 < x" by linarith
  then have sc: "scalar ?r"
    using b(2) c(2) d(2) s(2) unfolding scalar_def by cases linarith+
  have "encode_rune ?r = [b, c, d]"
    using r b(1) c d unfolding encode_rune_def by (simp add: digits_rune)
  with sc show ?thesis by blast
qed

lemma decode_four:
  assumes "lead_size b = 4" "accept_second b c" "cont_byte d" "cont_byte e"
  shows "\<exists>r. scalar r \<and> encode_rune r = [b, c, d, e]"
proof -
  define w x y z where "w = b - 0xF0" and "x = c - 0x80" and "y = d - 0x80" and "z = e - 0x80"
  have b: "b = 0xF0 + w" "w < 5" and c: "c = 0x80 + x" "x < 64" and d: "d = 0x80 + y" "y < 64"
    and e: "e = 0x80 + z" "z < 64" and s: "w = 0 \<longrightarrow> 16 \<le> x" "w = 4 \<longrightarrow> x < 16"
    using assms by (auto simp: lead_size_def accept_second_def cont_byte_def w_def x_def y_def z_def
        split: if_splits)
  let ?a = "64 * w + x"
  let ?r = "4096 * ?a + 64 * y + z"
  have r: "0x10000 \<le> ?r"
  proof (cases "w = 0")
    case True
    then show ?thesis using s(1) by simp
  next
    case False
    then have "64 \<le> ?a" by simp
    then have "4096 * 64 \<le> 4096 * ?a" by (rule mult_le_mono2)
    then show ?thesis by simp
  qed
  have "?a \<le> 271"
    using b(2) c(2) s(2) by (cases "w = 4") auto
  then have "4096 * ?a \<le> 4096 * 271" by (rule mult_le_mono2)
  then have "?r < 0x110000" using d(2) e(2) by simp
  with r have sc: "scalar ?r" by (simp add: scalar_def)
  have g: "?r mod 64 = z" "?r div 64 mod 64 = y" "?r div 4096 = ?a"
    using d e by (simp_all only: digits_rune)
  have "?r div 262144 = ?r div 4096 div 64" by (simp only: div_mult2_eq [symmetric]) simp
  also have "\<dots> = w" using c(2) unfolding g by simp
  finally have "encode_rune ?r = [b, c, d, e]"
    using r g b(1) c d(1) e(1) unfolding encode_rune_def by simp
  with sc show ?thesis by blast
qed

definition utf8_text :: "nat list \<Rightarrow> bool" where
  "utf8_text bs \<longleftrightarrow> (\<exists>rs. list_all scalar rs \<and> bs = concat (map encode_rune rs))"

lemma utf8_text_cons:
  assumes "scalar r" "utf8_text bs"
  shows "utf8_text (encode_rune r @ bs)"
proof -
  from assms(2) obtain rs where "list_all scalar rs" "bs = concat (map encode_rune rs)"
    by (auto simp: utf8_text_def)
  with assms(1) have "list_all scalar (r # rs)" "encode_rune r @ bs = concat (map encode_rune (r # rs))"
    by simp_all
  then show ?thesis unfolding utf8_text_def by blast
qed

lemma list_take_cases:
  "length bs \<ge> 1 \<Longrightarrow> bs = [bs ! 0] @ drop 1 bs"
  "length bs \<ge> 2 \<Longrightarrow> bs = [bs ! 0, bs ! 1] @ drop 2 bs"
  "length bs \<ge> 3 \<Longrightarrow> bs = [bs ! 0, bs ! 1, bs ! 2] @ drop 3 bs"
  by (auto simp: numeral_eq_Suc Suc_le_length_iff)

lemma valid_bytes_decodes: "valid_bytes bs \<Longrightarrow> utf8_text bs"
proof (induction bs rule: valid_bytes.induct)
  case 1
  show ?case by (auto simp: utf8_text_def intro: exI [of _ "[]"])
next
  case (2 b bs)
  consider (1) "lead_size b = 1" | (2) "lead_size b = 2" | (3) "lead_size b = 3" | (4) "lead_size b = 4"
    using "2.prems" by (auto split: if_splits)
  then show ?case
  proof cases
    case 1
    then have "b < 0x80" by (auto simp: lead_size_def split: if_splits)
    then show ?thesis
      using utf8_text_cons [of b bs] "2.IH"(1) "2.prems" 1 by (simp add: scalar_def encode_rune_def)
  next
    case 2
    with "2.prems" have v: "length bs \<ge> 1" "accept_second b (bs ! 0)" "valid_bytes (drop 1 bs)"
      by simp_all
    from decode_two [OF 2 v(2)] obtain r where r: "scalar r" "encode_rune r = [b, bs ! 0]" by blast
    have "b # bs = encode_rune r @ drop 1 bs" using r(2) list_take_cases(1) [OF v(1)] by simp
    then show ?thesis using utf8_text_cons [OF r(1)] "2.IH"(2) 2 v by simp
  next
    case 3
    with "2.prems" have v: "length bs \<ge> 2" "accept_second b (bs ! 0)" "cont_byte (bs ! 1)"
      "valid_bytes (drop 2 bs)" by simp_all
    from decode_three [OF 3 v(2,3)] obtain r where r: "scalar r" "encode_rune r = [b, bs ! 0, bs ! 1]"
      by blast
    have "b # bs = encode_rune r @ drop 2 bs" using r(2) list_take_cases(2) [OF v(1)] by simp
    then show ?thesis using utf8_text_cons [OF r(1)] "2.IH"(3) 3 v by simp
  next
    case 4
    with "2.prems" have v: "length bs \<ge> 3" "accept_second b (bs ! 0)" "cont_byte (bs ! 1)"
      "cont_byte (bs ! 2)" "valid_bytes (drop 3 bs)" by simp_all
    from decode_four [OF 4 v(2,3,4)] obtain r
      where r: "scalar r" "encode_rune r = [b, bs ! 0, bs ! 1, bs ! 2]" by blast
    have "b # bs = encode_rune r @ drop 3 bs" using r(2) list_take_cases(3) [OF v(1)] by simp
    then show ?thesis using utf8_text_cons [OF r(1)] "2.IH"(4) 4 v by simp
  qed
qed

lemma encoded_valid_bytes: "list_all scalar rs \<Longrightarrow> valid_bytes (concat (map encode_rune rs))"
  by (induction rs) (simp_all add: valid_bytes_encode)

lemma valid_bytes_iff: "valid_bytes bs \<longleftrightarrow> utf8_text bs"
  using valid_bytes_decodes encoded_valid_bytes by (auto simp: utf8_text_def)

section \<open>Decimal rendering\<close>

definition digit :: "nat \<Rightarrow> char" where
  "digit n = char_of (48 + n)"

fun show_nat :: "nat \<Rightarrow> string" where
  "show_nat n = (if n < 10 then [digit n] else show_nat (n div 10) @ [digit (n mod 10)])"

declare show_nat.simps [simp del]

definition show_int :: "int \<Rightarrow> string" where
  "show_int n = (if n < 0 then ''-'' @ show_nat (nat (- n)) else show_nat (nat n))"

definition digit_value :: "char \<Rightarrow> nat" where
  "digit_value c = of_char c - 48"

definition read_nat :: "string \<Rightarrow> nat" where
  "read_nat s = foldl (\<lambda>a c. 10 * a + digit_value c) 0 s"

lemma digit_value_digit [simp]: "n < 10 \<Longrightarrow> digit_value (digit n) = n"
  by (simp add: digit_def digit_value_def)

lemma read_show_nat [simp]: "read_nat (show_nat n) = n"
proof (induction n rule: show_nat.induct)
  case (1 n)
  then show ?case
    by (cases "n < 10") (simp_all add: show_nat.simps [of n] read_nat_def)
qed

lemma show_nat_digits: "c \<in> set (show_nat n) \<Longrightarrow> \<exists>k < 10. c = digit k"
proof (induction n rule: show_nat.induct)
  case (1 n)
  show ?case
  proof (cases "n < 10 \<or> c = digit (n mod 10)")
    case True
    then have "c = digit (n mod 10)" using "1.prems" by (auto simp: show_nat.simps [of n])
    moreover have "n mod 10 < 10" by simp
    ultimately show ?thesis by blast
  next
    case False
    then have "c \<in> set (show_nat (n div 10))" using "1.prems" by (auto simp: show_nat.simps [of n])
    with False show ?thesis using "1.IH" by simp
  qed
qed

lemma digit_code: "k < 10 \<Longrightarrow> of_char (digit k) = (48 + k :: nat)"
  by (simp add: digit_def)

lemma digit_not [simp]:
  assumes "k < 10"
  shows "digit k \<noteq> CHR ''_''" "digit k \<noteq> CHR ''-''"
proof -
  have "of_char (digit k) \<noteq> (of_char (CHR ''_'') :: nat)"
    "of_char (digit k) \<noteq> (of_char (CHR ''-'') :: nat)"
    using assms by (simp_all add: digit_code)
  then show "digit k \<noteq> CHR ''_''" "digit k \<noteq> CHR ''-''" by metis+
qed

lemma show_int_no_underscore: "CHR ''_'' \<notin> set (show_int n)"
proof -
  have "CHR ''_'' \<notin> set (show_nat k)" for k
    using show_nat_digits [of "CHR ''_''" k] by (metis digit_not(1))
  then show ?thesis by (simp add: show_int_def)
qed

lemma show_nat_no_minus: "hd (show_nat n) \<noteq> CHR ''-''" and show_nat_nonempty: "show_nat n \<noteq> []"
proof -
  show ne: "show_nat n \<noteq> []" by (simp add: show_nat.simps [of n])
  then have "hd (show_nat n) \<in> set (show_nat n)" by simp
  then show "hd (show_nat n) \<noteq> CHR ''-''" using show_nat_digits digit_not(2) by metis
qed

lemma show_nat_inject [simp]: "show_nat m = show_nat n \<longleftrightarrow> m = n"
  by (metis read_show_nat)

lemma show_int_inject [simp]: "show_int m = show_int n \<longleftrightarrow> m = n"
proof
  assume eq: "show_int m = show_int n"
  have sgn: "hd (show_int k) = CHR ''-'' \<longleftrightarrow> k < 0" for k
    by (simp add: show_int_def show_nat_no_minus)
  have "m < 0 \<longleftrightarrow> n < 0" using eq sgn [of m] sgn [of n] by simp
  with eq show "m = n" by (auto simp: show_int_def split: if_splits)
qed simp

end
