(* ===== verification/Go_Float.thy ===== *)
theory Go_Float
  imports Complex_Main Go_Text
begin

text \<open>
  Go's \<open>float64\<close>, as far as the load generator computes with it: a finite value is the rational
  number it denotes, and an operation is the exact one, rounded to 53 bits, ties to even,
  with the binary64 format's smallest exponent and overflow. The sign of a zero is not kept:
  nothing here divides by a negative zero. A conversion to an integer that the value does not
  fit is implementation-specific in Go and is an argument, \<open>wild\<close>. Also the verbs \<open>%.1f\<close>, \<open>%.0f\<close> and
  \<open>%g\<close> of \<open>fmt\<close>.
\<close>

section \<open>Rounding\<close>

definition half_even :: "rat \<Rightarrow> int" where
  "half_even r =
     (let f = \<lfloor>r\<rfloor>; d = r - of_int f in
      if d < 1 / 2 \<or> d = 1 / 2 \<and> even f then f else f + 1)"

text \<open>The number of binary digits.\<close>

function ilen :: "int \<Rightarrow> int" where
  "ilen n = (if n \<le> 0 then 0 else 1 + ilen (n div 2))"
  by pat_completeness auto
termination
  by (relation "measure nat") auto

declare ilen.simps [simp del]

definition pow2 :: "int \<Rightarrow> rat" where
  "pow2 e = (if 0 \<le> e then 2 ^ nat e else 1 / 2 ^ nat (- e))"

text \<open>The exponent of a positive rational: the largest power of two not above it.\<close>

definition exponent :: "rat \<Rightarrow> int" where
  "exponent r = (let (p, q) = quotient_of r; e = ilen p - ilen q in if pow2 e \<le> r then e else e - 1)"

definition round64 :: "rat \<Rightarrow> rat" where
  "round64 r =
     (if r = 0 then 0
      else let u = pow2 (max (exponent \<bar>r\<bar>) (- 1022) - 52) in of_int (half_even (r / u)) * u)"

section \<open>Values and operations\<close>

datatype float64 = Fin rat | Infinity bool | NaN

text \<open>Two to the 1024, where the finite values end.\<close>

definition float_end :: rat where
  "float_end = ((2 ^ 16) ^ 16) ^ 4"

definition to_float :: "rat \<Rightarrow> float64" where
  "to_float r = (let x = round64 r in if \<bar>x\<bar> < float_end then Fin x else Infinity (x < 0))"

definition float_of_int :: "int \<Rightarrow> float64" where
  "float_of_int n = to_float (of_int n)"

fun fmul :: "float64 \<Rightarrow> float64 \<Rightarrow> float64" where
  "fmul (Fin a) (Fin b) = to_float (a * b)"
| "fmul (Fin a) (Infinity s) = (if a = 0 then NaN else Infinity (s \<noteq> (a < 0)))"
| "fmul (Infinity s) (Fin a) = (if a = 0 then NaN else Infinity (s \<noteq> (a < 0)))"
| "fmul (Infinity s) (Infinity t) = Infinity (s \<noteq> t)"
| "fmul NaN x = NaN"
| "fmul x NaN = NaN"

fun fdiv :: "float64 \<Rightarrow> float64 \<Rightarrow> float64" where
  "fdiv (Fin a) (Fin b) =
     (if b \<noteq> 0 then to_float (a / b) else if a = 0 then NaN else Infinity (a < 0))"
| "fdiv (Fin a) (Infinity s) = Fin 0"
| "fdiv (Infinity s) (Fin b) = Infinity (s \<noteq> (b < 0))"
| "fdiv (Infinity s) (Infinity t) = NaN"
| "fdiv NaN x = NaN"
| "fdiv x NaN = NaN"

fun fadd :: "float64 \<Rightarrow> float64 \<Rightarrow> float64" where
  "fadd (Fin a) (Fin b) = to_float (a + b)"
| "fadd (Fin a) (Infinity s) = Infinity s"
| "fadd (Infinity s) (Fin b) = Infinity s"
| "fadd (Infinity s) (Infinity t) = (if s = t then Infinity s else NaN)"
| "fadd NaN x = NaN"
| "fadd x NaN = NaN"

text \<open>\<open>x <= 0\<close>.\<close>

fun fle0 :: "float64 \<Rightarrow> bool" where
  "fle0 (Fin a) = (a \<le> 0)"
| "fle0 (Infinity s) = s"
| "fle0 NaN = False"

text \<open>Conversions to integers, towards zero.\<close>

definition towards_zero :: "rat \<Rightarrow> int" where
  "towards_zero r = (if r < 0 then - \<lfloor>- r\<rfloor> else \<lfloor>r\<rfloor>)"

definition float_to_int64 :: "(float64 \<Rightarrow> u64) \<Rightarrow> float64 \<Rightarrow> int" where
  "float_to_int64 wild x =
     (case x of
        Fin r \<Rightarrow> if - 9223372036854775808 \<le> towards_zero r \<and> towards_zero r \<le> bigint_max then towards_zero r
                 else int64 (wild x)
      | _ \<Rightarrow> int64 (wild x))"

definition float_to_uint64 :: "(float64 \<Rightarrow> u64) \<Rightarrow> float64 \<Rightarrow> u64" where
  "float_to_uint64 wild x =
     (case x of
        Fin r \<Rightarrow> if 0 \<le> towards_zero r \<and> towards_zero r < 18446744073709551616 then uint64 (towards_zero r) else wild x
      | _ \<Rightarrow> wild x)"

section \<open>Text\<close>

text \<open>A number of tenths as a decimal number.\<close>

definition show_tenths :: "nat \<Rightarrow> string" where
  "show_tenths t = show_nat (t div 10) @ ''.'' @ show_nat (t mod 10)"

fun show_nonfinite :: "float64 \<Rightarrow> string" where
  "show_nonfinite (Infinity s) = (if s then ''-Inf'' else ''+Inf'')"
| "show_nonfinite x = ''NaN''"

text \<open>\<open>%.1f\<close> and \<open>%.0f\<close>: the decimal nearest to the value, ties to even.\<close>

definition show_f1 :: "float64 \<Rightarrow> string" where
  "show_f1 x =
     (case x of Fin r \<Rightarrow> (if r < 0 then ''-'' else []) @ show_tenths (nat (half_even (\<bar>r\<bar> * 10))) | _ \<Rightarrow> show_nonfinite x)"

definition show_f0 :: "float64 \<Rightarrow> string" where
  "show_f0 x =
     (case x of Fin r \<Rightarrow> (if r < 0 then ''-'' else []) @ show_nat (nat (half_even \<bar>r\<bar>)) | _ \<Rightarrow> show_nonfinite x)"

text \<open>
  \<open>%g\<close>: the shortest decimal that rounds to the value. \<open>dec_point r\<close> is where its decimal point goes, the
  \<open>k\<close> with \<open>r\<close> in the decade below ten to the \<open>k\<close>.
\<close>

function dlen :: "int \<Rightarrow> int" where
  "dlen n = (if n \<le> 0 then 0 else 1 + dlen (n div 10))"
  by pat_completeness auto
termination
  by (relation "measure nat") auto

declare dlen.simps [simp del]

definition pow10 :: "int \<Rightarrow> rat" where
  "pow10 e = (if 0 \<le> e then 10 ^ nat e else 1 / 10 ^ nat (- e))"

definition dec_point :: "rat \<Rightarrow> int" where
  "dec_point r = (if 1 \<le> r then dlen \<lfloor>r\<rfloor> else 1 - dlen (\<lceil>1 / r\<rceil> - 1))"

text \<open>Of the two decimals of \<open>n\<close> digits around \<open>r\<close> the one that rounds to it, and the nearer of two.\<close>

definition digits_of :: "rat \<Rightarrow> nat \<Rightarrow> int option" where
  "digits_of r n =
     (let u = pow10 (dec_point r - int n); lo = \<lfloor>r / u\<rfloor>;
          below = (round64 (of_int lo * u) = r); above = (round64 (of_int (lo + 1) * u) = r)
      in if below \<and> above then Some (half_even (r / u))
         else if below then Some lo else if above then Some (lo + 1) else None)"

fun shortest_from :: "rat \<Rightarrow> nat list \<Rightarrow> int \<times> int" where
  "shortest_from r [] = (\<lfloor>r / pow10 (dec_point r - 17)\<rfloor>, dec_point r - 17)"
| "shortest_from r (n # ns) =
     (case digits_of r n of Some d \<Rightarrow> (d, dec_point r - int n) | None \<Rightarrow> shortest_from r ns)"

definition strip_zeros :: "string \<Rightarrow> string" where
  "strip_zeros s = rev (dropWhile (\<lambda>c. c = CHR ''0'') (rev s))"

text \<open>The digits after the point, from position \<open>i\<close> on.\<close>

definition frac_digits :: "string \<Rightarrow> int \<Rightarrow> string" where
  "frac_digits ds dp = replicate (nat (- dp)) (CHR ''0'') @ drop (nat dp) ds"

definition show_exp :: "int \<Rightarrow> string" where
  "show_exp e = (if e < 0 then ''-'' else ''+'') @ (if \<bar>e\<bar> < 10 then ''0'' else []) @ show_nat (nat \<bar>e\<bar>)"

definition show_pos :: "rat \<Rightarrow> string" where
  "show_pos r =
     (let (d, e) = shortest_from r [1..<18]; text = show_nat (nat d); ds = strip_zeros text; dp = int (length text) + e
      in if dp - 1 < - 4 \<or> 6 \<le> dp - 1
         then take 1 ds @ (if length ds = 1 then [] else ''.'' @ drop 1 ds) @ ''e'' @ show_exp (dp - 1)
         else (if dp \<le> 0 then ''0'' else take (nat dp) ds @ replicate (nat dp - length ds) (CHR ''0'')) @
              (if int (length ds) \<le> dp then [] else ''.'' @ frac_digits ds dp))"

definition show_g :: "float64 \<Rightarrow> string" where
  "show_g x =
     (case x of
        Fin r \<Rightarrow> if r = 0 then ''0'' else if r < 0 then ''-'' @ show_pos (- r) else show_pos r
      | _ \<Rightarrow> show_nonfinite x)"

section \<open>How near rounding stays\<close>

lemma half_even_error: "\<bar>of_int (half_even r) - r\<bar> \<le> 1 / 2"
proof -
  have "of_int \<lfloor>r\<rfloor> \<le> r" "r < of_int \<lfloor>r\<rfloor> + 1" by linarith+
  then show ?thesis unfolding half_even_def Let_def by (auto simp: abs_le_iff)
qed

lemma half_even_of_int [simp]: "half_even (of_int n) = n"
  by (simp add: half_even_def)

lemma half_even_ge:
  assumes "of_int k \<le> r"
  shows "k \<le> half_even r"
proof -
  have "k \<le> \<lfloor>r\<rfloor>" using assms by (simp add: le_floor_iff)
  then show ?thesis by (simp add: half_even_def Let_def)
qed

lemma half_even_le:
  assumes "r \<le> of_int k"
  shows "half_even r \<le> k"
proof (cases "\<lfloor>r\<rfloor> = k")
  case True
  then have "r = of_int k" using assms by linarith
  then show ?thesis by simp
next
  case False
  then have "\<lfloor>r\<rfloor> < k" using assms by linarith
  then show ?thesis by (simp add: half_even_def Let_def)
qed

lemma pow2_powi: "pow2 e = 2 powi e"
  by (simp add: pow2_def power_int_def inverse_eq_divide power_divide)

lemma pow2_pos [simp]: "0 < pow2 e"
  by (simp add: pow2_def)

lemma pow2_nonzero [simp]: "pow2 e \<noteq> 0"
  using pow2_pos [of e] by linarith

lemma pow2_nonneg [simp]: "0 \<le> pow2 e" and pow2_abs [simp]: "\<bar>pow2 e\<bar> = pow2 e"
  using pow2_pos [of e] by linarith+

lemma pow2_add: "pow2 (a + b) = pow2 a * pow2 b"
  by (simp add: pow2_powi power_int_add)

lemma pow2_diff: "pow2 (a - b) = pow2 a / pow2 b"
  by (simp add: pow2_powi power_int_diff)

lemma pow2_less: "a < b \<Longrightarrow> pow2 a < pow2 b"
  by (simp add: pow2_powi power_int_strict_increasing)

lemma pow2_less_iff [simp]: "pow2 a < pow2 b \<longleftrightarrow> a < b"
  using pow2_less [of a b] pow2_less [of b a] by (cases a b rule: linorder_cases) auto

lemma pow2_le_iff [simp]: "pow2 a \<le> pow2 b \<longleftrightarrow> a \<le> b"
  using pow2_less_iff [of b a] by (simp add: not_less [symmetric])

lemma pow2_0 [simp]: "pow2 0 = 1" and pow2_1: "pow2 1 = 2"
  by (simp_all add: pow2_def)

lemma pow2_nat: "0 \<le> e \<Longrightarrow> pow2 e = of_int (2 ^ nat e)"
  by (simp add: pow2_def)

lemma ilen_nonneg: "0 \<le> ilen n"
proof (induction n rule: ilen.induct)
  case (1 n)
  then show ?case by (cases "n \<le> 0") (simp_all add: ilen.simps [of n])
qed

lemma ilen_bounds: "0 < n \<Longrightarrow> pow2 (ilen n - 1) \<le> of_int n \<and> of_int n < pow2 (ilen n)"
proof (induction n rule: ilen.induct)
  case (1 n)
  let ?k = "ilen (n div 2)"
  have len: "ilen n = 1 + ?k" using "1.prems" by (simp add: ilen.simps [of n])
  have two: "pow2 (1 + k) = 2 * pow2 k" for k by (simp only: pow2_add pow2_1)
  show ?case
  proof (cases "n = 1")
    case True
    then show ?thesis by (simp add: ilen.simps pow2_def)
  next
    case False
    then have "0 < n div 2" using "1.prems" by auto
    with "1.IH" "1.prems" have ih: "pow2 (?k - 1) \<le> of_int (n div 2)" "of_int (n div 2) < pow2 ?k" by auto
    have up: "of_int (n div 2 + 1) \<le> pow2 ?k"
      using ih(2) unfolding pow2_nat [OF ilen_nonneg] of_int_less_iff of_int_le_iff by simp
    have n: "of_int (2 * (n div 2)) \<le> (of_int n :: rat)" "(of_int n :: rat) < of_int (2 * (n div 2 + 1))"
      unfolding of_int_le_iff of_int_less_iff by presburger+
    have "pow2 (1 + (?k - 1)) \<le> of_int n" using two [of "?k - 1"] ih(1) n(1) by simp
    moreover have "of_int n < pow2 (1 + ?k)" using two [of ?k] up n(2) by simp
    ultimately show ?thesis unfolding len by simp
  qed
qed

lemma exponent_bounds:
  assumes "0 < r"
  shows "pow2 (exponent r) \<le> r" "r < pow2 (exponent r + 1)"
proof -
  obtain p q where pq: "quotient_of r = (p, q)" by (cases "quotient_of r")
  have q: "0 < q" using quotient_of_denom_pos [OF pq] .
  have r: "r = of_int p / of_int q" using quotient_of_div [OF pq] .
  with assms q have p: "0 < p" by (simp add: zero_less_divide_iff)
  let ?e = "ilen p - ilen q"
  note bp = ilen_bounds [OF p] and bq = ilen_bounds [OF q]
  have "pow2 (ilen p - 1) / pow2 (ilen q) \<le> r"
    unfolding r using bp bq p q by (intro frac_le) (simp_all add: less_imp_le)
  moreover have "r < pow2 (ilen p) / pow2 (ilen q - 1)"
    unfolding r using bp bq p by (intro frac_less) simp_all
  ultimately have "pow2 (ilen p - 1 - ilen q) \<le> r" "r < pow2 (ilen p - (ilen q - 1))"
    unfolding pow2_diff by (simp_all only:)
  moreover have "ilen p - 1 - ilen q = ?e - 1" "ilen p - (ilen q - 1) = ?e + 1" by simp_all
  ultimately show "pow2 (exponent r) \<le> r" "r < pow2 (exponent r + 1)"
    by (simp_all add: exponent_def pq Let_def)
qed

text \<open>The spacing of the values around \<open>r\<close>, and that a rounded value is a whole number of it, within 53 bits.\<close>

definition ulp :: "rat \<Rightarrow> int" where
  "ulp r = max (exponent \<bar>r\<bar>) (- 1022) - 52"

lemma round64_ulp: "r \<noteq> 0 \<Longrightarrow> round64 r = of_int (half_even (r / pow2 (ulp r))) * pow2 (ulp r)"
  by (simp add: round64_def ulp_def Let_def)

lemma round64_error_ulp:
  assumes "r \<noteq> 0"
  shows "\<bar>round64 r - r\<bar> \<le> pow2 (ulp r) / 2"
proof -
  have "round64 r - r = (of_int (half_even (r / pow2 (ulp r))) - r / pow2 (ulp r)) * pow2 (ulp r)"
    using pow2_pos [of "ulp r"] by (simp add: round64_ulp [OF assms] left_diff_distrib)
  then have "\<bar>round64 r - r\<bar> = \<bar>of_int (half_even (r / pow2 (ulp r))) - r / pow2 (ulp r)\<bar> * pow2 (ulp r)"
    using pow2_pos [of "ulp r"] by (simp add: abs_mult)
  then show ?thesis using half_even_error [of "r / pow2 (ulp r)"] by (simp add: mult_right_mono)
qed

lemma round64_error:
  assumes "pow2 (- 1022) \<le> \<bar>r\<bar>"
  shows "\<bar>round64 r - r\<bar> \<le> \<bar>r\<bar> * pow2 (- 53)"
proof -
  have pos: "0 < \<bar>r\<bar>" using assms pow2_pos by (rule less_le_trans [rotated])
  note e = exponent_bounds [OF pos]
  have "pow2 (- 1022) < pow2 (exponent \<bar>r\<bar> + 1)" using assms e(2) by (rule le_less_trans)
  then have "ulp r = exponent \<bar>r\<bar> - 52" by (simp add: ulp_def)
  moreover have "pow2 52 = 4503599627370496" "pow2 (- 53) = 1 / 9007199254740992" by (simp_all add: pow2_def)
  ultimately have "pow2 (ulp r) / 2 = pow2 (exponent \<bar>r\<bar>) * pow2 (- 53)" by (simp add: pow2_diff)
  moreover have "\<dots> \<le> \<bar>r\<bar> * pow2 (- 53)" using e(1) pow2_pos [of "- 53"] by (intro mult_right_mono) simp_all
  moreover have "\<bar>round64 r - r\<bar> \<le> pow2 (ulp r) / 2" using pos by (intro round64_error_ulp) simp
  ultimately show ?thesis by linarith
qed

lemma round64_exact_below:
  assumes r: "r = of_int m * pow2 j" and m: "\<bar>m\<bar> < 2 ^ 53" and j: "- 1074 \<le> j"
  shows "round64 r = r"
proof (cases "m = 0")
  case False
  then have pos: "0 < \<bar>r\<bar>" using r pow2_pos [of j] by simp
  have "\<bar>r\<bar> = of_int \<bar>m\<bar> * pow2 j" using r pow2_pos [of j] by (simp add: abs_mult)
  moreover have "of_int \<bar>m\<bar> < pow2 53" using m by (simp add: pow2_def flip: of_int_less_iff [where 'a = rat])
  ultimately have "\<bar>r\<bar> < pow2 (53 + j)" by (simp add: pow2_add)
  with exponent_bounds(1) [OF pos] have "pow2 (exponent \<bar>r\<bar>) < pow2 (53 + j)" by (rule le_less_trans)
  then have le: "0 \<le> j - ulp r" using j by (simp add: ulp_def)
  have eq: "r / pow2 (ulp r) = of_int (m * 2 ^ nat (j - ulp r))"
    using pow2_nat [OF le] unfolding r pow2_diff by (simp add: times_divide_eq_right [symmetric] del: times_divide_eq_right)
  from this have "half_even (r / pow2 (ulp r)) = m * 2 ^ nat (j - ulp r)" by (simp only: half_even_of_int)
  then have "round64 r = r / pow2 (ulp r) * pow2 (ulp r)" using pos eq by (simp only: round64_ulp)
  then show ?thesis by simp
qed (simp add: r round64_def)

lemma round64_exact:
  assumes r: "r = of_int m * pow2 j" and m: "\<bar>m\<bar> \<le> 2 ^ 53" and j: "- 1074 \<le> j"
  shows "round64 r = r"
proof (cases "\<bar>m\<bar> < 2 ^ 53")
  case True
  then show ?thesis using r j by (intro round64_exact_below)
next
  case False
  then have "m = 2 ^ 53 \<or> m = - (2 ^ 53)" using m by linarith
  then obtain k where "m = 2 * k" "\<bar>k\<bar> < 2 ^ 53" by (elim disjE) (auto intro: that [of "2 ^ 52"] that [of "- (2 ^ 52)"])
  then show ?thesis using r j by (intro round64_exact_below [of r k "1 + j"]) (simp_all add: pow2_add pow2_1)
qed

lemma round64_bits:
  assumes "r \<noteq> 0"
  obtains m where "round64 r = of_int m * pow2 (ulp r)" "\<bar>m\<bar> \<le> 2 ^ 53"
proof -
  let ?m = "half_even (r / pow2 (ulp r))"
  have "\<bar>r\<bar> < pow2 (exponent \<bar>r\<bar> + 1)" using exponent_bounds(2) [of "\<bar>r\<bar>"] assms by simp
  also have "\<dots> \<le> pow2 (53 + ulp r)" by (simp add: ulp_def)
  finally have "\<bar>r\<bar> < of_int (2 ^ 53) * pow2 (ulp r)" by (simp add: pow2_add pow2_nat)
  then have "\<bar>r / pow2 (ulp r)\<bar> \<le> of_int (2 ^ 53)"
    by (simp add: abs_divide divide_le_eq less_imp_le)
  then have "r / pow2 (ulp r) \<le> of_int (2 ^ 53)" "of_int (- (2 ^ 53)) \<le> r / pow2 (ulp r)"
    by linarith+
  then have "?m \<le> 2 ^ 53" "- (2 ^ 53) \<le> ?m" by (auto intro!: half_even_le half_even_ge)
  then have "\<bar>?m\<bar> \<le> 2 ^ 53" by (rule abs_leI [OF _ minus_le_iff [THEN iffD1]])
  then show ?thesis using that round64_ulp [OF assms] by blast
qed

text \<open>A whole number below \<open>2 ^ 53\<close> is exact, and so is dividing a value by a power of two.\<close>

lemma round64_of_int: "\<bar>n\<bar> \<le> 2 ^ 53 \<Longrightarrow> round64 (of_int n) = of_int n"
  by (rule round64_exact [of _ n 0]) simp_all

lemma round64_scaled:
  assumes "1 \<le> \<bar>r\<bar>" "k \<le> 1000"
  shows "round64 (round64 r / pow2 k) = round64 r / pow2 k"
proof -
  from assms(1) have nz: "r \<noteq> 0" by auto
  then obtain m where m: "round64 r = of_int m * pow2 (ulp r)" "\<bar>m\<bar> \<le> 2 ^ 53" by (rule round64_bits)
  have "pow2 0 < pow2 (exponent \<bar>r\<bar> + 1)" using exponent_bounds(2) [of "\<bar>r\<bar>"] assms(1) nz by simp
  then have "0 < exponent \<bar>r\<bar> + 1" by (rule pow2_less_iff [THEN iffD1])
  then have "- 52 \<le> ulp r" by (simp add: ulp_def)
  then show ?thesis using m assms(2) by (intro round64_exact [of _ m "ulp r - k"]) (simp_all add: pow2_diff)
qed

lemma round64_0 [simp]: "round64 0 = 0"
  by (simp add: round64_def)

lemma round64_nonneg: "0 \<le> r \<Longrightarrow> 0 \<le> round64 r"
  using half_even_ge [of 0 "r / pow2 (ulp r)"] by (cases "r = 0") (simp_all add: round64_ulp)

text \<open>Below \<open>2 ^ 53\<close> the values are at most one apart, so rounding moves by no more than a half and passes no whole number.\<close>

lemma ulp_small:
  assumes "0 < r" "r < 2 ^ 53"
  shows "ulp r \<le> 0"
proof -
  have "pow2 (exponent r) < pow2 53" using exponent_bounds(1) [OF assms(1)] assms(2) by (simp add: pow2_def)
  then have "exponent r < 53" by (rule pow2_less_iff [THEN iffD1])
  then show ?thesis using assms(1) by (simp add: ulp_def)
qed

lemma round64_error_small:
  assumes "0 \<le> r" "r < 2 ^ 53"
  shows "\<bar>round64 r - r\<bar> \<le> 1 / 2"
proof (cases "r = 0")
  case False
  then have "ulp r \<le> 0" using assms by (intro ulp_small) simp_all
  then have "pow2 (ulp r) \<le> pow2 0" by (rule pow2_le_iff [THEN iffD2])
  with round64_error_ulp [OF False] show ?thesis by simp
qed simp

lemma round64_le_int:
  assumes "0 \<le> r" "r \<le> of_int n" "n \<le> 2 ^ 53"
  shows "round64 r \<le> of_int n"
proof (cases "0 < r \<and> r < 2 ^ 53")
  case True
  then have nz: "r \<noteq> 0" and le: "0 \<le> - ulp r" using ulp_small [of r] by simp_all
  have inv: "1 / pow2 (ulp r) = of_int (2 ^ nat (- ulp r))" using pow2_nat [OF le] pow2_diff [of 0 "ulp r"] by simp
  have "of_int n / pow2 (ulp r) = of_int n * (1 / pow2 (ulp r))" by simp
  then have eq: "of_int n / pow2 (ulp r) = of_int (n * 2 ^ nat (- ulp r))" unfolding inv by simp
  have "r / pow2 (ulp r) \<le> of_int n / pow2 (ulp r)" using assms(2) by (simp add: divide_right_mono)
  then have "half_even (r / pow2 (ulp r)) \<le> n * 2 ^ nat (- ulp r)" unfolding eq by (rule half_even_le)
  then have "of_int (half_even (r / pow2 (ulp r))) \<le> of_int n / pow2 (ulp r)" unfolding eq of_int_le_iff .
  then show ?thesis by (simp add: round64_ulp [OF nz] le_divide_eq)
next
  case False
  show ?thesis
  proof (cases "r = 0")
    case False
    then have big: "of_int (2 ^ 53) \<le> r" using \<open>\<not> (0 < r \<and> r < 2 ^ 53)\<close> assms(1) by simp
    then have "(of_int (2 ^ 53) :: rat) \<le> of_int n" using assms(2) by (rule order_trans)
    then have "n = 2 ^ 53" using assms(3) by (simp only: of_int_le_iff)
    then have "r = of_int n" using big assms(2) by simp
    then show ?thesis using round64_of_int [of n] \<open>n = 2 ^ 53\<close> by simp
  qed (use assms(2) in simp)
qed

lemma to_float_Fin: "\<bar>round64 r\<bar> < float_end \<Longrightarrow> to_float r = Fin (round64 r)"
  by (simp add: to_float_def Let_def)

lemma float_end_ge: "k \<le> 1024 \<Longrightarrow> 2 ^ k \<le> float_end"
proof -
  assume k: "k \<le> 1024"
  have "float_end = 2 ^ 1024" unfolding float_end_def by (simp only: power_mult [symmetric]) simp
  with power_increasing [OF k, of "2 :: rat"] show ?thesis by (simp only: one_le_numeral)
qed

lemma float_of_int_small: "\<bar>n\<bar> \<le> 2 ^ 53 \<Longrightarrow> float_of_int n = Fin (of_int n)"
proof -
  assume n: "\<bar>n\<bar> \<le> 2 ^ 53"
  then have "\<bar>of_int n :: rat\<bar> \<le> of_int (2 ^ 53)" by (simp only: of_int_abs [symmetric] of_int_le_iff)
  also have "\<dots> < 2 ^ 64" by simp
  finally show ?thesis using round64_of_int [OF n] float_end_ge [of 64] by (simp add: float_of_int_def to_float_Fin)
qed

lemma float_to_int64_range: "float_to_int64 wild x \<le> bigint_max"
  using int64_range(2) by (simp add: float_to_int64_def split: float64.split)

lemma pow2_quarter:
  assumes "e \<le> - 2"
  shows "pow2 e \<le> 1 / 4"
proof -
  have "pow2 e \<le> pow2 (- 2)" using assms by (simp only: pow2_le_iff)
  then show ?thesis by (simp add: pow2_def [of "- 2"])
qed

lemmas pow2_normal = pow2_quarter [of "- 1022", simplified]

lemma near_one: "\<bar>x - 1\<bar> \<le> pow2 (- 53) \<Longrightarrow> 3 / 4 \<le> x \<and> x \<le> 5 / 4"
  using pow2_quarter [of "- 53"] by (auto simp: abs_le_iff)

text \<open>The value of a whole number as a \<open>float64\<close>: the number itself up to \<open>2 ^ 53\<close>, and within \<open>2 ^ 11\<close> of it.\<close>

lemma round64_u64:
  assumes "0 < n" "n < 2 ^ 64"
  shows "\<bar>round64 (of_int n) - of_int n\<bar> \<le> 2 ^ 11" "n \<le> 2 ^ 53 \<Longrightarrow> round64 (of_int n) = of_int n"
    "n \<le> 2 ^ 53 \<or> 2 ^ 52 \<le> round64 (of_int n)" "\<bar>round64 (of_int n)\<bar> < float_end"
proof -
  have up: "(of_int n :: rat) < of_int (2 ^ 64)" "1 \<le> (of_int n :: rat)"
    using assms by (simp_all only: of_int_less_iff of_int_1_le_iff)
  have "\<bar>round64 (of_int n) - of_int n\<bar> \<le> of_int n * pow2 (- 53)"
    using up(2) pow2_normal round64_error [of "of_int n"] by simp
  also have "\<dots> \<le> of_int (2 ^ 64) * pow2 (- 53)" using up(1) by (intro mult_right_mono) simp_all
  also have "\<dots> = 2 ^ 11" by (simp add: pow2_def)
  finally show err: "\<bar>round64 (of_int n) - of_int n\<bar> \<le> 2 ^ 11" .
  show "n \<le> 2 ^ 53 \<Longrightarrow> round64 (of_int n) = of_int n" using assms(1) by (intro round64_of_int) simp
  have "of_int (2 ^ 53) \<le> (of_int n :: rat)" if "\<not> n \<le> 2 ^ 53" using that by (simp only: of_int_le_iff)
  then show "n \<le> 2 ^ 53 \<or> 2 ^ 52 \<le> round64 (of_int n)" using err by (cases "n \<le> 2 ^ 53") (simp_all add: abs_le_iff)
  have "\<bar>round64 (of_int n)\<bar> < 2 ^ 65" using err up by (simp add: abs_le_iff abs_less_iff)
  then show "\<bar>round64 (of_int n)\<bar> < float_end" using float_end_ge [of 65] by (rule less_le_trans) simp
qed

text \<open>Rounding as a factor near 1, and how such factors multiply.\<close>

lemma round64_factor:
  assumes "pow2 (- 1022) \<le> r"
  obtains f where "round64 r = r * f" "\<bar>f - 1\<bar> \<le> pow2 (- 53)"
proof
  have r: "0 < r" using pow2_pos assms by (rule less_le_trans)
  then show "round64 r = r * (round64 r / r)" by simp
  have "round64 r / r - 1 = (round64 r - r) / r" using r by (simp add: diff_divide_distrib)
  then have "\<bar>round64 r / r - 1\<bar> = \<bar>round64 r - r\<bar> / r" using r by (simp add: abs_divide)
  also have "\<dots> \<le> pow2 (- 53)" using round64_error [of r] assms r by (simp add: divide_le_eq mult.commute)
  finally show "\<bar>round64 r / r - 1\<bar> \<le> pow2 (- 53)" .
qed

lemma near_one_mult:
  assumes "\<bar>x - 1\<bar> \<le> a" "\<bar>y - 1\<bar> \<le> b"
  shows "\<bar>x * y - 1\<bar> \<le> a + b + a * (b :: rat)"
proof -
  have "x * y - 1 = (x - 1) + (y - 1) + (x - 1) * (y - 1)" by (simp add: algebra_simps)
  also have "\<bar>\<dots>\<bar> \<le> \<bar>x - 1\<bar> + \<bar>y - 1\<bar> + \<bar>x - 1\<bar> * \<bar>y - 1\<bar>" by (simp add: abs_mult [symmetric])
  also have "\<dots> \<le> a + b + a * b" using assms by (intro add_mono mult_mono) auto
  finally show ?thesis .
qed

text \<open>A conversion to a duration that comes out positive: the value was not tiny, and was cut to whole nanoseconds.\<close>

lemma float_to_int64_floor:
  assumes y: "0 \<le> y" "y \<le> 2 ^ 62 + 2 ^ 60" and some: "0 < float_to_int64 wild (to_float y)"
  shows "pow2 (- 1022) \<le> y" "float_to_int64 wild (to_float y) = \<lfloor>round64 y\<rfloor>"
proof -
  have nn: "0 \<le> round64 y" using y(1) by (rule round64_nonneg)
  have up: "round64 y < of_int bigint_max"
  proof (cases "y < 2 ^ 53")
    case True
    then have "round64 y \<le> y + 1 / 2" using round64_error_small [OF y(1) True] by linarith
    with True show ?thesis by simp
  next
    case False
    then obtain f where f: "round64 y = y * f" "\<bar>f - 1\<bar> \<le> pow2 (- 53)"
      using pow2_normal by (elim round64_factor [rotated]) simp
    have "y * f \<le> (2 ^ 62 + 2 ^ 60) * (5 / 4)" using y near_one [OF f(2)] by (intro mult_mono) simp_all
    then show ?thesis using f(1) by simp
  qed
  have "(of_int bigint_max :: rat) < 2 ^ 64" by simp
  then have "to_float y = Fin (round64 y)" using nn up float_end_ge [of 64] by (intro to_float_Fin) simp
  moreover have "\<lfloor>round64 y\<rfloor> \<le> bigint_max" using up by linarith
  ultimately show conv: "float_to_int64 wild (to_float y) = \<lfloor>round64 y\<rfloor>"
    using nn by (simp add: float_to_int64_def towards_zero_def)
  show "pow2 (- 1022) \<le> y"
  proof (rule ccontr)
    assume "\<not> ?thesis"
    then have small: "y < 1 / 4" using pow2_normal by simp
    then have "\<bar>round64 y - y\<bar> \<le> 1 / 2" using y(1) by (intro round64_error_small) simp_all
    then have "round64 y < 1" using small by linarith
    with some show False unfolding conv by simp
  qed
qed

lemma float_to_int64_near:
  assumes q: "0 \<le> q" "q \<le> 2 ^ 62" and h: "\<bar>h - 1\<bar> \<le> pow2 (- 53) + pow2 (- 53) + pow2 (- 53) * pow2 (- 53)"
    and some: "0 < float_to_int64 wild (to_float (q * h))"
  shows "\<bar>of_int (float_to_int64 wild (to_float (q * h))) - q\<bar> \<le> 1 + q / 2 ^ 51"
proof -
  have e: "pow2 (- 53) = 1 / 9007199254740992" by (simp add: pow2_def)
  have h': "3 / 4 \<le> h" "h \<le> 5 / 4" using h unfolding e by linarith+
  then have "q * h \<le> 2 ^ 62 * (5 / 4)" "0 \<le> q * h" using q by (intro mult_mono mult_nonneg_nonneg; simp)+
  then have conv: "pow2 (- 1022) \<le> q * h" "float_to_int64 wild (to_float (q * h)) = \<lfloor>round64 (q * h)\<rfloor>"
    using some by (intro float_to_int64_floor; simp)+
  from conv(1) obtain k where k: "round64 (q * h) = q * h * k" "\<bar>k - 1\<bar> \<le> pow2 (- 53)" by (rule round64_factor)
  have "\<bar>h * k - 1\<bar> \<le> 1 / 2 ^ 51" using near_one_mult [OF h k(2)] unfolding e by simp
  then have "q * \<bar>h * k - 1\<bar> \<le> q * (1 / 2 ^ 51)" using q(1) by (intro mult_left_mono)
  moreover have "round64 (q * h) - q = q * (h * k - 1)" by (simp add: k(1) right_diff_distrib mult.assoc)
  then have "\<bar>round64 (q * h) - q\<bar> = q * \<bar>h * k - 1\<bar>" using q(1) by (simp only: abs_mult abs_of_nonneg)
  ultimately have "\<bar>round64 (q * h) - q\<bar> \<le> q / 2 ^ 51" by simp
  moreover have "of_int \<lfloor>round64 (q * h)\<rfloor> \<le> round64 (q * h)" "round64 (q * h) < of_int \<lfloor>round64 (q * h)\<rfloor> + 1" by linarith+
  ultimately show ?thesis unfolding conv(2) by linarith
qed

end
