(* ===== verification/Log_Ids.thy ===== *)
theory Log_Ids
  imports Go_Text
begin

text \<open>
  The vocabulary of \<open>log.go\<close>: log identifiers, seqnos, epochs, entries, the errors a caller
  matches on, and the check of an identifier.
\<close>

section \<open>Identifiers, positions and entries\<close>

type_synonym LogID = string
type_synonym Seqno = u64
type_synonym Epoch = u64

definition MaxLogIDBytes :: nat where
  "MaxLogIDBytes = 255"

definition FirstSeqno :: Seqno where
  "FirstSeqno = 1"

record Entry =
  Seqno :: Seqno
  Epoch :: Epoch
  Payload :: bytes

section \<open>Errors\<close>

text \<open>
  The errors the package declares with \<open>errors.New\<close>. Everything it returns wraps one of
  them (\<open>Sentinel\<close>), or is one of the plain errors, or comes from the driver: a missing row,
  a PostgreSQL error with its SQLSTATE, or any other failure of a call (a lost connection, a
  deadline), which is opaque. \<open>errors.Is\<close> sees through wrapping, so context strings are left out.
\<close>

datatype sentinel =
    ErrFenced
  | ErrAlreadyWritten
  | ErrGap
  | ErrNoSuchLog
  | ErrZeroEpoch
  | ErrNotMigrated
  | ErrLockUnavailable

datatype goerr =
    Sentinel sentinel
  | LogIDEmpty
  | LogIDTooLong nat
  | LogIDHasNUL
  | LogIDNotUTF8
  | SeqnoBelowFirst Seqno
  | NoPayloads
  | LimitNotPositive int
  | RefusedAdmittedFence
  | RefusedAdmittedAppend
  | ChunkWithoutFirst int int
  | ErrNoRows
  | PgError string
  | DriverError nat

definition errors_Is :: "goerr \<Rightarrow> sentinel \<Rightarrow> bool" where
  "errors_Is e s \<longleftrightarrow> e = Sentinel s"

text \<open>
  The refusals are ranked: where several apply, the one declared first is reported. The
  declaration order is made the linear order of the type, so that the ranking is \<open>Min\<close>.
\<close>

fun sentinel_rank :: "sentinel \<Rightarrow> nat" where
  "sentinel_rank ErrFenced = 0"
| "sentinel_rank ErrAlreadyWritten = 1"
| "sentinel_rank ErrGap = 2"
| "sentinel_rank ErrNoSuchLog = 3"
| "sentinel_rank ErrZeroEpoch = 4"
| "sentinel_rank ErrNotMigrated = 5"
| "sentinel_rank ErrLockUnavailable = 6"

lemma sentinel_rank_inject [simp]: "sentinel_rank a = sentinel_rank b \<longleftrightarrow> a = b"
  by (cases a; cases b) simp_all

instantiation sentinel :: linorder
begin

definition less_eq_sentinel :: "sentinel \<Rightarrow> sentinel \<Rightarrow> bool" where
  "less_eq_sentinel a b \<longleftrightarrow> sentinel_rank a \<le> sentinel_rank b"

definition less_sentinel :: "sentinel \<Rightarrow> sentinel \<Rightarrow> bool" where
  "less_sentinel a b \<longleftrightarrow> sentinel_rank a < sentinel_rank b"

instance
  by standard (auto simp: less_eq_sentinel_def less_sentinel_def)

end

lemmas sentinel_order = less_eq_sentinel_def less_sentinel_def

section \<open>Checking an identifier\<close>

definition checkLogID :: "LogID \<Rightarrow> goerr option" where
  "checkLogID lid =
     (if lid = [] then Some LogIDEmpty
      else if length lid > MaxLogIDBytes then Some (LogIDTooLong (length lid))
      else if CHR 0x00 \<in> set lid then Some LogIDHasNUL
      else if \<not> ValidString lid then Some LogIDNotUTF8
      else None)"

text \<open>The documented constraint on an identifier, without the order of the checks.\<close>

definition storable_id :: "LogID \<Rightarrow> bool" where
  "storable_id lid \<longleftrightarrow>
     lid \<noteq> [] \<and> length lid \<le> MaxLogIDBytes \<and> CHR 0x00 \<notin> set lid \<and> utf8_text (map of_char lid)"

lemma checkLogID_None_iff: "checkLogID lid = None \<longleftrightarrow> storable_id lid"
  by (simp add: checkLogID_def storable_id_def ValidString_def valid_bytes_iff not_less)

lemma checkLogID_not_sentinel: "checkLogID lid \<noteq> Some (Sentinel s)"
  by (simp add: checkLogID_def)

end
