(* ===== verification/Chunks.thy ===== *)
theory Chunks
  imports Log_Ids
begin

text \<open>
  Entries as rows: how \<open>store.go\<close> cuts a payload into rows (\<open>chunksOf\<close>, \<open>chunkArrays\<close>) and
  how the loop of \<open>ReadFrom\<close> puts rows back together. A payload is a list of bytes: a slice that is not
  nil. What a nil one does is in \<open>Append_slices\<close> of \<open>Store_Ops\<close>.
\<close>

section \<open>Cutting a payload\<close>

definition MaxEntryChunk :: nat where
  "MaxEntryChunk = 8000"

lemma MaxEntryChunk_pos [simp]: "0 < MaxEntryChunk"
  by (simp add: MaxEntryChunk_def)

text \<open>The loop of \<open>chunksOf\<close>: \<open>payload[off:min(off+MaxEntryChunk, len(payload))]\<close>.\<close>

function chunk_loop :: "bytes \<Rightarrow> nat \<Rightarrow> bytes list" where
  "chunk_loop payload off =
     (if off < length payload
      then take (min (off + MaxEntryChunk) (length payload) - off) (drop off payload)
           # chunk_loop payload (off + MaxEntryChunk)
      else [])"
  by pat_completeness auto
termination
  by (relation "measure (\<lambda>(payload, off). length payload - off)") (auto simp: MaxEntryChunk_def)

declare chunk_loop.simps [simp del]

definition chunksOf :: "bytes \<Rightarrow> bytes list" where
  "chunksOf payload =
     (if length payload \<le> MaxEntryChunk then [payload] else chunk_loop payload 0)"

lemma concat_chunk_loop: "concat (chunk_loop p off) = drop off p"
proof (induction p off rule: chunk_loop.induct)
  case (1 p off)
  show ?case
  proof (cases "off < length p")
    case True
    let ?n = "min (off + MaxEntryChunk) (length p) - off"
    have "drop (off + MaxEntryChunk) p = drop ?n (drop off p)"
      using True by (simp add: min_def)
    with 1 True show ?thesis
      by (simp add: chunk_loop.simps [of p off] del: drop_drop)
  next
    case False
    then show ?thesis by (simp add: chunk_loop.simps [of p off])
  qed
qed

lemma chunk_loop_bound: "c \<in> set (chunk_loop p off) \<Longrightarrow> length c \<le> MaxEntryChunk"
proof (induction p off rule: chunk_loop.induct)
  case (1 p off)
  then show ?case
    by (cases "off < length p") (auto simp: chunk_loop.simps [of p off])
qed

lemma length_chunk_loop:
  "length (chunk_loop p off) = (length p - off + MaxEntryChunk - 1) div MaxEntryChunk"
proof (induction p off rule: chunk_loop.induct)
  case (1 p off)
  show ?case
  proof (cases "off < length p")
    case True
    let ?m = "length p - (off + MaxEntryChunk) + MaxEntryChunk - 1"
    have "length (chunk_loop p off) = Suc (?m div MaxEntryChunk)"
      using 1 True by (simp add: chunk_loop.simps [of p off])
    also have "\<dots> = (length p - off + MaxEntryChunk - 1) div MaxEntryChunk"
    proof (cases "off + MaxEntryChunk \<le> length p")
      case True
      then have "length p - off + MaxEntryChunk - 1 = MaxEntryChunk + ?m"
        by (simp add: MaxEntryChunk_def)
      then show ?thesis by (simp add: div_add_self1)
    next
      case False
      with True have eq: "length p - off + MaxEntryChunk - 1 = MaxEntryChunk + (length p - off - 1)"
        and lt: "length p - off - 1 < MaxEntryChunk" by auto
      have "(MaxEntryChunk + (length p - off - 1)) div MaxEntryChunk = 1"
        using lt by (simp add: div_add_self1)
      then show ?thesis unfolding eq using False by simp
    qed
    finally show ?thesis .
  next
    case False
    then show ?thesis by (simp add: chunk_loop.simps [of p off] MaxEntryChunk_def)
  qed
qed

text \<open>The number of rows an entry takes, as \<open>chunkArrays\<close> counts it beforehand.\<close>

definition rowsOf :: "bytes \<Rightarrow> nat" where
  "rowsOf payload = max 1 ((length payload + MaxEntryChunk - 1) div MaxEntryChunk)"

lemma length_chunksOf: "length (chunksOf p) = rowsOf p"
proof (cases "length p \<le> MaxEntryChunk")
  case True
  then have "(length p + MaxEntryChunk - 1) div MaxEntryChunk \<le> 1"
    by (simp add: MaxEntryChunk_def)
  with True show ?thesis by (simp add: chunksOf_def rowsOf_def max_def)
next
  case False
  then have "1 \<le> (length p + MaxEntryChunk - 1) div MaxEntryChunk"
    by (simp add: MaxEntryChunk_def)
  with False show ?thesis by (simp add: chunksOf_def rowsOf_def length_chunk_loop max_def)
qed

section \<open>The rows of an entry\<close>

text \<open>A row of an entry table, with the columns \<open>CreateLogs\<close> gives it.\<close>

record entry_row =
  row_seqno :: int
  row_chunk :: int
  row_epoch :: int
  row_payload :: bytes

text \<open>
  \<open>chunkArrays\<close>: one array per column, filled by two nested loops. The inner loop runs over
  the chunks of one payload, the outer one over the payloads.
\<close>

type_synonym columns = "int list \<times> int list \<times> bytes list"

fun chunk_columns :: "int \<Rightarrow> nat \<Rightarrow> bytes list \<Rightarrow> columns \<Rightarrow> columns" where
  "chunk_columns seqno chunk [] acc = acc"
| "chunk_columns seqno chunk (part # rest) (seqnos, chunks, parts) =
     chunk_columns seqno (Suc chunk) rest
       (seqnos @ [seqno], chunks @ [int16 chunk], parts @ [part])"

fun payload_columns :: "Seqno \<Rightarrow> nat \<Rightarrow> bytes list \<Rightarrow> columns \<Rightarrow> columns" where
  "payload_columns first i [] acc = acc"
| "payload_columns first i (payload # rest) acc =
     payload_columns first (Suc i) rest
       (chunk_columns (int64 (first + of_nat i)) 0 (chunksOf payload) acc)"

definition chunkArrays :: "Seqno \<Rightarrow> bytes list \<Rightarrow> columns" where
  "chunkArrays first payloads = payload_columns first 0 payloads ([], [], [])"

text \<open>The size the arrays are made with: \<open>make([]int64, 0, rows)\<close>.\<close>

definition chunkArrays_cap :: "bytes list \<Rightarrow> nat" where
  "chunkArrays_cap payloads = sum_list (map rowsOf payloads)"

text \<open>
  \<open>SELECT * FROM unnest(a, b, c)\<close> beside the constant epoch: the arrays side by side.
\<close>

fun unnest :: "int \<Rightarrow> columns \<Rightarrow> entry_row list" where
  "unnest epoch (s # ss, c # cs, p # ps) =
     \<lparr>row_seqno = s, row_chunk = c, row_epoch = epoch, row_payload = p\<rparr> # unnest epoch (ss, cs, ps)"
| "unnest epoch _ = []"

text \<open>The rows of one entry, its chunks numbered from \<open>k\<close>.\<close>

fun part_rows :: "int \<Rightarrow> int \<Rightarrow> nat \<Rightarrow> bytes list \<Rightarrow> entry_row list" where
  "part_rows s e k [] = []"
| "part_rows s e k (p # ps) =
     \<lparr>row_seqno = s, row_chunk = int16 k, row_epoch = e, row_payload = p\<rparr> # part_rows s e (Suc k) ps"

definition entry_rows :: "int \<Rightarrow> int \<Rightarrow> bytes \<Rightarrow> entry_row list" where
  "entry_rows s e p = part_rows s e 0 (chunksOf p)"

definition same_length :: "columns \<Rightarrow> bool" where
  "same_length acc \<longleftrightarrow> length (fst (snd acc)) = length (fst acc) \<and> length (snd (snd acc)) = length (fst acc)"

lemma unnest_snoc:
  assumes "length cs = length ss" "length ps = length ss"
  shows "unnest e (ss @ [s], cs @ [c], ps @ [p]) = unnest e (ss, cs, ps)
    @ [\<lparr>row_seqno = s, row_chunk = c, row_epoch = e, row_payload = p\<rparr>]"
  using assms
proof (induction ss arbitrary: cs ps)
  case Nil
  then show ?case by simp
next
  case (Cons a ss)
  then obtain c' cs' p' ps' where "cs = c' # cs'" "ps = p' # ps'"
    by (metis length_Suc_conv)
  with Cons show ?case by simp
qed

lemma chunk_columns_rows:
  "same_length acc \<Longrightarrow> same_length (chunk_columns s k ps acc) \<and>
     unnest e (chunk_columns s k ps acc) = unnest e acc @ part_rows s e k ps"
proof (induction ps arbitrary: k acc)
  case Nil
  then show ?case by simp
next
  case (Cons p ps)
  obtain ss cs bs where acc: "acc = (ss, cs, bs)" by (cases acc)
  with Cons.prems have len: "length cs = length ss" "length bs = length ss"
    by (auto simp: same_length_def)
  then show ?case
    using Cons.IH [of "(ss @ [s], cs @ [int16 k], bs @ [p])"] acc
    by (simp add: same_length_def unnest_snoc)
qed

lemma payload_columns_rows:
  "same_length acc \<Longrightarrow> same_length (payload_columns first i ps acc) \<and>
     unnest e (payload_columns first i ps acc) = unnest e acc
       @ concat (map (\<lambda>(k, p). entry_rows (int64 (first + of_nat k)) e p) (enumerate i ps))"
proof (induction ps arbitrary: i acc)
  case Nil
  then show ?case by simp
next
  case (Cons p ps)
  from chunk_columns_rows [OF Cons.prems]
  have c: "same_length (chunk_columns (int64 (first + of_nat i)) 0 (chunksOf p) acc)"
    "unnest e (chunk_columns (int64 (first + of_nat i)) 0 (chunksOf p) acc)
      = unnest e acc @ entry_rows (int64 (first + of_nat i)) e p"
    by (simp_all add: entry_rows_def)
  show ?case using Cons.IH [OF c(1), of "Suc i"] c(2) by simp
qed

lemma unnest_chunkArrays:
  "unnest e (chunkArrays first ps) =
     concat (map (\<lambda>(k, p). entry_rows (int64 (first + of_nat k)) e p) (enumerate 0 ps))"
  using payload_columns_rows [of "([], [], [])" first 0 ps e]
  by (simp add: chunkArrays_def same_length_def)

lemma chunkArrays_same_length: "same_length (chunkArrays first ps)"
  using payload_columns_rows [of "([], [], [])" first 0 ps]
  by (simp add: chunkArrays_def same_length_def)

lemma length_unnest: "same_length acc \<Longrightarrow> length (unnest e acc) = length (fst acc)"
proof (induction e acc rule: unnest.induct)
  case (1 epoch s ss c cs p ps)
  then show ?case by (simp add: same_length_def)
qed (auto simp: same_length_def)

lemma length_part_rows [simp]: "length (part_rows s e k ps) = length ps"
  by (induction ps arbitrary: k) simp_all

lemma length_entry_rows: "length (entry_rows s e p) = rowsOf p"
  by (simp add: entry_rows_def length_chunksOf)

lemma length_concat_enumerate:
  "length (concat (map (\<lambda>(k, p). entry_rows (f k) e p) (enumerate i ps))) = sum_list (map rowsOf ps)"
  by (induction ps arbitrary: i) (simp_all add: length_entry_rows)

text \<open>A payload the row numbers reach: its last chunk is numbered below two to the fifteen.\<close>

definition readable :: "bytes \<Rightarrow> bool" where
  "readable p \<longleftrightarrow> rowsOf p \<le> 32768"

lemma readable_iff: "readable p \<longleftrightarrow> length p \<le> 262144000"
  by (simp add: readable_def rowsOf_def MaxEntryChunk_def) linarith

lemma part_rows_props:
  assumes "r \<in> set (part_rows s e k ps)"
  shows "row_seqno r = s" "row_epoch r = e" "row_payload r \<in> set ps"
  using assms by (induction ps arbitrary: k) auto

lemma part_rows_nth:
  "i < length ps \<Longrightarrow> part_rows s e k ps ! i =
     \<lparr>row_seqno = s, row_chunk = int16 (k + i), row_epoch = e, row_payload = ps ! i\<rparr>"
proof (induction ps arbitrary: k i)
  case (Cons p ps)
  then show ?case by (cases i) simp_all
qed simp

text \<open>More chunks than the row numbers reach: some chunk is numbered below zero.\<close>

lemma part_rows_wraps:
  assumes "32768 < length ps"
  shows "\<exists>r \<in> set (part_rows s e 0 ps). row_chunk r = - 32768"
proof (rule bexI)
  show "row_chunk (part_rows s e 0 ps ! 32768) = - 32768"
    using assms by (simp add: part_rows_nth int16_def)
  show "part_rows s e 0 ps ! 32768 \<in> set (part_rows s e 0 ps)"
    using assms by simp
qed

lemma entry_rows_seqno [simp]: "r \<in> set (entry_rows s e p) \<Longrightarrow> row_seqno r = s"
  by (simp add: entry_rows_def part_rows_props(1))

section \<open>Putting rows back together\<close>

text \<open>
  The loop of \<open>ReadFrom\<close>. A row with chunk 0 starts an entry; any other row continues the
  entry before it, and is an error where there is none or it has another seqno.
\<close>

fun collect_rows :: "entry_row list \<Rightarrow> Entry list \<Rightarrow> goerr + Entry list" where
  "collect_rows [] entries = Inr entries"
| "collect_rows (r # rs) entries =
     (if row_chunk r = 0 then
        collect_rows rs (entries @ [\<lparr>Seqno = uint64 (row_seqno r), Epoch = uint64 (row_epoch r),
                                     Payload = row_payload r\<rparr>])
      else if entries = [] \<or> Seqno (last entries) \<noteq> uint64 (row_seqno r) then
        Inl (ChunkWithoutFirst (row_chunk r) (row_seqno r))
      else
        let tail = last entries in
        collect_rows rs (butlast entries @ [tail\<lparr>Payload := Payload tail @ row_payload r\<rparr>]))"

text \<open>
  What reassembly relies on of the splitting, as an interface: the parts join to the
  payload, there is at least one, and none is over the size of a row.
\<close>

locale payload_codec =
  fixes split :: "bytes \<Rightarrow> bytes list" and row_max :: nat
  assumes join: "concat (split p) = p"
    and nonempty: "split p \<noteq> []"
    and bounded: "c \<in> set (split p) \<Longrightarrow> length c \<le> row_max"
begin

lemma collect_tail:
  "k + length ps \<le> 32768 \<Longrightarrow> 0 < k \<Longrightarrow>
   collect_rows (part_rows s e k ps @ rs) (es @ [\<lparr>Seqno = uint64 s, Epoch = ep, Payload = q\<rparr>]) =
   collect_rows rs (es @ [\<lparr>Seqno = uint64 s, Epoch = ep, Payload = q @ concat ps\<rparr>])"
proof (induction ps arbitrary: k q)
  case Nil
  then show ?case by simp
next
  case (Cons p ps)
  then have "int16 k = int k" "int k \<noteq> 0" by (simp_all add: int16_small)
  with Cons.IH [of "Suc k" "q @ p"] Cons.prems show ?case by simp
qed

lemma collect_split:
  assumes "length (split p) \<le> 32768"
  shows "collect_rows (part_rows s e 0 (split p) @ rs) es =
    collect_rows rs (es @ [\<lparr>Seqno = uint64 s, Epoch = uint64 e, Payload = p\<rparr>])"
proof -
  obtain c cs where c: "split p = c # cs" using nonempty by (cases "split p") auto
  then have "c @ concat cs = p" using join [of p] by simp
  with assms c show ?thesis
    using collect_tail [of 1 cs s e rs es "uint64 e" c] by (simp add: int16_small)
qed

lemma row_bound: "r \<in> set (part_rows s e k (split p)) \<Longrightarrow> length (row_payload r) \<le> row_max"
  using bounded part_rows_props(3) by blast

end

interpretation codec: payload_codec chunksOf MaxEntryChunk
proof
  show "concat (chunksOf p) = p" for p
    by (simp add: chunksOf_def concat_chunk_loop)
  show "chunksOf p \<noteq> []" for p
    using length_chunksOf [of p] by (auto simp: rowsOf_def)
  show "c \<in> set (chunksOf p) \<Longrightarrow> length c \<le> MaxEntryChunk" for c p
    by (auto simp: chunksOf_def chunk_loop_bound split: if_splits)
qed

lemma collect_entry_rows:
  assumes "readable p"
  shows "collect_rows (entry_rows s e p @ rs) es =
    collect_rows rs (es @ [\<lparr>Seqno = uint64 s, Epoch = uint64 e, Payload = p\<rparr>])"
  using assms codec.collect_split [of p s e rs es]
  by (simp add: entry_rows_def readable_def length_chunksOf)

end
