(* ===== verification/Load_Sizes.thy ===== *)
theory Load_Sizes
  imports Chunks Go_Float "HOL-Library.Sublist"
begin

text \<open>
  The load generator's payload sizes (\<open>cmd/pgnotch-load/sizes.go\<close>): reading a distribution,
  drawing a length from it, and cutting a payload of that length out of the corpus. A draw
  of \<open>rnd.IntN(n)\<close> is an argument, some number from 0 up to but not including \<open>n\<close>; Go's \<open>int\<close> is
  an integer, with the wrap to 64 bits written out where a sum is kept.
\<close>

section \<open>Text\<close>

text \<open>\<open>strings.TrimSpace\<close>: the runes \<open>unicode.IsSpace\<close> knows, in UTF-8.\<close>

definition spaces :: "string list" where
  "spaces =
    [[CHR 0x09], [CHR 0x0A], [CHR 0x0B], [CHR 0x0C], [CHR 0x0D], [CHR 0x20], [CHR 0xC2, CHR 0x85],
     [CHR 0xC2, CHR 0xA0], [CHR 0xE1, CHR 0x9A, CHR 0x80], [CHR 0xE2, CHR 0x80, CHR 0x80],
     [CHR 0xE2, CHR 0x80, CHR 0x81], [CHR 0xE2, CHR 0x80, CHR 0x82], [CHR 0xE2, CHR 0x80, CHR 0x83],
     [CHR 0xE2, CHR 0x80, CHR 0x84], [CHR 0xE2, CHR 0x80, CHR 0x85], [CHR 0xE2, CHR 0x80, CHR 0x86],
     [CHR 0xE2, CHR 0x80, CHR 0x87], [CHR 0xE2, CHR 0x80, CHR 0x88], [CHR 0xE2, CHR 0x80, CHR 0x89],
     [CHR 0xE2, CHR 0x80, CHR 0x8A], [CHR 0xE2, CHR 0x80, CHR 0xA8], [CHR 0xE2, CHR 0x80, CHR 0xA9],
     [CHR 0xE2, CHR 0x80, CHR 0xAF], [CHR 0xE2, CHR 0x81, CHR 0x9F], [CHR 0xE3, CHR 0x80, CHR 0x80]]"

lemma spaces_runes:
  "spaces = map (map char_of \<circ> encode_rune)
     ([9, 10, 11, 12, 13, 32, 0x85, 0xA0, 0x1680] @
      [0x2000, 0x2001, 0x2002, 0x2003, 0x2004, 0x2005, 0x2006, 0x2007, 0x2008, 0x2009, 0x200A] @
      [0x2028, 0x2029, 0x202F, 0x205F, 0x3000])"
  by (simp add: spaces_def encode_rune_def char_of_def bit_0)

function trim_front :: "string list \<Rightarrow> string \<Rightarrow> string" where
  "trim_front ws s =
     (case find (\<lambda>w. w \<noteq> [] \<and> prefix w s) ws of None \<Rightarrow> s | Some w \<Rightarrow> trim_front ws (drop (length w) s))"
  by pat_completeness auto
termination
proof (relation "measure (\<lambda>(ws, s). length s)")
  fix ws s w
  assume "find (\<lambda>w. w \<noteq> [] \<and> prefix w s) ws = Some w"
  then have "w \<noteq> []" "prefix w s" by (auto simp: find_Some_iff)
  then have "0 < length w" "length w \<le> length s" by (auto dest: prefix_length_le)
  then have "length s - length w < length s" by linarith
  then show "((ws, drop (length w) s), ws, s) \<in> measure (\<lambda>(ws, s). length s)" by simp
qed simp

declare trim_front.simps [simp del]

definition TrimSpace :: "string \<Rightarrow> string" where
  "TrimSpace s = rev (trim_front (map rev spaces) (rev (trim_front spaces s)))"

text \<open>\<open>strings.SplitSeq\<close> and \<open>strings.Cut\<close> at one character.\<close>

fun split_at :: "char \<Rightarrow> string \<Rightarrow> string list" where
  "split_at c [] = [[]]"
| "split_at c (x # xs) = (if x = c then [] # split_at c xs else (case split_at c xs of [] \<Rightarrow> [[x]] | f # fs \<Rightarrow> (x # f) # fs))"

definition Cut :: "string \<Rightarrow> char \<Rightarrow> string \<times> string" where
  "Cut s c = (takeWhile (\<lambda>x. x \<noteq> c) s, drop 1 (dropWhile (\<lambda>x. x \<noteq> c) s))"

text \<open>\<open>strconv.Atoi\<close>: an optional sign and decimal digits, within 64 bits.\<close>

definition is_digit :: "char \<Rightarrow> bool" where
  "is_digit c \<longleftrightarrow> 48 \<le> (of_char c :: nat) \<and> (of_char c :: nat) \<le> 57"

definition Atoi :: "string \<Rightarrow> int option" where
  "Atoi s =
     (let neg = (s \<noteq> [] \<and> hd s = CHR ''-'');
          ds = (if s \<noteq> [] \<and> (hd s = CHR ''-'' \<or> hd s = CHR ''+'') then tl s else s);
          n = (if neg then - int (read_nat ds) else int (read_nat ds))
      in if ds = [] \<or> \<not> list_all is_digit ds \<or> n < - 9223372036854775808 \<or> bigint_max < n then None else Some n)"

section \<open>Reading a distribution\<close>

definition maxPayload :: int where
  "maxPayload = 16 * 2 ^ 20"

record sizeClass =
  sc_bytes :: int
  sc_weight :: int

record sizes =
  classes :: "sizeClass list"
  cum :: "int list"
  sz_total :: int

datatype sizes_error =
    EmptyClass
  | BadWeight string
  | NotANumber string
  | OverMaxPayload string

text \<open>The unit suffix of \<open>parseBytes\<close> and what is left of the text.\<close>

definition size_unit :: "string \<Rightarrow> int \<times> string" where
  "size_unit text =
     (if text \<noteq> [] \<and> (last text = CHR ''k'' \<or> last text = CHR ''K'') then (2 ^ 10, butlast text)
      else if text \<noteq> [] \<and> (last text = CHR ''m'' \<or> last text = CHR ''M'') then (2 ^ 20, butlast text)
      else (1, text))"

definition parseBytes :: "string \<Rightarrow> sizes_error + int" where
  "parseBytes text =
     (let (unit, text') = size_unit (TrimSpace text) in
      case Atoi text' of
        None \<Rightarrow> Inl (NotANumber text')
      | Some n \<Rightarrow>
          if n < 0 then Inl (NotANumber text')
          else if n > maxPayload div unit then Inl (OverMaxPayload text')
          else Inr (n * unit))"

definition parseWeight :: "string \<Rightarrow> string \<Rightarrow> sizes_error + int" where
  "parseWeight field weight =
     (if weight = [] then Inr 1
      else case Atoi (TrimSpace weight) of
        None \<Rightarrow> Inl (BadWeight field)
      | Some n \<Rightarrow> if n \<le> 0 then Inl (BadWeight field) else Inr n)"

definition add_class :: "sizes \<Rightarrow> int \<Rightarrow> int \<Rightarrow> sizes" where
  "add_class s b n =
     (let t = int64 (uint64 (sz_total s + n)) in
      s\<lparr>sz_total := t, classes := classes s @ [\<lparr>sc_bytes = b, sc_weight = n\<rparr>], cum := cum s @ [t]\<rparr>)"

fun parse_fields :: "string list \<Rightarrow> sizes \<Rightarrow> sizes_error + sizes" where
  "parse_fields [] s = Inr s"
| "parse_fields (f # fs) s =
     (let field = TrimSpace f in
      if field = [] then Inl EmptyClass
      else
        let (size, weight) = Cut field (CHR '':'') in
        bind_ok (parseBytes size) (\<lambda>b.
        bind_ok (parseWeight field weight) (\<lambda>n.
          parse_fields fs (add_class s b n))))"

definition parseSizes :: "string \<Rightarrow> sizes_error + sizes" where
  "parseSizes spec = parse_fields (split_at (CHR '','') spec) \<lparr>classes = [], cum = [], sz_total = 0\<rparr>"

section \<open>Drawing\<close>

text \<open>
  \<open>slices.BinarySearch\<close>: the first position whose element is not below the target.
\<close>

function bsearch :: "int list \<Rightarrow> int \<Rightarrow> nat \<Rightarrow> nat \<Rightarrow> nat" where
  "bsearch xs t i j =
     (if i < j then
        let h = (i + j) div 2 in if xs ! h < t then bsearch xs t (h + 1) j else bsearch xs t i h
      else i)"
  by pat_completeness auto
termination
  by (relation "measure (\<lambda>(xs, t, i, j). j - i)") (auto simp: Let_def)

declare bsearch.simps [simp del]

text \<open>The class a draw falls in; indexing past the end panics, which is \<open>None\<close>.\<close>

definition draw_index :: "sizes \<Rightarrow> int \<Rightarrow> nat" where
  "draw_index s r = bsearch (cum s) (r + 1) 0 (length (cum s))"

text \<open>
  \<open>rnd.IntN(n)\<close>: any number from 0 up to but not including \<open>n\<close>, according to the generator's
  state, here the raw number \<open>x\<close>; it panics where \<open>n\<close> is not positive.
\<close>

definition IntN :: "nat \<Rightarrow> int \<Rightarrow> int option" where
  "IntN x n = (if n \<le> 0 then None else Some (int x mod n))"

definition draw :: "sizes \<Rightarrow> nat \<Rightarrow> int option" where
  "draw s x =
     (case IntN x (sz_total s) of
        None \<Rightarrow> None
      | Some r \<Rightarrow>
          let i = draw_index s r in if i < length (classes s) then Some (sc_bytes (classes s ! i)) else None)"

definition largest :: "sizes \<Rightarrow> int" where
  "largest s = foldl (\<lambda>m c. max m (sc_bytes c)) 0 (classes s)"

text \<open>
  The expected length and the share of entries over one row.
\<close>

definition mean :: "sizes \<Rightarrow> float64" where
  "mean s =
     fdiv (float_of_int (foldl (\<lambda>a c. int64 (uint64 (a + sc_bytes c * sc_weight c))) 0 (classes s)))
       (float_of_int (sz_total s))"

definition chunked :: "sizes \<Rightarrow> float64" where
  "chunked s =
     fdiv (float_of_int
         (foldl (\<lambda>a c. if int MaxEntryChunk < sc_bytes c then int64 (uint64 (a + sc_weight c)) else a) 0 (classes s)))
       (float_of_int (sz_total s))"

text \<open>How many bytes the corpus holds, and a payload cut out of it.\<close>

definition corpus_size :: "int \<Rightarrow> int" where
  "corpus_size l = max (2 ^ 20) (2 * l)"

definition payload :: "bytes \<Rightarrow> nat \<Rightarrow> int \<Rightarrow> bytes option" where
  "payload buf x n =
     (case IntN x (int (length buf) - n + 1) of
        None \<Rightarrow> None
      | Some off \<Rightarrow> Some (take (nat n) (drop (nat off) buf)))"

section \<open>What a distribution read is\<close>

fun prefix_sums :: "int \<Rightarrow> int list \<Rightarrow> int list" where
  "prefix_sums a [] = []"
| "prefix_sums a (w # ws) = (a + w) # prefix_sums (a + w) ws"

definition sizes_ok :: "sizes \<Rightarrow> bool" where
  "sizes_ok s \<longleftrightarrow>
     cum s = prefix_sums 0 (map sc_weight (classes s)) \<and> sz_total s = sum_list (map sc_weight (classes s)) \<and>
     list_all (\<lambda>c. 0 < sc_weight c \<and> 0 \<le> sc_bytes c \<and> sc_bytes c \<le> maxPayload) (classes s)"

lemma prefix_sums_snoc: "prefix_sums a (ws @ [w]) = prefix_sums a ws @ [a + sum_list ws + w]"
  by (induction ws arbitrary: a) simp_all

lemma length_prefix_sums [simp]: "length (prefix_sums a ws) = length ws"
  by (induction ws arbitrary: a) simp_all

lemma prefix_sums_nth: "i < length ws \<Longrightarrow> prefix_sums a ws ! i = a + sum_list (take (Suc i) ws)"
proof (induction ws arbitrary: a i)
  case (Cons w ws)
  then show ?case by (cases i) simp_all
qed simp

lemma size_unit_pos: "size_unit t = (u, t') \<Longrightarrow> 1 \<le> u"
  by (auto simp: size_unit_def split: if_splits)

lemma parseBytes_bounds:
  assumes "parseBytes t = Inr n"
  shows "0 \<le> n" "n \<le> maxPayload"
proof -
  obtain u t' where u: "size_unit (TrimSpace t) = (u, t')" by (cases "size_unit (TrimSpace t)")
  with assms obtain k where k: "0 \<le> k" "k \<le> maxPayload div u" "n = k * u"
    by (auto simp: parseBytes_def not_less split: option.splits if_splits)
  have pos: "1 \<le> u" using u by (rule size_unit_pos)
  then have "k * u \<le> maxPayload div u * u" using k(2) by (intro mult_right_mono) simp_all
  also have "\<dots> \<le> maxPayload" using pos div_mult_mod_eq [of maxPayload u] pos_mod_sign [of u maxPayload] by linarith
  finally show "n \<le> maxPayload" using k by simp
  show "0 \<le> n" using k pos by simp
qed

lemma parseWeight_pos: "parseWeight f w = Inr n \<Longrightarrow> 0 < n"
  by (auto simp: parseWeight_def split: if_splits option.splits)

lemma sizes_ok_add:
  assumes "sizes_ok s" "0 < n" "0 \<le> b" "b \<le> maxPayload" "sz_total s + n \<le> bigint_max"
  shows "sizes_ok (add_class s b n)"
proof -
  have "0 \<le> sz_total s" using assms(1) by (fastforce simp: sizes_ok_def list_all_iff intro!: sum_list_nonneg)
  then show ?thesis
    using assms by (simp add: sizes_ok_def add_class_def Let_def prefix_sums_snoc)
qed

lemma parse_fields_extends:
  assumes "parse_fields fs s = Inr s'"
  shows "\<exists>cs. classes s' = classes s @ cs \<and> list_all (\<lambda>c. 0 < sc_weight c) cs"
  using assms
proof (induction fs arbitrary: s)
  case Nil
  then show ?case by auto
next
  case (Cons f fs)
  obtain size weight where cut: "Cut (TrimSpace f) (CHR '':'') = (size, weight)"
    by (cases "Cut (TrimSpace f) (CHR '':'')")
  with Cons.prems obtain b n where n: "parseWeight (TrimSpace f) weight = Inr n"
    and rest: "parse_fields fs (add_class s b n) = Inr s'"
    by (auto simp: Let_def split: if_splits)
  from Cons.IH [OF rest] parseWeight_pos [OF n] show ?case by (auto simp: add_class_def Let_def)
qed

lemma parse_fields_ok:
  assumes "parse_fields fs s = Inr s'" "sizes_ok s" "sum_list (map sc_weight (classes s')) \<le> bigint_max"
  shows "sizes_ok s'"
  using assms
proof (induction fs arbitrary: s)
  case Nil
  then show ?case by simp
next
  case (Cons f fs)
  obtain size weight where cut: "Cut (TrimSpace f) (CHR '':'') = (size, weight)"
    by (cases "Cut (TrimSpace f) (CHR '':'')")
  with Cons.prems(1) obtain b n where b: "parseBytes size = Inr b" and n: "parseWeight (TrimSpace f) weight = Inr n"
    and rest: "parse_fields fs (add_class s b n) = Inr s'"
    by (auto simp: Let_def split: if_splits)
  from parse_fields_extends [OF rest] obtain cs where
    cs: "classes s' = classes s @ [\<lparr>sc_bytes = b, sc_weight = n\<rparr>] @ cs" "list_all (\<lambda>c. 0 < sc_weight c) cs"
    by (auto simp: add_class_def Let_def)
  have "0 \<le> sum_list (map sc_weight cs)" using cs(2) by (fastforce simp: list_all_iff intro!: sum_list_nonneg)
  then have "sz_total s + n \<le> bigint_max" using Cons.prems(2,3) cs(1) by (simp add: sizes_ok_def)
  then have "sizes_ok (add_class s b n)"
    using Cons.prems(2) parseBytes_bounds [OF b] parseWeight_pos [OF n] by (intro sizes_ok_add)
  with Cons.IH rest Cons.prems(3) show ?case by blast
qed

lemma parseSizes_ok:
  assumes "parseSizes spec = Inr s" "sum_list (map sc_weight (classes s)) \<le> bigint_max"
  shows "sizes_ok s"
proof -
  have "sizes_ok \<lparr>classes = [], cum = [], sz_total = 0\<rparr>" by (simp add: sizes_ok_def)
  from parse_fields_ok [OF assms(1) [unfolded parseSizes_def] this assms(2)] show ?thesis .
qed

section \<open>What a draw is\<close>

lemma bsearch_bounds:
  assumes "i \<le> j" "j \<le> length xs" "sorted xs" "\<forall>k < i. xs ! k < t" "\<forall>k < length xs. j \<le> k \<longrightarrow> t \<le> xs ! k"
  shows "bsearch xs t i j \<le> j \<and> (\<forall>k < bsearch xs t i j. xs ! k < t) \<and>
    (\<forall>k < length xs. bsearch xs t i j \<le> k \<longrightarrow> t \<le> xs ! k)"
  using assms
proof (induction xs t i j rule: bsearch.induct)
  case (1 xs t i j)
  show ?case
  proof (cases "i < j")
    case False
    then have "bsearch xs t i j = i" by (subst bsearch.simps) simp
    moreover have "i = j" using False "1.prems"(1) by simp
    ultimately show ?thesis using "1.prems" by simp
  next
    case True
    let ?h = "(i + j) div 2"
    have h: "i \<le> ?h" "?h < j" using True by auto
    show ?thesis
    proof (cases "xs ! ?h < t")
      case low: True
      have "\<forall>k < ?h + 1. xs ! k < t"
      proof (intro allI impI)
        fix k assume "k < ?h + 1"
        then have "xs ! k \<le> xs ! ?h" using "1.prems"(2,3) h by (intro sorted_nth_mono) auto
        with low show "xs ! k < t" by simp
      qed
      with "1.IH"(1) [OF True refl low] "1.prems" h True low show ?thesis
        by (simp add: bsearch.simps [of xs t i j] Let_def)
    next
      case high: False
      have "\<forall>k < length xs. ?h \<le> k \<longrightarrow> t \<le> xs ! k"
      proof (intro allI impI)
        fix k assume "k < length xs" "?h \<le> k"
        then have "xs ! ?h \<le> xs ! k" using "1.prems"(3) by (intro sorted_nth_mono)
        with high show "t \<le> xs ! k" by simp
      qed
      with "1.IH"(2) [OF True refl high] "1.prems" h True high show ?thesis
        by (simp add: bsearch.simps [of xs t i j] Let_def)
    qed
  qed
qed

lemma sorted_prefix_sums: "list_all (\<lambda>w. 0 < w) ws \<Longrightarrow> sorted (prefix_sums a ws) \<and> (\<forall>x \<in> set (prefix_sums a ws). a < x)"
proof (induction ws arbitrary: a)
  case (Cons w ws)
  then have "sorted (prefix_sums (a + w) ws)" "\<forall>x \<in> set (prefix_sums (a + w) ws). a + w < x" "0 < w" by simp_all
  then show ?case by force
qed simp

text \<open>Of the draws below the total, exactly its weight in number fall in a class.\<close>

lemma draw_index_iff:
  assumes ok: "sizes_ok s" and i: "i < length (classes s)" and r: "0 \<le> r" "r < sz_total s"
  shows "draw_index s r = i \<longleftrightarrow>
    sum_list (take i (map sc_weight (classes s))) \<le> r \<and> r < sum_list (take (Suc i) (map sc_weight (classes s)))"
proof -
  let ?ws = "map sc_weight (classes s)" and ?xs = "cum s"
  have xs: "?xs = prefix_sums 0 ?ws" and tot: "sz_total s = sum_list ?ws" and pos: "list_all (\<lambda>w. 0 < w) ?ws"
    using ok by (auto simp: sizes_ok_def list_all_iff)
  have len: "length ?xs = length (classes s)" by (simp add: xs)
  have nth: "?xs ! k = sum_list (take (Suc k) ?ws)" if "k < length (classes s)" for k
    using that prefix_sums_nth [of k ?ws 0] by (simp add: xs)
  let ?b = "draw_index s r"
  have b: "\<forall>k < ?b. ?xs ! k < r + 1" "\<forall>k < length ?xs. ?b \<le> k \<longrightarrow> r + 1 \<le> ?xs ! k" "?b \<le> length ?xs"
    using bsearch_bounds [of 0 "length ?xs" ?xs "r + 1"] sorted_prefix_sums [OF pos, of 0]
    by (auto simp: draw_index_def xs)
  show ?thesis
  proof
    assume "?b = i"
    then have "r + 1 \<le> ?xs ! i" using b(2) i len by simp
    moreover have "sum_list (take i ?ws) \<le> r"
    proof (cases i)
      case (Suc k)
      then have "?xs ! k < r + 1" using b(1) \<open>?b = i\<close> by simp
      then show ?thesis using Suc i nth [of k] by simp
    qed (use r in simp)
    ultimately show "sum_list (take i ?ws) \<le> r \<and> r < sum_list (take (Suc i) ?ws)" using nth [OF i] by simp
  next
    assume a: "sum_list (take i ?ws) \<le> r \<and> r < sum_list (take (Suc i) ?ws)"
    have "\<not> ?b < i"
    proof
      assume lt: "?b < i"
      then have "r + 1 \<le> ?xs ! (i - 1)" using b(2) i len by simp
      moreover have "?xs ! (i - 1) = sum_list (take i ?ws)" using lt i nth [of "i - 1"] by simp
      ultimately show False using a by simp
    qed
    moreover have "\<not> i < ?b"
    proof
      assume "i < ?b"
      then have "?xs ! i < r + 1" using b(1) by simp
      then show False using a nth [OF i] by simp
    qed
    ultimately show "?b = i" by simp
  qed
qed

lemma parseSizes_nonempty:
  assumes "parseSizes spec = Inr s"
  shows "classes s \<noteq> []"
proof -
  have "split_at c xs \<noteq> []" for c xs by (induction xs) (simp_all split: list.splits)
  then obtain f fs where f: "split_at (CHR '','') spec = f # fs" by (meson list.exhaust)
  obtain size weight where cut: "Cut (TrimSpace f) (CHR '':'') = (size, weight)"
    by (cases "Cut (TrimSpace f) (CHR '':'')")
  from assms f cut obtain b n where
    "parse_fields fs (add_class \<lparr>classes = [], cum = [], sz_total = 0\<rparr> b n) = Inr s"
    by (auto simp: parseSizes_def Let_def split: if_splits)
  from parse_fields_extends [OF this] show ?thesis by (auto simp: add_class_def Let_def)
qed

lemma sizes_ok_total:
  assumes "sizes_ok s" "classes s \<noteq> []"
  shows "0 < sz_total s"
proof (cases "classes s")
  case (Cons c cs)
  with assms(1) have "0 < sc_weight c" "\<forall>x \<in> set (map sc_weight cs). 0 \<le> x"
    by (auto simp: sizes_ok_def list_all_iff less_imp_le)
  with assms(1) Cons sum_list_nonneg [of "map sc_weight cs"] show ?thesis by (simp add: sizes_ok_def)
qed (use assms in simp)

text \<open>A draw is never out of range: it is the size of the class it falls in.\<close>

lemma draw_falls:
  assumes "sizes_ok s" "classes s \<noteq> []"
  shows "draw_index s (int x mod sz_total s) < length (classes s)"
    and "draw s x = Some (sc_bytes (classes s ! draw_index s (int x mod sz_total s)))"
proof -
  let ?r = "int x mod sz_total s" and ?ws = "map sc_weight (classes s)"
  have pos: "0 < sz_total s" using assms by (rule sizes_ok_total)
  then have r: "0 \<le> ?r" "?r < sz_total s" by simp_all
  have tot: "sz_total s = sum_list (take (length (classes s)) ?ws)" using assms(1) by (simp add: sizes_ok_def)
  define i where "i = (LEAST j. ?r < sum_list (take j ?ws))"
  have at_end: "?r < sum_list (take (length (classes s)) ?ws)" using r(2) tot by (simp only:)
  have i: "?r < sum_list (take i ?ws)" "i \<le> length (classes s)"
    unfolding i_def by (rule LeastI [of _ "length (classes s)"], rule at_end, rule Least_le, rule at_end)
  then obtain k where k: "i = Suc k" using r(1) by (cases i) simp_all
  have "\<not> ?r < sum_list (take k ?ws)" using not_less_Least [of k "\<lambda>j. ?r < sum_list (take j ?ws)"] k by (simp add: i_def)
  then have "draw_index s ?r = k" using draw_index_iff [OF assms(1) _ r, of k] i k by simp
  then show "draw_index s ?r < length (classes s)" using i(2) k by simp
  then show "draw s x = Some (sc_bytes (classes s ! draw_index s ?r))" using pos by (simp add: draw_def IntN_def Let_def)
qed

lemma draw_class:
  assumes "sizes_ok s" "classes s \<noteq> []"
  obtains c where "c \<in> set (classes s)" "draw s x = Some (sc_bytes c)"
  using draw_falls [OF assms, of x] that nth_mem by blast

lemma foldl_max_ge:
  "m \<le> foldl (\<lambda>m c. max m (f c)) m cs \<and> (\<forall>c \<in> set cs. f c \<le> foldl (\<lambda>m c. max m (f c)) (m :: int) cs)"
proof (induction cs arbitrary: m)
  case (Cons d cs)
  from Cons.IH [of "max m (f d)"] show ?case by auto
qed simp

lemma largest_ge: "c \<in> set (classes s) \<Longrightarrow> sc_bytes c \<le> largest s"
  using foldl_max_ge [of 0 sc_bytes "classes s"] by (simp add: largest_def)

text \<open>A payload of a class is always within the corpus, and is that many of its bytes.\<close>

lemma payload_class:
  assumes "int (length buf) = corpus_size (largest s)" "c \<in> set (classes s)" "0 \<le> sc_bytes c"
  obtains p where "payload buf x (sc_bytes c) = Some p" "int (length p) = sc_bytes c"
    "\<exists>off. p = take (length p) (drop off buf)"
proof -
  let ?n = "sc_bytes c" and ?off = "int x mod (int (length buf) - sc_bytes c + 1)"
  have "?n \<le> int (length buf)"
    using assms largest_ge [OF assms(2)] by (simp add: corpus_size_def)
  then have pos: "0 < int (length buf) - ?n + 1" by simp
  then have off: "0 \<le> ?off" "?off \<le> int (length buf) - ?n" using pos_mod_bound [OF pos, of "int x"] by simp_all
  then have "nat ?off + nat ?n \<le> length buf" using assms(3) by linarith
  then have len: "int (length (take (nat ?n) (drop (nat ?off) buf))) = ?n" using assms(3) by simp
  show ?thesis
    by (rule that [of "take (nat ?n) (drop (nat ?off) buf)"])
      (use pos len in \<open>auto simp: payload_def IntN_def intro!: exI [of _ "nat ?off"]\<close>)
qed

lemma draw_index_card:
  assumes ok: "sizes_ok s" and i: "i < length (classes s)"
  shows "int (card {x. x < nat (sz_total s) \<and> draw_index s (int x) = i}) = sc_weight (classes s ! i)"
proof -
  let ?ws = "map sc_weight (classes s)"
  let ?a = "sum_list (take i ?ws)" and ?b = "sum_list (take (Suc i) ?ws)"
  have pos: "\<forall>w \<in> set ?ws. 0 < w" and tot: "sz_total s = sum_list ?ws"
    using ok by (auto simp: sizes_ok_def list_all_iff)
  have a: "0 \<le> ?a" by (rule sum_list_nonneg) (meson in_set_takeD less_imp_le pos)
  have rest: "0 \<le> sum_list (drop (Suc i) ?ws)" by (rule sum_list_nonneg) (meson in_set_dropD less_imp_le pos)
  have b: "?b = ?a + sc_weight (classes s ! i)" using i by (simp add: take_Suc_conv_app_nth)
  have "sum_list ?ws = ?b + sum_list (drop (Suc i) ?ws)"
    by (metis append_take_drop_id sum_list_append)
  then have le: "?b \<le> sz_total s" using tot rest by simp
  have "{x. x < nat (sz_total s) \<and> draw_index s (int x) = i} = {nat ?a..<nat ?b}"
  proof (intro set_eqI)
    fix x
    show "x \<in> {x. x < nat (sz_total s) \<and> draw_index s (int x) = i} \<longleftrightarrow> x \<in> {nat ?a..<nat ?b}"
    proof (cases "int x < sz_total s")
      case True
      then show ?thesis using draw_index_iff [OF ok i, of "int x"] a by auto
    next
      case False
      then show ?thesis using le by auto
    qed
  qed
  moreover have "0 < sc_weight (classes s ! i)" using pos i by simp
  ultimately show ?thesis using a b by (simp add: nat_add_distrib)
qed

text \<open>What \<open>chunked\<close> divides is the weight of the classes whose entries take more than one row.\<close>

lemma rowsOf_gt_one: "1 < rowsOf p \<longleftrightarrow> MaxEntryChunk < length p"
  by (simp add: rowsOf_def MaxEntryChunk_def) linarith

lemma chunked_share:
  assumes ok: "sizes_ok s" and fits: "sz_total s \<le> bigint_max"
  shows "chunked s =
    fdiv (float_of_int (sum_list (map sc_weight (filter (\<lambda>c. int MaxEntryChunk < sc_bytes c) (classes s)))))
      (float_of_int (sz_total s))"
proof -
  let ?P = "\<lambda>c. int MaxEntryChunk < sc_bytes c"
  have "foldl (\<lambda>a c. if ?P c then int64 (uint64 (a + sc_weight c)) else a) a cs = a + sum_list (map sc_weight (filter ?P cs))"
    if "0 \<le> a" "a + sum_list (map sc_weight cs) \<le> bigint_max" "\<forall>c \<in> set cs. 0 < sc_weight c" for a cs
    using that
  proof (induction cs arbitrary: a)
    case (Cons c cs)
    have "0 \<le> sum_list (map sc_weight cs)" using Cons.prems(3) by (intro sum_list_nonneg) (auto simp: less_imp_le)
    then show ?case using Cons.IH [of a] Cons.IH [of "a + sc_weight c"] Cons.prems by simp
  qed simp
  from this [of 0 "classes s"] ok fits show ?thesis by (simp add: chunked_def sizes_ok_def list_all_iff)
qed

text \<open>Weights that add up past an \<open>int\<close> leave a total no number can be drawn below.\<close>

lemma weight_overflow_panics: "sz_total s = bigint_max \<Longrightarrow> draw (add_class s b 1) x = None"
  by (simp add: draw_def IntN_def add_class_def Let_def uint64_def int64_def)

end
