(* ===== verification/Load_Rate.thy ===== *)
theory Load_Rate
  imports Prelude "HOL-Library.Signed_Division"
begin

text \<open>
  The load generator's pacing (\<open>cmd/pgnotch-load/rate.go\<close>). A \<open>time.Time\<close> is an integer number of
  nanoseconds and a \<open>time.Duration\<close> an integer within 64 bits; the readings of the clock are
  arguments. The timer a pacer reuses between waits has no state of its own here.
\<close>

section \<open>The schedule\<close>

text \<open>\<open>Time.Sub\<close> saturates at the ends of a \<open>Duration\<close>.\<close>

definition time_sub :: "int \<Rightarrow> int \<Rightarrow> int" where
  "time_sub t u = max (- 9223372036854775808) (min bigint_max (t - u))"

text \<open>How long to wait, when the next slot is due, the slots given up on; \<open>None\<close> is a division by zero.\<close>

definition schedule :: "int \<Rightarrow> int \<Rightarrow> int \<Rightarrow> int \<Rightarrow> (int \<times> int \<times> int) option" where
  "schedule due now interval catchup =
     (let behind = time_sub now due in
      if behind < 0 then Some (int64 (uint64 (- behind)), due + interval, 0)
      else if behind \<le> catchup then Some (0, due + interval, 0)
      else if interval = 0 then None
      else Some (0, now + interval, behind sdiv interval))"

record pacer =
  interval :: int
  catchup :: int
  due :: int

definition newPacer :: "int \<Rightarrow> int \<Rightarrow> int \<Rightarrow> pacer" where
  "newPacer start i c = \<lparr>interval = i, catchup = c, due = start\<rparr>"

text \<open>
  One call of \<open>wait\<close>, by what the clock read and whether the context's end was what the select
  took: the time it slept, the slots abandoned, whether it ended with the context's error.
\<close>

definition pacer_wait :: "int \<Rightarrow> bool \<Rightarrow> pacer \<Rightarrow> (int \<times> int \<times> bool \<times> pacer) option" where
  "pacer_wait now cancelled p =
     (case schedule (due p) now (interval p) (catchup p) of
        None \<Rightarrow> None
      | Some (wait, next, skipped) \<Rightarrow> Some (max wait 0, skipped, cancelled, p\<lparr>due := next\<rparr>))"

text \<open>A run of waits that are not cancelled: when each slot runs, and what was abandoned to get to it.\<close>

fun pace :: "pacer \<Rightarrow> int list \<Rightarrow> (int \<times> int) list option" where
  "pace p [] = Some []"
| "pace p (now # nows) =
     (case pacer_wait now False p of
        None \<Rightarrow> None
      | Some (slept, skipped, _, p') \<Rightarrow> map_option (Cons (now + slept, skipped)) (pace p' nows))"

text \<open>The clock is next read no earlier than the slot before it ran.\<close>

definition clock_follows :: "int list \<Rightarrow> (int \<times> int) list \<Rightarrow> bool" where
  "clock_follows nows slots \<longleftrightarrow> (\<forall>i. Suc i < length nows \<longrightarrow> fst (slots ! i) \<le> nows ! Suc i)"

section \<open>What a schedule keeps\<close>

lemma sdiv_times_le:
  assumes "0 \<le> (b :: int)" "0 < i"
  shows "b sdiv i * i \<le> b" "0 \<le> b sdiv i"
proof -
  have "b sdiv i = b div i" using assms by (cases "b = 0") (simp_all add: signed_divide_int_def)
  moreover have "b div i * i \<le> b" using div_mult_mod_eq [of b i] pos_mod_sign [OF assms(2), of b] by linarith
  ultimately show "b sdiv i * i \<le> b" "0 \<le> b sdiv i"
    using assms by (simp_all add: pos_imp_zdiv_nonneg_iff)
qed

text \<open>
  A slot runs when it is due or later, after what it skipped; the next is due an interval
  after it ran at the latest, and more than the catch-up short of that never.
\<close>

lemma schedule_step:
  assumes "0 < i" "0 \<le> c" "c < bigint_max" "d - now \<le> bigint_max" "schedule d now i c = Some (w, d', k)"
  shows "d + k * i \<le> now + max w 0" "d + (1 + k) * i \<le> d'" "now + max w 0 + i - c \<le> d'"
    "d' \<le> now + max w 0 + i" "0 \<le> k"
proof -
  consider (early) "now < d" "w = d - now" "d' = d + i" "k = 0"
    | (late) "d \<le> now" "now - d \<le> c" "w = 0" "d' = d + i" "k = 0"
    | (restart) "d \<le> now" "w = 0" "d' = now + i" "k = min bigint_max (now - d) sdiv i"
  proof (cases "now < d")
    case True
    then have "time_sub now d = now - d" using assms(4) by (simp add: time_sub_def)
    then show ?thesis using True assms(4,5) by (intro early) (simp_all add: schedule_def)
  next
    case False
    then have "time_sub now d = min bigint_max (now - d)" "0 \<le> time_sub now d" by (simp_all add: time_sub_def)
    note sub = this
    show ?thesis
    proof (cases "time_sub now d \<le> c")
      case True
      then have "schedule d now i c = Some (0, d + i, 0)" using sub(2) by (simp add: schedule_def)
      then show ?thesis using False True sub(1) assms(3,5) by (intro late) (simp_all add: min_le_iff_disj)
    next
      case high: False
      then have "schedule d now i c = Some (0, now + i, time_sub now d sdiv i)"
        using sub(2) assms(1) by (simp add: schedule_def)
      then show ?thesis using False sub(1) assms(5) by (intro restart) simp_all
    qed
  qed
  then have "d + k * i \<le> now + max w 0 \<and> d + (1 + k) * i \<le> d' \<and> now + max w 0 + i - c \<le> d' \<and>
    d' \<le> now + max w 0 + i \<and> 0 \<le> k"
  proof cases
    case restart
    note q = sdiv_times_le [of "min bigint_max (now - d)" i, folded restart(4)]
    have "k * i \<le> now - d" "0 \<le> k" using q assms(1) restart(1) by simp_all
    then show ?thesis using restart(2,3) assms(2) by (simp add: algebra_simps)
  qed (use assms(1,2) in \<open>simp_all add: algebra_simps\<close>)
  then show "d + k * i \<le> now + max w 0" "d + (1 + k) * i \<le> d'" "now + max w 0 + i - c \<le> d'"
    "d' \<le> now + max w 0 + i" "0 \<le> k" by simp_all
qed

lemma schedule_total: "0 < i \<Longrightarrow> \<exists>w d' k. schedule d now i c = Some (w, d', k)"
  by (simp add: schedule_def Let_def)

text \<open>The whole run from the slot that is due.\<close>

definition paced :: "int \<Rightarrow> int \<Rightarrow> int \<Rightarrow> (int \<times> int) list \<Rightarrow> bool" where
  "paced i c d slots \<longleftrightarrow>
     (\<forall>n < length slots. d + (int n + sum_list (map snd (take (Suc n) slots))) * i \<le> fst (slots ! n)) \<and>
     (\<forall>m n. m < n \<longrightarrow> n < length slots \<longrightarrow> fst (slots ! m) + int (n - m) * i - c \<le> fst (slots ! n))"

lemma paced_Cons:
  assumes rest: "paced i c d' slots" and nonneg: "0 < i" "list_all (\<lambda>x. 0 \<le> snd x) slots"
    and slot: "d + k * i \<le> t" "d + (1 + k) * i \<le> d'" "t + i - c \<le> d'"
  shows "paced i c d ((t, k) # slots)"
  unfolding paced_def
proof (intro conjI allI impI)
  fix n assume n: "n < length ((t, k) # slots)"
  show "d + (int n + sum_list (map snd (take (Suc n) ((t, k) # slots)))) * i \<le> fst (((t, k) # slots) ! n)"
  proof (cases n)
    case 0
    then show ?thesis using slot(1) by simp
  next
    case (Suc m)
    then have "d' + (int m + sum_list (map snd (take (Suc m) slots))) * i \<le> fst (slots ! m)"
      using rest n by (simp add: paced_def)
    then show ?thesis using slot(2) Suc by (simp add: algebra_simps)
  qed
next
  fix m n assume mn: "m < n" "n < length ((t, k) # slots)"
  then obtain n' where n: "n = Suc n'" "n' < length slots" by (cases n) simp_all
  show "fst (((t, k) # slots) ! m) + int (n - m) * i - c \<le> fst (((t, k) # slots) ! n)"
  proof (cases m)
    case 0
    have "d' + (int n' + sum_list (map snd (take (Suc n') slots))) * i \<le> fst (slots ! n')"
      using rest n by (simp add: paced_def)
    moreover have "0 \<le> sum_list (map snd (take (Suc n') slots))"
      using nonneg(2) by (intro sum_list_nonneg) (auto simp: list_all_iff dest: in_set_takeD)
    then have "int n' * i \<le> (int n' + sum_list (map snd (take (Suc n') slots))) * i"
      using nonneg(1) by (intro mult_right_mono) simp_all
    ultimately have "d' + int n' * i \<le> fst (slots ! n')" by linarith
    then show ?thesis using 0 n slot(3) by (simp add: algebra_simps)
  next
    case (Suc m')
    then have "fst (slots ! m') + int (n' - m') * i - c \<le> fst (slots ! n')"
      using rest n mn by (simp add: paced_def)
    then show ?thesis using Suc n by simp
  qed
qed

lemma pace_total:
  assumes "0 < interval p"
  shows "\<exists>slots. pace p nows = Some slots \<and> length slots = length nows"
  using assms
proof (induction nows arbitrary: p)
  case (Cons now nows)
  from schedule_total [OF Cons.prems] obtain w d' k where
    "schedule (due p) now (interval p) (catchup p) = Some (w, d', k)" by blast
  with Cons.IH [of "p\<lparr>due := d'\<rparr>"] Cons.prems show ?case by (auto simp: pacer_wait_def)
qed simp

lemma clock_follows_Cons:
  "clock_follows (now # now' # nows) (x # slots) \<longleftrightarrow> fst x \<le> now' \<and> clock_follows (now' # nows) slots"
  unfolding clock_follows_def by (auto simp: less_Suc_eq_0_disj nth_Cons split: nat.splits)

lemma pace_paced:
  assumes "0 < interval p" "interval p \<le> bigint_max" "0 \<le> catchup p" "catchup p < bigint_max"
    and "nows \<noteq> [] \<Longrightarrow> due p - hd nows \<le> bigint_max" "pace p nows = Some slots" "clock_follows nows slots"
  shows "list_all (\<lambda>x. 0 \<le> snd x) slots \<and> paced (interval p) (catchup p) (due p) slots"
  using assms
proof (induction nows arbitrary: p slots)
  case Nil
  then show ?case by (simp add: paced_def)
next
  case (Cons now nows)
  from schedule_total [OF Cons.prems(1)] obtain w d' k where
    sch: "schedule (due p) now (interval p) (catchup p) = Some (w, d', k)" by blast
  have "due p - now \<le> bigint_max" using Cons.prems(5) by simp
  note step = schedule_step [OF Cons.prems(1,3,4) this sch]
  from sch Cons.prems(6) obtain rest where rest: "pace (p\<lparr>due := d'\<rparr>) nows = Some rest"
    and slots: "slots = (now + max w 0, k) # rest" by (auto simp: pacer_wait_def)
  have "list_all (\<lambda>x. 0 \<le> snd x) rest \<and> paced (interval p) (catchup p) d' rest"
  proof (cases nows)
    case Nil
    with rest show ?thesis by (simp add: paced_def)
  next
    case (Cons now' nows')
    with Cons.prems(7) slots have c: "now + max w 0 \<le> now'" "clock_follows nows rest"
      by (simp_all add: clock_follows_Cons)
    then have "due (p\<lparr>due := d'\<rparr>) - hd nows \<le> bigint_max" using step(4) Cons.prems(2) Cons by simp
    with Cons.IH [of "p\<lparr>due := d'\<rparr>" rest] Cons.prems(1-4) rest c(2) show ?thesis by simp
  qed
  then show ?case using paced_Cons [of "interval p" "catchup p" d' rest] step Cons.prems(1) slots by simp
qed

end
