(* ===== verification/Ring_Rules.thy ===== *)
theory Ring_Rules
  imports Log_Ids
begin

text \<open>
  The rules of \<open>ring.go\<close>: a log's entries live in two tables used as a ring, and these
  functions of the registry row say when the older half may be truncated and when the ring
  may turn.
\<close>

definition rotateAfterEntries :: Seqno where
  "rotateAfterEntries = 4096"

record logState =
  st_ordinal :: int
  lastSeqno :: Seqno
  trimUpto :: Seqno
  curSlot :: int
  curLo :: Seqno
  prevHi :: Seqno

definition prevSlot :: "logState \<Rightarrow> int" where
  "prevSlot st = 1 - curSlot st"

definition prevEmpty :: "logState \<Rightarrow> bool" where
  "prevEmpty st \<longleftrightarrow> prevHi st > 0 \<and> trimUpto st \<ge> curLo st - 1"

definition ringFull :: "logState \<Rightarrow> bool" where
  "ringFull st \<longleftrightarrow> lastSeqno st - curLo st + 1 \<ge> rotateAfterEntries"

definition canRotate :: "logState \<Rightarrow> bool" where
  "canRotate st \<longleftrightarrow> prevHi st = 0 \<and> ringFull st"

definition reclaimSteps :: "logState \<Rightarrow> bool \<Rightarrow> bool \<times> bool" where
  "reclaimSteps st mayTruncate =
     (let truncate = mayTruncate \<and> prevEmpty st;
          after = (if truncate then st\<lparr>prevHi := 0\<rparr> else st)
      in (truncate, canRotate after))"

section \<open>The rules as integer arithmetic\<close>

text \<open>
  A row whose live half starts at most one past its last entry: what every row of the
  registry satisfies. On such a row the wrapping subtraction of \<open>ringFull\<close> counts the
  entries of the live half, also where the half is empty.
\<close>

definition ring_row :: "logState \<Rightarrow> bool" where
  "ring_row st \<longleftrightarrow>
     1 \<le> uint (curLo st) \<and> uint (curLo st) \<le> uint (lastSeqno st) + 1 \<and> uint (lastSeqno st) < bigint_max"

lemma ringFull_span:
  assumes "ring_row st"
  shows "uint (lastSeqno st - curLo st + 1) = uint (lastSeqno st) - uint (curLo st) + 1"
proof -
  let ?n = "uint (lastSeqno st) - uint (curLo st) + 1"
  have "lastSeqno st - curLo st + 1 = word_of_int ?n"
    by simp
  moreover have "0 \<le> ?n" "?n < 18446744073709551616"
    using assms by (auto simp: ring_row_def)
  ultimately show ?thesis
    by (simp only: uint_word_of_int) simp
qed

lemma ringFull_iff:
  assumes "ring_row st"
  shows "ringFull st \<longleftrightarrow> 4096 \<le> uint (lastSeqno st) - uint (curLo st) + 1"
  unfolding ringFull_def word_le_def ringFull_span [OF assms] by (simp add: rotateAfterEntries_def)

lemma prevEmpty_iff:
  assumes "ring_row st"
  shows "prevEmpty st \<longleftrightarrow> prevHi st \<noteq> 0 \<and> uint (curLo st) - 1 \<le> uint (trimUpto st)"
proof -
  have "curLo st \<noteq> 0" using assms by (auto simp: ring_row_def)
  then have "uint (curLo st - 1) = uint (curLo st) - 1"
    by (rule uint_pred)
  then show ?thesis by (simp add: prevEmpty_def word_le_def word_gt_0)
qed

lemma reclaimSteps_truncate: "fst (reclaimSteps st m) \<longleftrightarrow> m \<and> prevEmpty st"
  by (simp add: reclaimSteps_def Let_def)

lemma ringFull_prevHi [simp]: "ringFull (st\<lparr>prevHi := n\<rparr>) = ringFull st"
  by (simp add: ringFull_def)

lemma reclaimSteps_rotate:
  "snd (reclaimSteps st m) \<longleftrightarrow> ringFull st \<and> (prevHi st = 0 \<or> m \<and> prevEmpty st)"
  by (auto simp: reclaimSteps_def Let_def canRotate_def)

end
