(* ===== verification/Registry.thy ===== *)
theory Registry
  imports Chunks Ring_Rules
begin

text \<open>
  The schema as data, and the SQL statements of \<open>store.go\<close> as functions on it. The registry
  \<open>pgnotch_logs\<close> is a list of rows (absent before the migration), the entry tables are
  found by name, and the identity column's sequence is a counter. A statement answers with
  the rows it returns or with a SQLSTATE, and gives the tables as it leaves them; a statement
  that fails leaves them alone. Each statement is one atomic step, as a READ COMMITTED
  statement on one locked registry row is.
\<close>

section \<open>Tables\<close>

text \<open>A row of \<open>pgnotch_logs\<close>, column by column.\<close>

record reg_row =
  log_id :: LogID
  ordinal :: int
  epoch :: int
  last_seqno :: int
  trim_upto :: int
  cur_slot :: int
  cur_lo :: int
  prev_hi :: int

text \<open>
  The tables of a schema: the registry and the sequence behind its ordinals, the entry tables by name, and
  goose's version table with the versions it records.
\<close>

record db =
  registry :: "reg_row list option"
  next_ordinal :: int
  tables :: "string \<Rightarrow> entry_row list option"
  version_table :: "int list option"

definition entriesPrefix :: string where
  "entriesPrefix = ''pgnotch_entries_''"

definition entriesTable :: "int \<Rightarrow> int \<Rightarrow> string" where
  "entriesTable ord slot = entriesPrefix @ show_int ord @ ''_'' @ show_int slot"

definition ringTables :: "int \<Rightarrow> string list" where
  "ringTables ord = [entriesTable ord 0, entriesTable ord 1]"

text \<open>
  What the package relies on of the naming of entry tables: no two halves of any rings
  share a name, so writing one leaves every other as it is.
\<close>

locale table_naming =
  fixes name :: "int \<Rightarrow> int \<Rightarrow> string"
  assumes name_inject: "name o1 s1 = name o2 s2 \<Longrightarrow> o1 = o2 \<and> s1 = s2"
begin

lemma name_eq_iff [simp]: "name o1 s1 = name o2 s2 \<longleftrightarrow> o1 = o2 \<and> s1 = s2"
  using name_inject by blast

lemma update_other_log: "o1 \<noteq> o2 \<Longrightarrow> (t(name o1 s1 := v)) (name o2 s2) = t (name o2 s2)"
  by simp

lemma update_other_half: "s \<noteq> s' \<Longrightarrow> (t(name ord s := v)) (name ord s') = t (name ord s')"
  by simp

end

interpretation names: table_naming entriesTable
proof
  fix o1 s1 o2 s2
  assume "entriesTable o1 s1 = entriesTable o2 s2"
  then have "show_int o1 @ CHR ''_'' # show_int s1 = show_int o2 @ CHR ''_'' # show_int s2"
    by (simp add: entriesTable_def)
  then have "show_int o1 = show_int o2 \<and> show_int s1 = show_int s2"
    by (intro append_sep_inject) (simp_all add: show_int_no_underscore)
  then show "o1 = o2 \<and> s1 = s2" by simp
qed

section \<open>Statements on the registry\<close>

definition undefined_table :: string where
  "undefined_table = ''42P01''"

definition lock_not_available :: string where
  "lock_not_available = ''55P03''"

definition numeric_out_of_range :: string where
  "numeric_out_of_range = ''22003''"

type_synonym 'a stmt = "db \<Rightarrow> (string + 'a) \<times> db"

text \<open>\<open>SELECT ... FROM pgnotch_logs WHERE p\<close>.\<close>

definition sql_select :: "(reg_row \<Rightarrow> bool) \<Rightarrow> reg_row list stmt" where
  "sql_select p d =
     (case registry d of
        None \<Rightarrow> (Inl undefined_table, d)
      | Some rows \<Rightarrow> (Inr (filter p rows), d))"

text \<open>\<open>UPDATE pgnotch_logs SET ... WHERE p RETURNING ...\<close>: the updated rows are returned.\<close>

definition sql_update :: "(reg_row \<Rightarrow> bool) \<Rightarrow> (reg_row \<Rightarrow> reg_row) \<Rightarrow> reg_row list stmt" where
  "sql_update p f d =
     (case registry d of
        None \<Rightarrow> (Inl undefined_table, d)
      | Some rows \<Rightarrow>
          (Inr (map f (filter p rows)), d\<lparr>registry := Some (map (\<lambda>r. if p r then f r else r) rows)\<rparr>))"

text \<open>\<open>Fence\<close>: \<open>UPDATE ... SET epoch = $2 WHERE log_id = $1 AND epoch <= $2 RETURNING ordinal\<close>.\<close>

definition sql_fence :: "LogID \<Rightarrow> int \<Rightarrow> reg_row list stmt" where
  "sql_fence lid e = sql_update (\<lambda>r. log_id r = lid \<and> epoch r \<le> e) (\<lambda>r. r\<lparr>epoch := e\<rparr>)"

text \<open>\<open>Trim\<close>: \<open>SET trim_upto = GREATEST(trim_upto, LEAST($1, last_seqno)) WHERE log_id = $2\<close>.\<close>

definition sql_trim :: "int \<Rightarrow> LogID \<Rightarrow> reg_row list stmt" where
  "sql_trim upTo lid =
     sql_update (\<lambda>r. log_id r = lid) (\<lambda>r. r\<lparr>trim_upto := max (trim_upto r) (min upTo (last_seqno r))\<rparr>)"

text \<open>The three updates of \<open>reclaim\<close>, each by ordinal: the re-read, the emptied half, the turn.\<close>

definition sql_reread :: "int \<Rightarrow> reg_row list stmt" where
  "sql_reread ord = sql_update (\<lambda>r. ordinal r = ord) (\<lambda>r. r)"

definition sql_clear_prev :: "int \<Rightarrow> reg_row list stmt" where
  "sql_clear_prev ord = sql_update (\<lambda>r. ordinal r = ord) (\<lambda>r. r\<lparr>prev_hi := 0\<rparr>)"

definition rotate_row :: "reg_row \<Rightarrow> reg_row" where
  "rotate_row r =
     r\<lparr>cur_slot := 1 - cur_slot r, prev_hi := last_seqno r, cur_lo := last_seqno r + 1\<rparr>"

definition sql_rotate :: "int \<Rightarrow> reg_row list stmt" where
  "sql_rotate ord d =
     (if \<exists>r \<in> set (case registry d of None \<Rightarrow> [] | Some rows \<Rightarrow> rows).
           ordinal r = ord \<and> bigint_max < last_seqno r + 1
      then (Inl numeric_out_of_range, d)
      else sql_update (\<lambda>r. ordinal r = ord) rotate_row d)"

text \<open>
  \<open>CreateLogs\<close>: \<open>INSERT ... SELECT unnest($1::text[]) ... ON CONFLICT (log_id) DO NOTHING
  RETURNING ordinal\<close>. The identity sequence gives every proposed row a number, also one that
  conflicts, and never takes a number back.
\<close>

definition new_row :: "LogID \<Rightarrow> int \<Rightarrow> reg_row" where
  "new_row lid ord =
     \<lparr>log_id = lid, ordinal = ord, epoch = 0, last_seqno = 0, trim_upto = 0, cur_slot = 0,
      cur_lo = int64 FirstSeqno, prev_hi = 0\<rparr>"

fun insert_names :: "LogID list \<Rightarrow> reg_row list \<Rightarrow> int \<Rightarrow> int list \<times> reg_row list \<times> int" where
  "insert_names [] rows n = ([], rows, n)"
| "insert_names (x # xs) rows n =
     (if x \<in> log_id ` set rows then insert_names xs rows (n + 1)
      else let (os, rows', n') = insert_names xs (rows @ [new_row x n]) (n + 1) in (n # os, rows', n'))"

definition sql_insert_logs :: "LogID list \<Rightarrow> int list stmt" where
  "sql_insert_logs names d =
     (case registry d of
        None \<Rightarrow> (Inl undefined_table, d)
      | Some rows \<Rightarrow>
          let (os, rows', n') = insert_names names rows (next_ordinal d)
          in (Inr os, d\<lparr>registry := Some rows', next_ordinal := n'\<rparr>))"

section \<open>Statements on entry tables\<close>

definition create_table :: "string \<Rightarrow> db \<Rightarrow> db" where
  "create_table name d =
     (case tables d name of None \<Rightarrow> d\<lparr>tables := (tables d)(name := Some [])\<rparr> | Some _ \<Rightarrow> d)"

text \<open>The DDL of \<open>CreateLogs\<close>: \<open>CREATE TABLE IF NOT EXISTS\<close> for both halves of every new ring.\<close>

definition sql_create_rings :: "int list \<Rightarrow> unit stmt" where
  "sql_create_rings os d = (Inr (), fold create_table (concat (map ringTables os)) d)"

definition sql_truncate :: "string \<Rightarrow> unit stmt" where
  "sql_truncate name d =
     (case tables d name of
        None \<Rightarrow> (Inl undefined_table, d)
      | Some _ \<Rightarrow> (Inr (), d\<lparr>tables := (tables d)(name := Some [])\<rparr>))"

definition sql_lock_tables :: "string list \<Rightarrow> unit stmt" where
  "sql_lock_tables ts d = (if \<forall>t \<in> set ts. tables d t \<noteq> None then (Inr (), d) else (Inl undefined_table, d))"

text \<open>
  \<open>ReadFrom\<close>: the union of both halves between two seqnos, \<open>ORDER BY seqno, chunk\<close>.
\<close>

definition row_key :: "entry_row \<Rightarrow> int \<times> int" where
  "row_key r = (row_seqno r, row_chunk r)"

definition sql_read :: "string \<Rightarrow> string \<Rightarrow> int \<Rightarrow> int \<Rightarrow> entry_row list stmt" where
  "sql_read t0 t1 lo hi d =
     (case (tables d t0, tables d t1) of
        (Some r0, Some r1) \<Rightarrow>
          (Inr (sort_key row_key (filter (\<lambda>r. lo \<le> row_seqno r \<and> row_seqno r \<le> hi) (r0 @ r1))), d)
      | _ \<Rightarrow> (Inl undefined_table, d))"

section \<open>The append statement\<close>

text \<open>
  The text of an append differs between logs only in the two tables it names; a statement is
  those two names. It is one statement with four parts: the UPDATE that claims the seqnos,
  the unnested rows, and one INSERT per half, of which the one whose number the claim
  returned inserts the rows. It answers with the number of claimed rows.
\<close>

record append_sql =
  slot0 :: string
  slot1 :: string

definition appendSQL :: "int \<Rightarrow> append_sql" where
  "appendSQL ord = \<lparr>slot0 = entriesTable ord 0, slot1 = entriesTable ord 1\<rparr>"

definition insert_rows :: "bool \<Rightarrow> string \<Rightarrow> entry_row list \<Rightarrow> db \<Rightarrow> db" where
  "insert_rows cond name rs d =
     (if cond then d\<lparr>tables := (tables d)(name := map_option (\<lambda>t. t @ rs) (tables d name))\<rparr> else d)"

definition sql_append :: "append_sql \<Rightarrow> int \<Rightarrow> LogID \<Rightarrow> int \<Rightarrow> int \<Rightarrow> columns \<Rightarrow> nat stmt" where
  "sql_append q lst lid e prev cols d =
     (if tables d (slot0 q) = None \<or> tables d (slot1 q) = None then (Inl undefined_table, d)
      else case sql_update (\<lambda>r. log_id r = lid \<and> epoch r = e \<and> last_seqno r = prev)
                           (\<lambda>r. r\<lparr>last_seqno := lst\<rparr>) d of
        (Inl err, d') \<Rightarrow> (Inl err, d')
      | (Inr claim, d') \<Rightarrow>
          let slot = (case claim of [] \<Rightarrow> None | r # _ \<Rightarrow> Some (cur_slot r));
              parts = unnest e cols
          in (Inr (length claim),
              insert_rows (slot = Some 1) (slot1 q) parts (insert_rows (slot = Some 0) (slot0 q) parts d')))"

end
