(* ===== verification/Driver.thy ===== *)
theory Driver
  imports Registry
begin

text \<open>
  Calls to PostgreSQL through the driver. The server is shared with other sessions and a call
  can fail, so an operation runs in an environment that says, call by call, what the other
  sessions did to the tables before it (\<open>interfere\<close>) and how the call ended (\<open>outcome_of\<close>):
  it ran, it failed and did nothing, or it failed for the caller after it had taken effect
  (a connection lost before the answer arrived; a SQLSTATE is an answer, and one that says the
  statement was rolled back). How the driver decodes a \<open>bigint\<close> into an
  unsigned variable is a parameter as well.
\<close>

datatype failure = Opaque nat | SqlState string

datatype outcome = Runs | Lost failure | Landed nat

fun failure_err :: "failure \<Rightarrow> goerr" where
  "failure_err (Opaque n) = DriverError n"
| "failure_err (SqlState c) = PgError c"

record env =
  interfere :: "nat \<Rightarrow> db \<Rightarrow> db"
  outcome_of :: "nat \<Rightarrow> outcome"
  decode_u64 :: "int \<Rightarrow> goerr + u64"

text \<open>
  What a \<^verbatim>\<open>Store\<close> and its pool see: the tables, how many calls were made, and the store's own
  cache of append statements.
\<close>

record sys =
  sdb :: db
  clk :: nat
  appends :: "LogID \<Rightarrow> append_sql option"

definition tick :: "sys \<Rightarrow> sys" where
  "tick s = s\<lparr>clk := Suc (clk s)\<rparr>"

definition others :: "env \<Rightarrow> sys \<Rightarrow> sys" where
  "others env s = s\<lparr>sdb := interfere env (clk s) (sdb s)\<rparr>"

fun pg_result :: "string + 'a \<Rightarrow> goerr + 'a" where
  "pg_result (Inl c) = Inl (PgError c)"
| "pg_result (Inr a) = Inr a"

text \<open>A statement in its own transaction: \<open>pool.Exec\<close>, \<open>pool.Query\<close>, \<open>pool.QueryRow\<close>.\<close>

definition pg_call :: "env \<Rightarrow> 'a stmt \<Rightarrow> sys \<Rightarrow> (goerr + 'a) \<times> sys" where
  "pg_call env stmt s =
     (let s1 = others env s; (r, d) = stmt (sdb s1) in
      case outcome_of env (clk s) of
        Runs \<Rightarrow> (pg_result r, tick (s1\<lparr>sdb := d\<rparr>))
      | Lost f \<Rightarrow> (Inl (failure_err f), tick s1)
      | Landed n \<Rightarrow> (Inl (DriverError n), tick (s1\<lparr>sdb := d\<rparr>)))"

text \<open>
  A statement inside a transaction, on the transaction's own copy of the tables: it fails or
  it runs, and either way nothing is visible before the commit. From the statement that locks
  the registry row (or inserts it) to the commit no other session can change what the
  transaction reads or writes, so what the others do meanwhile is put before the first
  statement or after the commit.
\<close>

definition tx_call :: "env \<Rightarrow> 'a stmt \<Rightarrow> sys \<times> db \<Rightarrow> (goerr + 'a) \<times> sys \<times> db" where
  "tx_call env stmt = (\<lambda>(s, w).
     let (r, w') = stmt w in
     case outcome_of env (clk s) of
       Runs \<Rightarrow> (pg_result r, tick s, w')
     | Lost f \<Rightarrow> (Inl (failure_err f), tick s, w)
     | Landed n \<Rightarrow> (Inl (DriverError n), tick s, w))"

definition tx_commit :: "env \<Rightarrow> sys \<times> db \<Rightarrow> (goerr + unit) \<times> sys" where
  "tx_commit env = (\<lambda>(s, w).
     case outcome_of env (clk s) of
       Runs \<Rightarrow> (Inr (), tick (s\<lparr>sdb := w\<rparr>))
     | Lost f \<Rightarrow> (Inl (failure_err f), tick s)
     | Landed n \<Rightarrow> (Inl (DriverError n), tick (s\<lparr>sdb := w\<rparr>)))"

text \<open>A statement that touches no table: \<open>BEGIN\<close>, \<open>SET LOCAL lock_timeout\<close>.\<close>

definition sql_nop :: "unit stmt" where
  "sql_nop d = (Inr (), d)"

text \<open>\<open>row.Scan\<close> on the answer of a query for one row.\<close>

fun first_row :: "'a list \<Rightarrow> goerr + 'a" where
  "first_row [] = Inl ErrNoRows"
| "first_row (x # _) = Inr x"

definition query_row :: "env \<Rightarrow> 'a list stmt \<Rightarrow> sys \<Rightarrow> (goerr + 'a) \<times> sys" where
  "query_row env stmt s = (let (r, s') = pg_call env stmt s in (bind_ok r first_row, s'))"

text \<open>\<open>scanLogState\<close>: the columns in the order of \<open>logStateColumns\<close>.\<close>

definition scanLogState :: "env \<Rightarrow> reg_row \<Rightarrow> goerr + logState" where
  "scanLogState env r =
     bind_ok (decode_u64 env (last_seqno r)) (\<lambda>sq.
     bind_ok (decode_u64 env (trim_upto r)) (\<lambda>trim.
     bind_ok (decode_u64 env (cur_lo r)) (\<lambda>lo.
     bind_ok (decode_u64 env (prev_hi r)) (\<lambda>hi.
       Inr \<lparr>st_ordinal = ordinal r, lastSeqno = sq, trimUpto = trim,
            curSlot = cur_slot r, curLo = lo, prevHi = hi\<rparr>))))"

text \<open>\<open>sqlStateIs\<close> and its two uses.\<close>

definition sqlStateIs :: "goerr \<Rightarrow> string \<Rightarrow> bool" where
  "sqlStateIs err state \<longleftrightarrow> err = PgError state"

definition isLockNotAvailable :: "goerr \<Rightarrow> bool" where
  "isLockNotAvailable err = sqlStateIs err lock_not_available"

definition isUndefinedTable :: "goerr \<Rightarrow> bool" where
  "isUndefinedTable err = sqlStateIs err undefined_table"

section \<open>Assumptions on the environment\<close>

text \<open>
  The driver decodes a \<open>bigint\<close> that is not negative to the same number.
\<close>

definition decodes :: "env \<Rightarrow> bool" where
  "decodes env \<longleftrightarrow> (\<forall>n. 0 \<le> n \<longrightarrow> n \<le> bigint_max \<longrightarrow> decode_u64 env n = Inr (uint64 n))"

text \<open>Nobody else is writing and no call fails.\<close>

definition quiet :: "env \<Rightarrow> bool" where
  "quiet env \<longleftrightarrow> decodes env \<and> (\<forall>t d. interfere env t d = d) \<and> (\<forall>t. outcome_of env t = Runs)"

text \<open>An environment of that kind, for evaluating operations on concrete inputs.\<close>

definition calm :: env where
  "calm = \<lparr>interfere = (\<lambda>_ d. d), outcome_of = (\<lambda>_. Runs), decode_u64 = (\<lambda>n. Inr (uint64 n))\<rparr>"

lemma quiet_calm: "quiet calm"
  by (simp add: quiet_def decodes_def calm_def)

lemma pg_call_quiet:
  assumes "quiet env"
  shows "pg_call env stmt s = (pg_result (fst (stmt (sdb s))), tick (s\<lparr>sdb := snd (stmt (sdb s))\<rparr>))"
  using assms by (simp add: quiet_def pg_call_def others_def split_beta)

lemma tx_call_quiet:
  assumes "quiet env"
  shows "tx_call env stmt (s, w) = (pg_result (fst (stmt w)), tick s, snd (stmt w))"
  using assms by (simp add: quiet_def tx_call_def split_beta)

lemma tx_commit_quiet:
  assumes "quiet env"
  shows "tx_commit env (s, w) = (Inr (), tick (s\<lparr>sdb := w\<rparr>))"
  using assms by (simp add: quiet_def tx_commit_def)

lemma tick_simps [simp]: "sdb (tick s) = sdb s" "appends (tick s) = appends s" "clk (tick s) = Suc (clk s)"
  by (simp_all add: tick_def)

lemma tick_sdb: "tick (s\<lparr>sdb := d\<rparr>) = (tick s)\<lparr>sdb := d\<rparr>"
  by (simp add: tick_def)

lemma others_simps [simp]: "clk (others env s) = clk s" "appends (others env s) = appends s"
  by (simp_all add: others_def)

lemma sdb_others: "sdb (others env s) = interfere env (clk s) (sdb s)"
  by (simp add: others_def)

lemma sys_same_db [simp]: "s\<lparr>sdb := sdb s\<rparr> = s"
  by (cases s) simp

end
