(* ===== verification/Refuse.thy ===== *)
theory Refuse
  imports Log_Ids
begin

text \<open>
  The checks of \<open>refuse.go\<close>: what is refused before a statement runs, and how a statement
  that matched no row is diagnosed afterwards. All of them are functions of values.
\<close>

section \<open>Fencing\<close>

definition checkFence :: "LogID \<Rightarrow> Epoch \<Rightarrow> goerr option" where
  "checkFence lid epoch =
     (case checkLogID lid of
        Some err \<Rightarrow> Some err
      | None \<Rightarrow> if epoch = 0 then Some (Sentinel ErrZeroEpoch) else None)"

definition fenceRefusal :: "LogID \<Rightarrow> Epoch \<Rightarrow> Epoch \<Rightarrow> goerr option" where
  "fenceRefusal lid held epoch = (if held > epoch then Some (Sentinel ErrFenced) else None)"

lemma checkFence_None_iff: "checkFence lid epoch = None \<longleftrightarrow> storable_id lid \<and> epoch \<noteq> 0"
  by (auto simp: checkFence_def checkLogID_None_iff [symmetric] split: option.splits)

section \<open>Appending\<close>

definition checkAppend :: "LogID \<Rightarrow> Epoch \<Rightarrow> Seqno \<Rightarrow> nat \<Rightarrow> goerr + Seqno" where
  "checkAppend lid epoch first payloads =
     (case checkLogID lid of
        Some err \<Rightarrow> Inl err
      | None \<Rightarrow>
          if epoch = 0 then Inl (Sentinel ErrZeroEpoch)
          else if first < FirstSeqno then Inl (SeqnoBelowFirst first)
          else if payloads = 0 then Inl NoPayloads
          else Inr (first + of_nat payloads - 1))"

record appendState =
  owner :: Epoch
  written :: Seqno

text \<open>Go's zero value \<open>appendState{}\<close>.\<close>

definition no_appendState :: appendState where
  "no_appendState = \<lparr>owner = 0, written = 0\<rparr>"

definition appendRefusal :: "LogID \<Rightarrow> Epoch \<Rightarrow> Seqno \<Rightarrow> Seqno \<Rightarrow> appendState \<Rightarrow> goerr option" where
  "appendRefusal lid epoch first lst found =
     (if owner found = 0 then Some (Sentinel ErrFenced)
      else if owner found \<noteq> epoch then Some (Sentinel ErrFenced)
      else if written found \<ge> first then Some (Sentinel ErrAlreadyWritten)
      else if written found < first - 1 then Some (Sentinel ErrGap)
      else None)"

lemma first_nonzero: "\<not> first < FirstSeqno \<longleftrightarrow> first \<noteq> 0"
  by (simp add: FirstSeqno_def u64_one_le not_less)

lemma checkAppend_Inr_iff:
  "checkAppend lid epoch first n = Inr lst \<longleftrightarrow>
     storable_id lid \<and> epoch \<noteq> 0 \<and> first \<noteq> 0 \<and> n \<noteq> 0 \<and> lst = first + of_nat n - 1"
  by (auto simp: checkAppend_def checkLogID_None_iff [symmetric] split: option.splits)
    (use first_nonzero in blast)+

text \<open>
  The refusals that apply to an append, as a set and in no order: the log is not this
  epoch's, a seqno of the batch is taken, the entry below the batch is missing.
\<close>

definition applicable_refusals :: "Epoch \<Rightarrow> Seqno \<Rightarrow> appendState \<Rightarrow> sentinel set" where
  "applicable_refusals epoch first found =
     {s. s = ErrFenced \<and> owner found \<noteq> epoch
       \<or> s = ErrAlreadyWritten \<and> uint first \<le> uint (written found)
       \<or> s = ErrGap \<and> uint (written found) + 1 < uint first}"

lemma finite_applicable: "finite (applicable_refusals epoch first found)"
  by (rule finite_subset [of _ "{ErrFenced, ErrAlreadyWritten, ErrGap}"])
    (auto simp: applicable_refusals_def)

lemma applicable_empty_iff:
  "applicable_refusals epoch first found = {} \<longleftrightarrow>
     owner found = epoch \<and> uint (written found) + 1 = uint first"
  (is "?A = {} \<longleftrightarrow> _")
proof -
  have "?A = {} \<longleftrightarrow> ErrFenced \<notin> ?A \<and> ErrAlreadyWritten \<notin> ?A \<and> ErrGap \<notin> ?A"
    by (auto simp: applicable_refusals_def)
  also have "\<dots> \<longleftrightarrow> owner found = epoch \<and> uint (written found) + 1 = uint first"
    by (auto simp: applicable_refusals_def)
  finally show ?thesis .
qed

lemma appendRefusal_Min:
  assumes "epoch \<noteq> 0" and "first \<noteq> 0"
  shows "appendRefusal lid epoch first lst found =
    (if applicable_refusals epoch first found = {} then None
     else Some (Sentinel (Min (applicable_refusals epoch first found))))"
proof -
  let ?A = "applicable_refusals epoch first found"
  have min: "Min ?A = s" if "s \<in> ?A" "\<And>t. t \<in> ?A \<Longrightarrow> s \<le> t" for s
    using that finite_applicable by (intro Min_eqI) auto
  have w: "written found \<ge> first \<longleftrightarrow> uint first \<le> uint (written found)"
    "written found < first - 1 \<longleftrightarrow> uint (written found) + 1 < uint first"
    using assms(2) by (auto simp: word_le_def word_less_def uint_pred)
  consider (fenced) "owner found \<noteq> epoch" | (wr) "owner found = epoch" "uint first \<le> uint (written found)"
    | (gap) "owner found = epoch" "uint (written found) + 1 < uint first"
    | (none) "owner found = epoch" "uint (written found) + 1 = uint first" by linarith
  then show ?thesis
  proof cases
    case fenced
    then have "Min ?A = ErrFenced"
      by (intro min) (auto simp: applicable_refusals_def sentinel_order)
    then show ?thesis using fenced by (auto simp: appendRefusal_def applicable_empty_iff)
  next
    case wr
    then have "Min ?A = ErrAlreadyWritten"
      by (intro min) (auto simp: applicable_refusals_def sentinel_order)
    then show ?thesis using wr assms(1) by (auto simp: appendRefusal_def applicable_empty_iff w)
  next
    case gap
    then have "Min ?A = ErrGap"
      by (intro min) (auto simp: applicable_refusals_def sentinel_order)
    then show ?thesis using gap assms(1) by (auto simp: appendRefusal_def applicable_empty_iff w)
  next
    case none
    then show ?thesis using assms(1) by (auto simp: appendRefusal_def applicable_empty_iff w)
  qed
qed

section \<open>Trimming and reading\<close>

definition checkTrim :: "LogID \<Rightarrow> Seqno \<Rightarrow> goerr + bool" where
  "checkTrim lid upTo =
     (case checkLogID lid of Some err \<Rightarrow> Inl err | None \<Rightarrow> Inr (upTo \<ge> FirstSeqno))"

definition checkRead :: "LogID \<Rightarrow> Seqno \<Rightarrow> int \<Rightarrow> goerr + Seqno" where
  "checkRead lid from limit =
     (case checkLogID lid of
        Some err \<Rightarrow> Inl err
      | None \<Rightarrow> if limit \<le> 0 then Inl (LimitNotPositive limit) else Inr (max from FirstSeqno))"

end
