(* ===== verification/Store_Ops.thy ===== *)
theory Store_Ops
  imports Driver Refuse
begin

text \<open>
  The operations of \<open>store.go\<close>, handler by handler: every call to the database in the order
  the code makes it, every early return, and the statement cache. A \<open>Store\<close> over a pool is a
  \<open>sys\<close>; an operation takes the environment its calls run in and gives the answer and the
  \<open>sys\<close> afterwards.
\<close>

section \<open>The statement cache\<close>

definition remember :: "LogID \<Rightarrow> int \<Rightarrow> sys \<Rightarrow> append_sql \<times> sys" where
  "remember lid ord s =
     (case appends s lid of
        Some sql \<Rightarrow> (sql, s)
      | None \<Rightarrow> (appendSQL ord, s\<lparr>appends := (appends s)(lid \<mapsto> appendSQL ord)\<rparr>))"

text \<open>\<open>Inr None\<close> is the answer "not known": no error, and no such log.\<close>

definition appendFor :: "env \<Rightarrow> LogID \<Rightarrow> sys \<Rightarrow> (goerr + append_sql option) \<times> sys" where
  "appendFor env lid s =
     (case appends s lid of
        Some sql \<Rightarrow> (Inr (Some sql), s)
      | None \<Rightarrow>
          (case query_row env (sql_select (\<lambda>r. log_id r = lid)) s of
             (Inl err, s1) \<Rightarrow> if err = ErrNoRows then (Inr None, s1) else (Inl err, s1)
           | (Inr r, s1) \<Rightarrow> let (sql, s2) = remember lid (ordinal r) s1 in (Inr (Some sql), s2)))"

definition readState :: "env \<Rightarrow> LogID \<Rightarrow> sys \<Rightarrow> (goerr + logState option) \<times> sys" where
  "readState env lid s =
     (case query_row env (sql_select (\<lambda>r. log_id r = lid)) s of
        (Inl err, s1) \<Rightarrow> if err = ErrNoRows then (Inr None, s1) else (Inl err, s1)
      | (Inr r, s1) \<Rightarrow>
          (case scanLogState env r of
             Inl err \<Rightarrow> (Inl err, s1)
           | Inr st \<Rightarrow> (Inr (Some st), snd (remember lid (st_ordinal st) s1))))"

section \<open>Creating logs\<close>

fun check_ids :: "LogID list \<Rightarrow> goerr option" where
  "check_ids [] = None"
| "check_ids (lid # ids) = (case checkLogID lid of Some err \<Rightarrow> Some err | None \<Rightarrow> check_ids ids)"

text \<open>Where the sequence behind the ordinals stands after an INSERT that failed: an INSERT that ran and whose answer was lost has taken its numbers.\<close>

definition lost_ordinals :: "env \<Rightarrow> LogID list \<Rightarrow> sys \<Rightarrow> int" where
  "lost_ordinals env ids s =
     (case outcome_of env (clk s) of
        Landed _ \<Rightarrow> next_ordinal (snd (sql_insert_logs ids (sdb s)))
      | _ \<Rightarrow> next_ordinal (sdb s))"

text \<open>
  One transaction: the INSERT, the DDL for the rows it returned, the commit. The sequence
  behind the ordinals is not transactional: numbers taken by an INSERT that ran stay taken
  when the transaction does not commit.
\<close>

definition CreateLogs :: "env \<Rightarrow> LogID list \<Rightarrow> sys \<Rightarrow> (goerr + unit) \<times> sys" where
  "CreateLogs env ids s =
     (if ids = [] then (Inr (), s)
      else case check_ids ids of
        Some err \<Rightarrow> (Inl err, s)
      | None \<Rightarrow>
          then_do (pg_call env sql_nop s) (\<lambda>_ s1.
          let s2 = others env s1 in
          case tx_call env (sql_insert_logs ids) (s2, sdb s2) of
            (Inl err, s3, w) \<Rightarrow> (Inl err, s3\<lparr>sdb := (sdb s3)\<lparr>next_ordinal := lost_ordinals env ids s2\<rparr>\<rparr>)
          | (Inr os, s3, w) \<Rightarrow>
              let s4 = s3\<lparr>sdb := (sdb s3)\<lparr>next_ordinal := next_ordinal w\<rparr>\<rparr> in
              (case (if os = [] then (Inr (), s4, w) else tx_call env (sql_create_rings os) (s4, w)) of
                 (Inl err, s5, w') \<Rightarrow> (Inl err, s5)
               | (Inr _, s5, w') \<Rightarrow> tx_commit env (s5, w'))))"

section \<open>Fencing\<close>

definition fenceRefused :: "env \<Rightarrow> LogID \<Rightarrow> Epoch \<Rightarrow> sys \<Rightarrow> (goerr + unit) \<times> sys" where
  "fenceRefused env lid ep s =
     (case query_row env (sql_select (\<lambda>r. log_id r = lid)) s of
        (Inl err, s1) \<Rightarrow> if err = ErrNoRows then (Inl (Sentinel ErrNoSuchLog), s1) else (Inl err, s1)
      | (Inr r, s1) \<Rightarrow>
          (case fenceRefusal lid (uint64 (epoch r)) ep of
             Some err \<Rightarrow> (Inl err, s1)
           | None \<Rightarrow> (Inl RefusedAdmittedFence, s1)))"

definition Fence :: "env \<Rightarrow> LogID \<Rightarrow> Epoch \<Rightarrow> sys \<Rightarrow> (goerr + unit) \<times> sys" where
  "Fence env lid ep s =
     (case checkFence lid ep of
        Some err \<Rightarrow> (Inl err, s)
      | None \<Rightarrow>
          (case query_row env (sql_fence lid (int64 ep)) s of
             (Inl err, s1) \<Rightarrow> if err = ErrNoRows then fenceRefused env lid ep s1 else (Inl err, s1)
           | (Inr r, s1) \<Rightarrow> (Inr (), snd (remember lid (ordinal r) s1))))"

section \<open>Appending\<close>

definition appendRefused :: "env \<Rightarrow> LogID \<Rightarrow> Epoch \<Rightarrow> Seqno \<Rightarrow> Seqno \<Rightarrow> sys \<Rightarrow> (goerr + unit) \<times> sys" where
  "appendRefused env lid ep first lst s =
     (case query_row env (sql_select (\<lambda>r. log_id r = lid)) s of
        (Inl err, s1) \<Rightarrow>
          if err = ErrNoRows then (ret_err (appendRefusal lid ep first lst no_appendState), s1)
          else (Inl err, s1)
      | (Inr r, s1) \<Rightarrow>
          (case appendRefusal lid ep first lst
                  \<lparr>owner = uint64 (epoch r), written = uint64 (last_seqno r)\<rparr> of
             Some refusal \<Rightarrow> (Inl refusal, s1)
           | None \<Rightarrow> (Inl RefusedAdmittedAppend, s1)))"

definition Append :: "env \<Rightarrow> LogID \<Rightarrow> Epoch \<Rightarrow> Seqno \<Rightarrow> bytes list \<Rightarrow> sys \<Rightarrow> (goerr + unit) \<times> sys" where
  "Append env lid ep first payloads s =
     (case checkAppend lid ep first (length payloads) of
        Inl err \<Rightarrow> (Inl err, s)
      | Inr lst \<Rightarrow>
          then_do (appendFor env lid s) (\<lambda>known s1.
          case known of
            None \<Rightarrow> (ret_err (appendRefusal lid ep first lst no_appendState), s1)
          | Some sql \<Rightarrow>
              (case pg_call env (sql_append sql (int64 lst) lid (int64 ep) (int64 (first - 1))
                                   (chunkArrays first payloads)) s1 of
                 (Inl err, s2) \<Rightarrow>
                   if isUndefinedTable err then appendRefused env lid ep first lst s2 else (Inl err, s2)
               | (Inr n, s2) \<Rightarrow>
                   if n = 0 then appendRefused env lid ep first lst s2 else (Inr (), s2))))"

text \<open>
  \<open>Append\<close> on Go's slices, where a payload may be nil: pgx sends a nil slice as NULL, which the column
  \<open>payload\<close> does not take. The statement then fails, and is undone, where its UPDATE matched a row. For
  payloads that are not nil this is \<open>Append\<close>.
\<close>

definition not_null_violation :: string where
  "not_null_violation = ''23502''"

definition with_null :: "nat stmt \<Rightarrow> nat stmt" where
  "with_null stmt d =
     (case stmt d of
        (Inr n, d') \<Rightarrow> if n = 0 then (Inr n, d') else (Inl not_null_violation, d)
      | (Inl c, d') \<Rightarrow> (Inl c, d'))"

definition Append_slices :: "env \<Rightarrow> LogID \<Rightarrow> Epoch \<Rightarrow> Seqno \<Rightarrow> bytes option list \<Rightarrow> sys \<Rightarrow> (goerr + unit) \<times> sys" where
  "Append_slices env lid ep first payloads s =
     (case checkAppend lid ep first (length payloads) of
        Inl err \<Rightarrow> (Inl err, s)
      | Inr lst \<Rightarrow>
          then_do (appendFor env lid s) (\<lambda>known s1.
          case known of
            None \<Rightarrow> (ret_err (appendRefusal lid ep first lst no_appendState), s1)
          | Some sql \<Rightarrow>
              let stmt = sql_append sql (int64 lst) lid (int64 ep) (int64 (first - 1))
                           (chunkArrays first (map (case_option [] id) payloads)) in
              (case pg_call env (if None \<in> set payloads then with_null stmt else stmt) s1 of
                 (Inl err, s2) \<Rightarrow>
                   if isUndefinedTable err then appendRefused env lid ep first lst s2 else (Inl err, s2)
               | (Inr n, s2) \<Rightarrow>
                   if n = 0 then appendRefused env lid ep first lst s2 else (Inr (), s2))))"

lemma Append_slices_given: "Append_slices env lid ep first (map Some ps) = Append env lid ep first ps"
proof
  have "None \<notin> set (map Some ps)" "map (case_option [] id \<circ> Some) ps = ps" by (auto simp: comp_def)
  then show "Append_slices env lid ep first (map Some ps) s = Append env lid ep first ps s" for s
    by (simp only: Append_slices_def Append_def Let_def length_map map_map if_False)
qed

section \<open>Reading\<close>

definition ReadFrom :: "env \<Rightarrow> LogID \<Rightarrow> Seqno \<Rightarrow> int \<Rightarrow> sys \<Rightarrow> (goerr + Entry list) \<times> sys" where
  "ReadFrom env lid frm limit s =
     (case checkRead lid frm limit of
        Inl err \<Rightarrow> (Inl err, s)
      | Inr from' \<Rightarrow>
          then_do (readState env lid s) (\<lambda>found s1.
          case found of
            None \<Rightarrow> (Inr [], s1)
          | Some st \<Rightarrow>
              let lo = max from' (trimUpto st + 1);
                  hi = lo + uint64 limit - 1
              in then_do (pg_call env (sql_read (ringTables (st_ordinal st) ! 0) (ringTables (st_ordinal st) ! 1)
                                         (int64 lo) (int64 hi)) s1)
                   (\<lambda>rows s2. (collect_rows rows [], s2))))"

definition NextSeqno :: "env \<Rightarrow> LogID \<Rightarrow> sys \<Rightarrow> (goerr + Seqno) \<times> sys" where
  "NextSeqno env lid s =
     (case checkLogID lid of
        Some err \<Rightarrow> (Inl err, s)
      | None \<Rightarrow>
          then_do (readState env lid s) (\<lambda>found s1.
          case found of
            None \<Rightarrow> (Inl (Sentinel ErrNoSuchLog), s1)
          | Some st \<Rightarrow> (Inr (lastSeqno st + 1), s1)))"

section \<open>Trimming and reclaiming\<close>

text \<open>
  The part of \<open>reclaim\<close> between the row lock and the commit, on the transaction's copy of
  the tables: the re-read row decides, the truncate and the turn follow.
\<close>

definition reclaim_truncate :: "env \<Rightarrow> logState \<Rightarrow> sys \<times> db \<Rightarrow> (goerr + unit) \<times> sys \<times> db" where
  "reclaim_truncate env cur sw =
     then_do (tx_call env (sql_truncate (entriesTable (st_ordinal cur) (prevSlot cur))) sw) (\<lambda>_ sw1.
     then_do (tx_call env (sql_clear_prev (st_ordinal cur)) sw1) (\<lambda>_ sw2. (Inr (), sw2)))"

definition reclaim_rotate :: "env \<Rightarrow> logState \<Rightarrow> sys \<times> db \<Rightarrow> (goerr + unit) \<times> sys \<times> db" where
  "reclaim_rotate env cur sw =
     then_do (tx_call env (sql_rotate (st_ordinal cur)) sw) (\<lambda>_ sw1. (Inr (), sw1))"

definition reclaim_locked :: "env \<Rightarrow> int \<Rightarrow> bool \<Rightarrow> sys \<times> db \<Rightarrow> (goerr + unit) \<times> sys \<times> db" where
  "reclaim_locked env ord wantTruncate sw =
     then_do (tx_call env (sql_reread ord) sw) (\<lambda>rows sw1.
     case bind_ok (first_row rows) (scanLogState env) of
       Inl err \<Rightarrow> (Inl err, sw1)
     | Inr cur \<Rightarrow>
         let (doTruncate, doRotate) = reclaimSteps cur wantTruncate in
         then_do (if doTruncate then reclaim_truncate env cur sw1 else (Inr (), sw1)) (\<lambda>_ sw2.
         if doRotate then reclaim_rotate env cur sw2 else (Inr (), sw2)))"

text \<open>The table locks, then that part, then the commit.\<close>

definition reclaim_tx :: "env \<Rightarrow> logState \<Rightarrow> bool \<Rightarrow> sys \<Rightarrow> (goerr + unit) \<times> sys" where
  "reclaim_tx env st wantTruncate s =
     (case (if wantTruncate then pg_call env (sql_lock_tables (ringTables (st_ordinal st))) s else (Inr (), s)) of
        (Inl err, s1) \<Rightarrow>
          if isLockNotAvailable err then (Inl (Sentinel ErrLockUnavailable), s1) else (Inl err, s1)
      | (Inr _, s1) \<Rightarrow>
          let s2 = others env s1 in
          (case reclaim_locked env (st_ordinal st) wantTruncate (s2, sdb s2) of
             (Inl err, s3, w) \<Rightarrow> (Inl err, s3)
           | (Inr _, s3, w) \<Rightarrow> tx_commit env (s3, w)))"

definition reclaim :: "env \<Rightarrow> logState \<Rightarrow> sys \<Rightarrow> (goerr + unit) \<times> sys" where
  "reclaim env st s =
     (let (wantTruncate, wantRotate) = reclaimSteps st True in
      if \<not> wantTruncate \<and> \<not> wantRotate then (Inr (), s)
      else
        then_do (pg_call env sql_nop s) (\<lambda>_ s1.
        then_do (pg_call env sql_nop s1) (\<lambda>_ s2. reclaim_tx env st wantTruncate s2)))"

definition Trim :: "env \<Rightarrow> LogID \<Rightarrow> Seqno \<Rightarrow> sys \<Rightarrow> (goerr + unit) \<times> sys" where
  "Trim env lid upTo s =
     (case checkTrim lid upTo of
        Inl err \<Rightarrow> (Inl err, s)
      | Inr proceed \<Rightarrow>
          if \<not> proceed then (Inr (), s)
          else
            (let (r, s1) = query_row env (sql_trim (int64 upTo) lid) s in
             case bind_ok r (scanLogState env) of
               Inl err \<Rightarrow> if err = ErrNoRows then (Inr (), s1) else (Inl err, s1)
             | Inr st \<Rightarrow>
                 (case reclaim env st s1 of
                    (Inl err, s2) \<Rightarrow>
                      if errors_Is err ErrLockUnavailable then (Inr (), s2) else (Inl err, s2)
                  | (Inr _, s2) \<Rightarrow> (Inr (), s2))))"

end
