(* ===== verification/Log_Spec.thy ===== *)
theory Log_Spec
  imports Store_Ops
begin

text \<open>
  What a log promises, without tables: an owning epoch, everything ever appended, and how much
  of it a trim has taken. Then the relation between this and the rows PostgreSQL holds, and the
  facts about runs of rows that the proofs of the statements share.
\<close>

section \<open>The abstract log\<close>

text \<open>
  \<open>a_hist ! i\<close> is the entry of seqno \<open>i + 1\<close>, its epoch and its payload; entries at or
  below \<open>a_trim\<close> are gone for readers.
\<close>

record alog =
  a_owner :: int
  a_trim :: nat
  a_hist :: "(int \<times> bytes) list"

definition new_log :: alog where
  "new_log = \<lparr>a_owner = 0, a_trim = 0, a_hist = []\<rparr>"

text \<open>The changes a log can undergo: a fence, an append by its owner, a trim.\<close>

inductive log_step :: "alog \<Rightarrow> alog \<Rightarrow> bool" where
  log_fence: "0 < e \<Longrightarrow> a_owner l \<le> e \<Longrightarrow> log_step l (l\<lparr>a_owner := e\<rparr>)"
| log_append: "0 < a_owner l \<Longrightarrow> ps \<noteq> [] \<Longrightarrow>
     log_step l (l\<lparr>a_hist := a_hist l @ map (Pair (a_owner l)) ps\<rparr>)"
| log_trim: "a_trim l \<le> n \<Longrightarrow> n \<le> length (a_hist l) \<Longrightarrow> log_step l (l\<lparr>a_trim := n\<rparr>)"

text \<open>A schema of logs: one may be created, or one of them changes.\<close>

type_synonym logs = "LogID \<Rightarrow> alog option"

inductive logs_step :: "logs \<Rightarrow> logs \<Rightarrow> bool" where
  logs_create: "A lid = None \<Longrightarrow> logs_step A (A(lid \<mapsto> new_log))"
| logs_change: "A lid = Some l \<Longrightarrow> log_step l l' \<Longrightarrow> logs_step A (A(lid \<mapsto> l'))"

abbreviation logs_steps :: "logs \<Rightarrow> logs \<Rightarrow> bool" where
  "logs_steps \<equiv> logs_step\<^sup>*\<^sup>*"

text \<open>One log later than another: the same history and maybe more, a higher owner and mark.\<close>

definition log_le :: "alog \<Rightarrow> alog \<Rightarrow> bool" where
  "log_le l l' \<longleftrightarrow>
     a_owner l \<le> a_owner l' \<and> a_trim l \<le> a_trim l' \<and> (\<exists>h. a_hist l' = a_hist l @ h)"

definition logs_le :: "logs \<Rightarrow> logs \<Rightarrow> bool" where
  "logs_le A A' \<longleftrightarrow> (\<forall>lid l. A lid = Some l \<longrightarrow> (\<exists>l'. A' lid = Some l' \<and> log_le l l'))"

lemma log_le_refl [simp]: "log_le l l"
  by (simp add: log_le_def)

lemma log_le_trans: "log_le a b \<Longrightarrow> log_le b c \<Longrightarrow> log_le a c"
  by (auto simp: log_le_def)

lemma log_step_le: "log_step l l' \<Longrightarrow> log_le l l'"
  by (induction rule: log_step.induct) (auto simp: log_le_def)

text \<open>
  A relation that every step of a system keeps within is kept by its runs; an invariant that
  every step keeps holds after any run. Stated once for any step relation.
\<close>

locale monotone_steps =
  fixes step :: "'s \<Rightarrow> 's \<Rightarrow> bool" and le :: "'s \<Rightarrow> 's \<Rightarrow> bool"
  assumes le_refl: "le s s"
    and le_trans: "le a b \<Longrightarrow> le b c \<Longrightarrow> le a c"
    and step_le: "step s t \<Longrightarrow> le s t"
begin

lemma steps_le: "step\<^sup>*\<^sup>* s t \<Longrightarrow> le s t"
  by (induction rule: rtranclp_induct) (auto intro: le_refl le_trans step_le)

end

interpretation logs_mono: monotone_steps logs_step logs_le
proof
  show "logs_le s s" for s by (auto simp: logs_le_def)
  show "logs_le a b \<Longrightarrow> logs_le b c \<Longrightarrow> logs_le a c" for a b c
    unfolding logs_le_def by (meson log_le_trans)
  show "logs_step s t \<Longrightarrow> logs_le s t" for s t
    by (induction rule: logs_step.induct) (auto simp: logs_le_def log_step_le)
qed

text \<open>A log that exists goes on existing, further along.\<close>

lemma logs_steps_later:
  assumes "logs_steps A A'" "A lid = Some l"
  obtains l' where "A' lid = Some l'" "log_le l l'"
  using logs_mono.steps_le [OF assms(1)] assms(2) by (auto simp: logs_le_def)

section \<open>Runs of rows\<close>

definition entry_at :: "(int \<times> bytes) list \<Rightarrow> nat \<Rightarrow> entry_row list" where
  "entry_at h s = entry_rows (int s) (fst (h ! (s - 1))) (snd (h ! (s - 1)))"

text \<open>The rows of the entries with seqnos from \<open>a\<close> up to but not including \<open>b\<close>.\<close>

definition run_rows :: "(int \<times> bytes) list \<Rightarrow> nat \<Rightarrow> nat \<Rightarrow> entry_row list" where
  "run_rows h a b = concat (map (entry_at h) [a..<b])"

lemma run_rows_empty [simp]: "b \<le> a \<Longrightarrow> run_rows h a b = []"
  by (simp add: run_rows_def)

lemma run_rows_extend:
  assumes "1 \<le> a" "b \<le> Suc (length h)"
  shows "run_rows (h @ h') a b = run_rows h a b"
proof -
  have "map (entry_at (h @ h')) [a..<b] = map (entry_at h) [a..<b]"
    using assms by (intro map_cong) (auto simp: entry_at_def nth_append)
  then show ?thesis by (simp only: run_rows_def)
qed

lemma run_rows_split:
  assumes "a \<le> m" "m \<le> b"
  shows "run_rows h a b = run_rows h a m @ run_rows h m b"
proof -
  have "[a..<b] = [a..<m] @ [m..<b]"
    using assms upt_add_eq_append [of a m "b - m"] by simp
  then show ?thesis by (simp add: run_rows_def)
qed

lemma run_rows_new:
  "run_rows (h @ map (Pair e) ps) (Suc (length h)) (Suc (length h) + length ps) =
     concat (map (\<lambda>(k, p). entry_rows (int (Suc (length h) + k)) e p) (enumerate 0 ps))"
proof -
  have "map (entry_at (h @ map (Pair e) ps)) [Suc (length h)..<Suc (length h) + length ps]
    = map (\<lambda>(k, p). entry_rows (int (Suc (length h) + k)) e p) (enumerate 0 ps)"
    by (rule nth_equalityI) (auto simp: entry_at_def nth_append nth_enumerate_eq simp del: upt_Suc)
  then show ?thesis by (simp only: run_rows_def)
qed

lemma entry_at_seqno: "r \<in> set (entry_at h s) \<Longrightarrow> row_seqno r = int s"
  by (simp add: entry_at_def)

lemma filter_entry_at:
  "filter (\<lambda>r. P (row_seqno r)) (entry_at h s) = (if P (int s) then entry_at h s else [])"
  by (auto simp: entry_at_seqno filter_id_conv filter_empty_conv)

lemma filter_concat_entries:
  "filter (\<lambda>r. P (row_seqno r)) (concat (map (entry_at h) ss)) =
     concat (map (entry_at h) (filter (\<lambda>s. P (int s)) ss))"
  by (induction ss) (auto simp: filter_entry_at)

lemma filter_upt_between:
  "filter (\<lambda>s. lo \<le> int s \<and> int s \<le> hi) [a..<b] = [max a (nat lo)..<min b (nat (hi + 1))]"
proof (rule sorted_distinct_set_unique)
  show "set (filter (\<lambda>s. lo \<le> int s \<and> int s \<le> hi) [a..<b])
    = set [max a (nat lo)..<min b (nat (hi + 1))]" by auto
qed (auto intro: sorted_wrt_filter)

lemma filter_run_rows:
  "filter (\<lambda>r. lo \<le> row_seqno r \<and> row_seqno r \<le> hi) (run_rows h a b) =
     run_rows h (max a (nat lo)) (min b (nat (hi + 1)))"
  using filter_concat_entries [of "\<lambda>n. lo \<le> n \<and> n \<le> hi"]
  by (simp add: run_rows_def filter_upt_between)

text \<open>\<open>ORDER BY seqno, chunk\<close> on a run whose payloads the chunk numbers reach.\<close>

lemma part_rows_keys:
  assumes "k + length ps \<le> 32768"
  shows "map row_key (part_rows s e k ps) = map (\<lambda>i. (s, int i)) [k..<k + length ps]"
  using assms
proof (induction ps arbitrary: k)
  case Nil
  then show ?case by simp
next
  case (Cons p ps)
  then have "[k..<k + length (p # ps)] = k # [Suc k..<Suc k + length ps]"
    by (simp add: upt_conv_Cons del: upt_Suc)
  with Cons show ?case by (simp add: row_key_def int16_small del: upt_Suc)
qed

lemma entry_at_keys:
  assumes "readable (snd (h ! (s - 1)))"
  shows "map row_key (entry_at h s) = map (\<lambda>i. (int s, int i)) [0..<rowsOf (snd (h ! (s - 1)))]"
  using assms by (simp add: entry_at_def entry_rows_def readable_def part_rows_keys length_chunksOf)

definition run_readable :: "(int \<times> bytes) list \<Rightarrow> nat \<Rightarrow> nat \<Rightarrow> bool" where
  "run_readable h a b \<longleftrightarrow> (\<forall>s \<in> {a..<b}. readable (snd (h ! (s - 1))))"

lemma run_readable_all:
  assumes "list_all (readable \<circ> snd) h" "1 \<le> a" "b \<le> Suc (length h)"
  shows "run_readable h a b"
proof -
  have "h ! (s - 1) \<in> set h" if "s \<in> {a..<b}" for s
    using that assms(2,3) by auto
  then show ?thesis using assms(1) by (auto simp: run_readable_def list_all_iff)
qed

lemma run_rows_keys:
  assumes "run_readable h a b"
  shows "sorted (map row_key (run_rows h a b)) \<and> distinct (map row_key (run_rows h a b))"
  using assms
proof (induction b)
  case 0
  then show ?case by simp
next
  case (Suc b)
  then have rb: "run_readable h a b" by (auto simp: run_readable_def)
  show ?case
  proof (cases "a \<le> b")
    case True
    then have "readable (snd (h ! (b - 1)))" using Suc.prems by (auto simp: run_readable_def)
    then have keys: "map row_key (entry_at h b) = map (\<lambda>i. (int b, int i)) [0..<rowsOf (snd (h ! (b - 1)))]"
      by (rule entry_at_keys)
    let ?K = "map row_key (run_rows h a b)"
      and ?L = "map (\<lambda>i. (int b, int i)) [0..<rowsOf (snd (h ! (b - 1)))]"
    have below: "fst k < int b" if "k \<in> set ?K" for k
      using that by (auto simp: run_rows_def row_key_def entry_at_seqno)
    have "run_rows h a (Suc b) = run_rows h a b @ entry_at h b"
      using run_rows_split [of a b "Suc b" h] True by (simp add: run_rows_def)
    then have eq: "map row_key (run_rows h a (Suc b)) = ?K @ ?L"
      by (simp only: map_append keys)
    have L: "sorted ?L" "distinct ?L"
      by (auto simp: sorted_iff_nth_mono distinct_map inj_on_def)
    have le: "\<forall>x \<in> set ?K. \<forall>y \<in> set ?L. x \<le> y"
      using below by (fastforce simp: less_eq_prod_def)
    have "set ?K \<inter> set ?L = {}" using below by fastforce
    moreover have IH: "sorted ?K" "distinct ?K" using Suc.IH [OF rb] by simp_all
    ultimately show ?thesis
      unfolding eq using L le by (simp only: sorted_append distinct_append)
  next
    case False
    then show ?thesis by simp
  qed
qed

lemma sort_run_rows:
  assumes "run_readable h a b" "mset xs = mset (run_rows h a b)"
  shows "sort_key row_key xs = run_rows h a b"
proof (rule sort_key_inj_key_eq)
  show "mset xs = mset (run_rows h a b)" by (fact assms(2))
  then have "set xs = set (run_rows h a b)" by (rule mset_eq_setD)
  then show "inj_on row_key (set xs)"
    using run_rows_keys [OF assms(1)] by (simp add: distinct_map)
  show "sorted (map row_key (run_rows h a b))" using run_rows_keys [OF assms(1)] by simp
qed

text \<open>The entries a reader gets for a run.\<close>

definition entry_of :: "(int \<times> bytes) list \<Rightarrow> nat \<Rightarrow> Entry" where
  "entry_of h s = \<lparr>Seqno = uint64 (int s), Epoch = uint64 (fst (h ! (s - 1))), Payload = snd (h ! (s - 1))\<rparr>"

lemma collect_entries:
  assumes "\<And>s. s \<in> set ss \<Longrightarrow> readable (snd (h ! (s - 1)))"
  shows "collect_rows (concat (map (entry_at h) ss)) es = Inr (es @ map (entry_of h) ss)"
  using assms
proof (induction ss arbitrary: es)
  case Nil
  then show ?case by simp
next
  case (Cons s ss)
  then have "readable (snd (h ! (s - 1)))" by simp
  then have "collect_rows (concat (map (entry_at h) (s # ss))) es =
      collect_rows (concat (map (entry_at h) ss)) (es @ [entry_of h s])"
    by (simp add: entry_at_def entry_of_def collect_entry_rows)
  also have "\<dots> = Inr (es @ map (entry_of h) (s # ss))"
    using Cons by simp
  finally show ?case .
qed

lemma collect_run_rows:
  assumes "run_readable h a b"
  shows "collect_rows (run_rows h a b) [] = Inr (map (entry_of h) [a..<b])"
  using assms collect_entries [of "[a..<b]" h "[]"] by (simp add: run_readable_def run_rows_def)

section \<open>How a row and two tables represent a log\<close>

text \<open>The columns of a row, as the ring and the store rely on them.\<close>

definition row_ok :: "reg_row \<Rightarrow> bool" where
  "row_ok r \<longleftrightarrow>
     0 \<le> epoch r \<and> epoch r \<le> bigint_max \<and> 0 \<le> trim_upto r \<and> trim_upto r \<le> last_seqno r \<and>
     last_seqno r < bigint_max \<and> (cur_slot r = 0 \<or> cur_slot r = 1) \<and>
     1 \<le> cur_lo r \<and> cur_lo r \<le> last_seqno r + 1 \<and> (prev_hi r = 0 \<or> prev_hi r = cur_lo r - 1)"

text \<open>
  The live half holds exactly the rows from \<open>cur_lo\<close> on; the other half holds an unbroken run
  that ends below \<open>cur_lo\<close> and starts at or below the first visible seqno, and holds nothing
  when \<open>prev_hi\<close> is 0.
\<close>

definition ring_holds :: "(int \<times> bytes) list \<Rightarrow> reg_row \<Rightarrow> (string \<Rightarrow> entry_row list option) \<Rightarrow> bool" where
  "ring_holds h r T \<longleftrightarrow>
     T (entriesTable (ordinal r) (cur_slot r)) = Some (run_rows h (nat (cur_lo r)) (Suc (length h))) \<and>
     (\<exists>plo. 1 \<le> plo \<and> plo \<le> nat (cur_lo r) \<and> int plo \<le> trim_upto r + 1 \<and>
        (prev_hi r = 0 \<longrightarrow> plo = nat (cur_lo r)) \<and>
        T (entriesTable (ordinal r) (1 - cur_slot r)) = Some (run_rows h plo (nat (cur_lo r))))"

text \<open>Epochs never decrease along a log, and its owner's is at least the last.\<close>

definition epochs_ok :: "(int \<times> bytes) list \<Rightarrow> int \<Rightarrow> bool" where
  "epochs_ok h own \<longleftrightarrow> sorted (map fst h) \<and> (\<forall>x \<in> set h. 0 < fst x \<and> fst x \<le> own)"

definition log_rel :: "alog \<Rightarrow> reg_row \<Rightarrow> (string \<Rightarrow> entry_row list option) \<Rightarrow> bool" where
  "log_rel l r T \<longleftrightarrow>
     row_ok r \<and> a_owner l = epoch r \<and> int (a_trim l) = trim_upto r \<and>
     int (length (a_hist l)) = last_seqno r \<and> epochs_ok (a_hist l) (epoch r) \<and> ring_holds (a_hist l) r T"

definition db_rel :: "logs \<Rightarrow> db \<Rightarrow> bool" where
  "db_rel A d \<longleftrightarrow>
     (\<exists>rows. registry d = Some rows \<and> distinct (map log_id rows) \<and> distinct (map ordinal rows) \<and>
        (\<forall>r \<in> set rows. ordinal r < next_ordinal d) \<and> dom A = log_id ` set rows \<and>
        (\<forall>r \<in> set rows. \<exists>l. A (log_id r) = Some l \<and> log_rel l r (tables d))) \<and>
     (\<forall>ord s. next_ordinal d \<le> ord \<longrightarrow> tables d (entriesTable ord s) = None)"

lemma log_rel_tables_cong:
  assumes "\<And>s. T (entriesTable (ordinal r) s) = T' (entriesTable (ordinal r) s)"
  shows "log_rel l r T = log_rel l r T'"
  using assms by (simp add: log_rel_def ring_holds_def)

end
