(* ===== verification/Statements.thy ===== *)
theory Statements
  imports Log_Spec
begin

text \<open>
  What each SQL statement does to tables that represent logs: on the registry it is an update
  of at most one row, and on the abstract logs it is a fence, an append, a trim, a creation, or
  no change at all.
\<close>

section \<open>One row of the registry\<close>

definition find_log :: "LogID \<Rightarrow> db \<Rightarrow> reg_row option" where
  "find_log lid d = (case registry d of None \<Rightarrow> None | Some rows \<Rightarrow> find (\<lambda>r. log_id r = lid) rows)"

definition upd_log :: "LogID \<Rightarrow> (reg_row \<Rightarrow> reg_row) \<Rightarrow> db \<Rightarrow> db" where
  "upd_log lid f d =
     d\<lparr>registry := map_option (map (\<lambda>r. if log_id r = lid then f r else r)) (registry d)\<rparr>"

text \<open>The registry's constraints: its primary key and its unique ordinals.\<close>

definition keys_ok :: "db \<Rightarrow> bool" where
  "keys_ok d \<longleftrightarrow>
     (\<exists>rows. registry d = Some rows \<and> distinct (map log_id rows) \<and> distinct (map ordinal rows))"

lemma upd_log_simps [simp]:
  "tables (upd_log lid f d) = tables d" "next_ordinal (upd_log lid f d) = next_ordinal d"
  "version_table (upd_log lid f d) = version_table d"
  by (simp_all add: upd_log_def)

lemma upd_log_id: "upd_log lid (\<lambda>r. r) d = d"
  by (simp add: upd_log_def option.map_ident cong: if_cong)

lemma sql_select_log:
  assumes "keys_ok d"
  shows "sql_select (\<lambda>r. log_id r = lid) d = (Inr (case find_log lid d of None \<Rightarrow> [] | Some r \<Rightarrow> [r]), d)"
proof -
  from assms obtain rows where "registry d = Some rows" "distinct (map log_id rows)"
    by (auto simp: keys_ok_def)
  then show ?thesis
    using filter_distinct_key [of log_id rows lid "\<lambda>_. True"]
    by (simp add: sql_select_def find_log_def split: option.splits)
qed

lemma sql_update_log:
  assumes "keys_ok d"
  shows "sql_update (\<lambda>r. log_id r = lid \<and> P r) f d =
    (case find_log lid d of
       None \<Rightarrow> (Inr [], d)
     | Some r \<Rightarrow> if P r then (Inr [f r], upd_log lid f d) else (Inr [], d))"
proof -
  from assms obtain rows where reg: "registry d = Some rows" and ids: "distinct (map log_id rows)"
    by (auto simp: keys_ok_def)
  have flt: "filter (\<lambda>r. log_id r = lid \<and> P r) rows = (case find_log lid d of
      None \<Rightarrow> [] | Some r \<Rightarrow> if P r then [r] else [])"
    using filter_distinct_key [OF ids] by (simp add: find_log_def reg)
  have upd: "map (\<lambda>x. if log_id x = lid \<and> P x then f x else x) rows =
      (if \<exists>r. find_log lid d = Some r \<and> P r
       then map (\<lambda>x. if log_id x = lid then f x else x) rows else rows)"
    (is "map ?g rows = _")
  proof (cases "\<exists>r. find_log lid d = Some r \<and> P r")
    case True
    then obtain r where r: "find_log lid d = Some r" "P r" by blast
    have "P x" if "x \<in> set rows" "log_id x = lid" for x
      using find_key_distinct [OF ids that(1)] r that(2) by (simp add: find_log_def reg)
    with True show ?thesis by auto
  next
    case False
    have "?g x = x" if "x \<in> set rows" for x
      using find_key_distinct [OF ids that] False by (auto simp: find_log_def reg)
    then have "map ?g rows = rows" by (rule map_idI)
    with False show ?thesis by (simp only: if_False)
  qed
  show ?thesis
    unfolding sql_update_def reg option.case flt upd
    by (auto simp: upd_log_def reg split: option.splits)
qed

lemma sql_update_log_all:
  assumes "keys_ok d"
  shows "sql_update (\<lambda>r. log_id r = lid) f d =
    (case find_log lid d of None \<Rightarrow> (Inr [], d) | Some r \<Rightarrow> (Inr [f r], upd_log lid f d))"
  using sql_update_log [OF assms, of lid "\<lambda>_. True" f]
  by (simp split: option.splits)

lemma sql_update_ordinal:
  assumes "keys_ok d" "find_log lid d = Some r"
  shows "sql_update (\<lambda>x. ordinal x = ordinal r) f d = (Inr [f r], upd_log lid f d)"
proof -
  from assms obtain rows where reg: "registry d = Some rows"
    and ids: "distinct (map log_id rows)" and ords: "distinct (map ordinal rows)"
    by (auto simp: keys_ok_def)
  from assms(2) reg have r: "r \<in> set rows" "log_id r = lid"
    by (auto simp: find_log_def dest: find_key_Some)
  have same: "ordinal x = ordinal r \<longleftrightarrow> log_id x = lid" if "x \<in> set rows" for x
    using distinct_key_eq [OF ids that r(1)] distinct_key_eq [OF ords that r(1)] r(2) by auto
  have "filter (\<lambda>x. ordinal x = ordinal r) rows = filter (\<lambda>x. log_id x = lid) rows"
    using same by (intro filter_cong) auto
  moreover have "map (\<lambda>x. if ordinal x = ordinal r then f x else x) rows
      = map (\<lambda>x. if log_id x = lid then f x else x) rows"
    using same by (intro map_cong) auto
  ultimately have "sql_update (\<lambda>x. ordinal x = ordinal r) f d = sql_update (\<lambda>x. log_id x = lid) f d"
    by (simp add: sql_update_def reg)
  then show ?thesis using assms by (simp add: sql_update_log_all)
qed

lemma find_log_upd:
  assumes "\<And>r. log_id (f r) = log_id r"
  shows "find_log x (upd_log lid f d) =
    (if x = lid then map_option f (find_log lid d) else find_log x d)"
proof -
  have "find (\<lambda>r. log_id r = x) (map (\<lambda>r. if log_id r = lid then f r else r) rows) =
     (if x = lid then map_option f (find (\<lambda>r. log_id r = lid) rows) else find (\<lambda>r. log_id r = x) rows)" for rows
    using assms by (induction rows) auto
  then show ?thesis by (cases "registry d") (simp_all add: find_log_def upd_log_def)
qed

section \<open>Rows that represent logs\<close>

lemma db_rel_keys: "db_rel A d \<Longrightarrow> keys_ok d"
  by (auto simp: db_rel_def keys_ok_def)

lemma db_rel_find:
  assumes "db_rel A d"
  shows "find_log lid d = None \<longleftrightarrow> A lid = None"
    and "find_log lid d = Some r \<Longrightarrow> \<exists>l. A lid = Some l \<and> log_rel l r (tables d)"
proof -
  from assms obtain rows where reg: "registry d = Some rows" and dom: "dom A = log_id ` set rows"
    and rel: "\<forall>r \<in> set rows. \<exists>l. A (log_id r) = Some l \<and> log_rel l r (tables d)"
    by (auto simp: db_rel_def)
  show "find_log lid d = None \<longleftrightarrow> A lid = None"
    using dom by (simp add: find_log_def reg find_key_None) (metis domIff)
  show "\<exists>l. A lid = Some l \<and> log_rel l r (tables d)" if "find_log lid d = Some r"
  proof -
    from that reg have "r \<in> set rows" "log_id r = lid"
      by (auto simp: find_log_def dest: find_key_Some)
    with rel show ?thesis by blast
  qed
qed

lemma db_rel_obtain:
  assumes "db_rel A d" "A lid = Some l"
  obtains r where "find_log lid d = Some r" "log_rel l r (tables d)"
proof -
  from assms db_rel_find(1) [of A d lid] obtain r where r: "find_log lid d = Some r"
    by fastforce
  from db_rel_find(2) [OF assms(1) r] assms(2) have "log_rel l r (tables d)" by auto
  with r show ?thesis by (rule that)
qed

text \<open>
  The step every statement on one log comes down to: its row changes, and of the tables at
  most those named from its ordinal.
\<close>

lemma db_rel_change:
  assumes rel: "db_rel A d" and find: "find_log lid d = Some r"
    and keep: "\<And>x. log_id (f x) = log_id x" "\<And>x. ordinal (f x) = ordinal x"
    and reg: "registry d' = registry (upd_log lid f d)" and nxt: "next_ordinal d' = next_ordinal d"
    and tabs: "\<And>ord s. ord \<noteq> ordinal r \<Longrightarrow> tables d' (entriesTable ord s) = tables d (entriesTable ord s)"
    and new: "log_rel l' (f r) (tables d')"
  shows "db_rel (A(lid \<mapsto> l')) d'"
proof -
  from rel obtain rows where rows: "registry d = Some rows" and ids: "distinct (map log_id rows)"
    and ords: "distinct (map ordinal rows)" and lt: "\<forall>x \<in> set rows. ordinal x < next_ordinal d"
    and dom: "dom A = log_id ` set rows"
    and all: "\<forall>x \<in> set rows. \<exists>l. A (log_id x) = Some l \<and> log_rel l x (tables d)"
    and fresh: "\<forall>ord s. next_ordinal d \<le> ord \<longrightarrow> tables d (entriesTable ord s) = None"
    by (auto simp: db_rel_def)
  let ?g = "\<lambda>x. if log_id x = lid then f x else x"
  from find rows have r: "r \<in> set rows" "log_id r = lid"
    by (auto simp: find_log_def dest: find_key_Some)
  have uniq: "x = r" if "x \<in> set rows" "log_id x = lid \<or> ordinal x = ordinal r" for x
    using distinct_key_eq [OF ids that(1) r(1)] distinct_key_eq [OF ords that(1) r(1)] r(2) that(2)
    by auto
  have g: "log_id \<circ> ?g = log_id" "ordinal \<circ> ?g = ordinal" using keep by (auto simp: fun_eq_iff)
  have reg': "registry d' = Some (map ?g rows)" using reg by (simp add: upd_log_def rows)
  have rel': "\<exists>l. (A(lid \<mapsto> l')) (log_id (?g x)) = Some l \<and> log_rel l (?g x) (tables d')" if x: "x \<in> set rows" for x
  proof (cases "log_id x = lid")
    case True
    with uniq x have "x = r" by blast
    with True keep new show ?thesis by simp
  next
    case False
    with uniq x r have "ordinal x \<noteq> ordinal r" by blast
    with False all x tabs log_rel_tables_cong [of "tables d'" x "tables d"] show ?thesis by auto
  qed
  have "log_id ` set (map ?g rows) = log_id ` set rows" by (simp only: set_map image_comp g(1))
  then have "log_id ` set (map ?g rows) = insert lid (dom A)"
    using r dom by auto
  moreover have "tables d' (entriesTable ord s) = None" if "next_ordinal d \<le> ord" for ord s
  proof -
    have "ord \<noteq> ordinal r" using that lt r by fastforce
    with tabs fresh that show ?thesis by simp
  qed
  moreover have "\<exists>l. (A(lid \<mapsto> l')) (log_id y) = Some l \<and> log_rel l y (tables d')" if "y \<in> set (map ?g rows)" for y
    using that rel' unfolding set_map by blast
  moreover have "distinct (map log_id (map ?g rows))" "distinct (map ordinal (map ?g rows))"
    using ids ords by (simp_all only: map_map g)
  moreover have "ordinal y < next_ordinal d'" if y: "y \<in> set (map ?g rows)" for y
    using y lt nxt keep by auto
  ultimately show ?thesis
    unfolding db_rel_def nxt reg' by (intro conjI exI [of _ "map ?g rows"]) simp_all
qed

section \<open>Fence and trim\<close>

lemma sql_fence_eq:
  assumes "keys_ok d"
  shows "sql_fence lid e d = (case find_log lid d of
      None \<Rightarrow> (Inr [], d)
    | Some r \<Rightarrow> if epoch r \<le> e then (Inr [r\<lparr>epoch := e\<rparr>], upd_log lid (\<lambda>r. r\<lparr>epoch := e\<rparr>) d)
               else (Inr [], d))"
  unfolding sql_fence_def by (rule sql_update_log [OF assms])

lemma sql_trim_eq:
  assumes "keys_ok d"
  shows "sql_trim upTo lid d = (case find_log lid d of
      None \<Rightarrow> (Inr [], d)
    | Some r \<Rightarrow> (Inr [r\<lparr>trim_upto := max (trim_upto r) (min upTo (last_seqno r))\<rparr>],
        upd_log lid (\<lambda>r. r\<lparr>trim_upto := max (trim_upto r) (min upTo (last_seqno r))\<rparr>) d))"
  unfolding sql_trim_def by (rule sql_update_log_all [OF assms])

lemma db_rel_fence [inv_intros]:
  assumes rel: "db_rel A d" and l: "A lid = Some l" and e: "a_owner l \<le> e" "e \<le> bigint_max"
  shows "db_rel (A(lid \<mapsto> l\<lparr>a_owner := e\<rparr>)) (upd_log lid (\<lambda>r. r\<lparr>epoch := e\<rparr>) d)"
proof -
  from rel l obtain r where r: "find_log lid d = Some r" and lr: "log_rel l r (tables d)"
    by (rule db_rel_obtain)
  from lr e have "log_rel (l\<lparr>a_owner := e\<rparr>) (r\<lparr>epoch := e\<rparr>) (tables d)"
    by (auto simp: log_rel_def row_ok_def ring_holds_def epochs_ok_def)
  then show ?thesis using rel r by (intro db_rel_change [where r = r]) simp_all
qed

lemma db_rel_trim [inv_intros]:
  assumes rel: "db_rel A d" and l: "A lid = Some l"
  shows "db_rel (A(lid \<mapsto> l\<lparr>a_trim := max (a_trim l) (nat (min upTo (int (length (a_hist l)))))\<rparr>))
    (upd_log lid (\<lambda>r. r\<lparr>trim_upto := max (trim_upto r) (min upTo (last_seqno r))\<rparr>) d)"
proof -
  let ?f = "\<lambda>r. r\<lparr>trim_upto := max (trim_upto r) (min upTo (last_seqno r))\<rparr>"
  from rel l obtain r where r: "find_log lid d = Some r" and lr: "log_rel l r (tables d)"
    by (rule db_rel_obtain)
  have "int (max (a_trim l) (nat (min upTo (int (length (a_hist l))))))
      = max (trim_upto r) (min upTo (last_seqno r))"
    using lr by (auto simp: log_rel_def row_ok_def)
  moreover have "row_ok (?f r)" using lr by (auto simp: log_rel_def row_ok_def)
  moreover have "ring_holds (a_hist l) (?f r) (tables d)"
    using lr by (fastforce simp: log_rel_def ring_holds_def)
  ultimately have "log_rel (l\<lparr>a_trim := max (a_trim l) (nat (min upTo (int (length (a_hist l)))))\<rparr>)
      (?f r) (tables d)"
    using lr by (simp add: log_rel_def)
  then show ?thesis using rel r by (intro db_rel_change [where r = r]) simp_all
qed

section \<open>Append\<close>

text \<open>The batch ends before the last seqno a \<open>bigint\<close> can count.\<close>

definition batch_fits :: "Seqno \<Rightarrow> bytes list \<Rightarrow> bool" where
  "batch_fits first ps \<longleftrightarrow> uint first + int (length ps) \<le> bigint_max"

lemma unnest_batch:
  assumes "batch_fits first ps" "uint first = int (length h) + 1"
  shows "unnest e (chunkArrays first ps) =
    run_rows (h @ map (Pair e) ps) (Suc (length h)) (Suc (length h) + length ps)"
proof -
  have "int64 (first + of_nat k) = int (Suc (length h) + k)" if "k < length ps" for k
  proof -
    have "uint first + int k \<le> bigint_max" using assms(1) that by (simp add: batch_fits_def)
    from int64_add_nat [OF this] show ?thesis using assms(2) by simp
  qed
  then have "map (\<lambda>(k, p). entry_rows (int64 (first + of_nat k)) e p) (enumerate 0 ps)
      = map (\<lambda>(k, p). entry_rows (int (Suc (length h) + k)) e p) (enumerate 0 ps)"
    by (intro map_cong) (auto simp: in_set_enumerate_eq)
  then show ?thesis by (simp only: unnest_chunkArrays run_rows_new)
qed

text \<open>The claim and the insert of an append that matched its row.\<close>

definition appended :: "LogID \<Rightarrow> reg_row \<Rightarrow> int \<Rightarrow> entry_row list \<Rightarrow> db \<Rightarrow> db" where
  "appended lid r lst parts d =
     (let d1 = upd_log lid (\<lambda>r. r\<lparr>last_seqno := lst\<rparr>) d; t = entriesTable (ordinal r) (cur_slot r) in
      d1\<lparr>tables := (tables d)(t := map_option (\<lambda>rows. rows @ parts) (tables d t))\<rparr>)"

lemma sql_append_eq:
  assumes rel: "db_rel A d" and find: "find_log lid d = Some r"
  shows "sql_append (appendSQL (ordinal r)) lst lid e prev cols d =
    (if epoch r = e \<and> last_seqno r = prev then (Inr 1, appended lid r lst (unnest e cols) d) else (Inr 0, d))"
proof -
  from db_rel_find(2) [OF rel find] obtain l where lr: "log_rel l r (tables d)" by blast
  then have slot: "cur_slot r = 0 \<or> cur_slot r = 1"
    and tabs: "tables d (entriesTable (ordinal r) (cur_slot r)) \<noteq> None"
      "tables d (entriesTable (ordinal r) (1 - cur_slot r)) \<noteq> None"
    by (auto simp: log_rel_def row_ok_def ring_holds_def)
  from slot tabs have ex: "tables d (entriesTable (ordinal r) 0) \<noteq> None"
    "tables d (entriesTable (ordinal r) 1) \<noteq> None" by auto
  have upd: "sql_update (\<lambda>r. log_id r = lid \<and> epoch r = e \<and> last_seqno r = prev)
        (\<lambda>r. r\<lparr>last_seqno := lst\<rparr>) d =
      (if epoch r = e \<and> last_seqno r = prev
       then (Inr [r\<lparr>last_seqno := lst\<rparr>], upd_log lid (\<lambda>r. r\<lparr>last_seqno := lst\<rparr>) d) else (Inr [], d))"
    using sql_update_log [OF db_rel_keys [OF rel], of lid "\<lambda>r. epoch r = e \<and> last_seqno r = prev"]
    by (simp add: find)
  show ?thesis
    using slot ex by (auto simp: sql_append_def appendSQL_def upd insert_rows_def appended_def Let_def)
qed

lemma db_rel_append [inv_intros]:
  assumes rel: "db_rel A d" and find: "find_log lid d = Some r" and l: "A lid = Some l"
    and own: "0 < a_owner l" and fit: "batch_fits first ps"
    and pos: "uint first = int (length (a_hist l)) + 1"
  shows "db_rel (A(lid \<mapsto> l\<lparr>a_hist := a_hist l @ map (Pair (a_owner l)) ps\<rparr>))
    (appended lid r (int (length (a_hist l) + length ps)) (unnest (a_owner l) (chunkArrays first ps)) d)"
    (is "db_rel _ ?d")
proof -
  let ?h = "a_hist l" and ?n = "length ps"
  let ?h' = "?h @ map (Pair (a_owner l)) ps" and ?r = "r\<lparr>last_seqno := int (length ?h + ?n)\<rparr>"
  from db_rel_find(2) [OF rel find] l have lr: "log_rel l r (tables d)" by auto
  then have ok: "row_ok r" and own_r: "a_owner l = epoch r" and len: "int (length ?h) = last_seqno r"
    and ep: "epochs_ok ?h (epoch r)" and ring: "ring_holds ?h r (tables d)"
    by (auto simp: log_rel_def)
  have lo: "1 \<le> nat (cur_lo r)" "nat (cur_lo r) \<le> Suc (length ?h)"
    using ok len by (auto simp: row_ok_def)
  have rows: "run_rows ?h (nat (cur_lo r)) (Suc (length ?h)) @ unnest (a_owner l) (chunkArrays first ps)
      = run_rows ?h' (nat (cur_lo r)) (Suc (length ?h'))"
    using unnest_batch [OF fit pos] run_rows_split [of "nat (cur_lo r)" "Suc (length ?h)" "Suc (length ?h + ?n)" ?h']
      run_rows_extend [OF lo(1), of "Suc (length ?h)" ?h] lo(2) by simp
  have prev: "run_rows ?h' plo (nat (cur_lo r)) = run_rows ?h plo (nat (cur_lo r))" if "1 \<le> plo" for plo
    using run_rows_extend [OF that] lo(2) by simp
  from ring obtain plo where plo: "1 \<le> plo" "plo \<le> nat (cur_lo r)" "int plo \<le> trim_upto r + 1"
      "prev_hi r = 0 \<longrightarrow> plo = nat (cur_lo r)"
      "tables d (entriesTable (ordinal r) (1 - cur_slot r)) = Some (run_rows ?h plo (nat (cur_lo r)))"
    and cur: "tables d (entriesTable (ordinal r) (cur_slot r))
      = Some (run_rows ?h (nat (cur_lo r)) (Suc (length ?h)))"
    by (auto simp: ring_holds_def)
  have ne: "1 - cur_slot r \<noteq> cur_slot r" using ok by (auto simp: row_ok_def)
  have "tables ?d (entriesTable (ordinal r) (1 - cur_slot r)) = Some (run_rows ?h' plo (nat (cur_lo r)))"
    using ne plo(5) prev [OF plo(1)] by (simp add: appended_def Let_def)
  moreover have "tables ?d (entriesTable (ordinal r) (cur_slot r))
      = Some (run_rows ?h' (nat (cur_lo r)) (Suc (length ?h')))"
    using rows cur by (simp add: appended_def Let_def)
  ultimately have "ring_holds ?h' ?r (tables ?d)"
    using plo(1-4) by (auto simp: ring_holds_def)
  moreover have "row_ok ?r" using ok fit pos len by (auto simp: row_ok_def batch_fits_def)
  moreover have "epochs_ok ?h' (epoch r)"
    using ep own own_r by (auto simp: epochs_ok_def sorted_append sorted_wrt_map comp_def)
  ultimately have "log_rel (l\<lparr>a_hist := ?h'\<rparr>) ?r (tables ?d)"
    using lr own_r by (simp add: log_rel_def)
  then show ?thesis
    using rel find by (intro db_rel_change [where r = r]) (simp_all add: appended_def Let_def)
qed

section \<open>Reclaim\<close>

text \<open>The row as \<open>scanLogState\<close> gives it to the code.\<close>

definition row_state :: "reg_row \<Rightarrow> logState" where
  "row_state r =
     \<lparr>st_ordinal = ordinal r, lastSeqno = uint64 (last_seqno r), trimUpto = uint64 (trim_upto r),
      curSlot = cur_slot r, curLo = uint64 (cur_lo r), prevHi = uint64 (prev_hi r)\<rparr>"

lemma row_ok_bounds:
  assumes "row_ok r"
  shows "0 \<le> last_seqno r" "last_seqno r \<le> bigint_max" "0 \<le> trim_upto r" "trim_upto r \<le> bigint_max"
    "0 \<le> cur_lo r" "cur_lo r \<le> bigint_max" "0 \<le> prev_hi r" "prev_hi r \<le> bigint_max"
  using assms by (auto simp: row_ok_def)

lemma scan_row:
  assumes "decodes env" "row_ok r"
  shows "scanLogState env r = Inr (row_state r)"
  using assms(1) row_ok_bounds [OF assms(2)] by (simp add: scanLogState_def decodes_def row_state_def)

lemma ring_row_state:
  assumes "row_ok r"
  shows "ring_row (row_state r)"
  using assms row_ok_bounds [OF assms] by (simp add: ring_row_def row_state_def uint_uint64 row_ok_def)

lemma row_state_prevHi:
  assumes "row_ok r"
  shows "prevHi (row_state r) = 0 \<longleftrightarrow> prev_hi r = 0"
  using row_ok_bounds [OF assms] uint_uint64 [of "prev_hi r"]
  by (auto simp: row_state_def simp flip: uint_0_iff)

lemma row_state_prevEmpty:
  assumes "row_ok r"
  shows "prevEmpty (row_state r) \<longleftrightarrow> prev_hi r \<noteq> 0 \<and> cur_lo r - 1 \<le> trim_upto r"
  using prevEmpty_iff [OF ring_row_state [OF assms]] row_state_prevHi [OF assms] row_ok_bounds [OF assms]
  by (simp add: row_state_def uint_uint64)

lemma row_state_ringFull:
  assumes "row_ok r"
  shows "ringFull (row_state r) \<longleftrightarrow> 4096 \<le> last_seqno r - cur_lo r + 1"
  using ringFull_iff [OF ring_row_state [OF assms]] row_ok_bounds [OF assms]
  by (simp add: row_state_def uint_uint64)

text \<open>The effect of the truncate and of \<open>prev_hi = 0\<close> on a row and its older half.\<close>

definition truncated :: "LogID \<Rightarrow> reg_row \<Rightarrow> db \<Rightarrow> db" where
  "truncated lid r d =
     upd_log lid (\<lambda>r. r\<lparr>prev_hi := 0\<rparr>)
       (d\<lparr>tables := (tables d)(entriesTable (ordinal r) (1 - cur_slot r) := Some [])\<rparr>)"

text \<open>What a committed \<open>reclaim\<close> of a log does, given whether it holds the table locks.\<close>

definition reclaimed :: "LogID \<Rightarrow> bool \<Rightarrow> db \<Rightarrow> db" where
  "reclaimed lid m d =
     (case find_log lid d of
        None \<Rightarrow> d
      | Some r \<Rightarrow>
          let (t, turn) = reclaimSteps (row_state r) m;
              d1 = (if t then truncated lid r d else d)
          in if turn then upd_log lid rotate_row d1 else d1)"

lemma upd_log_tables: "upd_log lid f (d\<lparr>tables := T\<rparr>) = (upd_log lid f d)\<lparr>tables := T\<rparr>"
  by (simp add: upd_log_def)

lemma find_truncated:
  "find_log lid d = Some r \<Longrightarrow> find_log lid (truncated lid r d) = Some (r\<lparr>prev_hi := 0\<rparr>)"
  by (simp add: truncated_def find_log_upd) (simp add: find_log_def)

lemma db_rel_truncate [inv_intros]:
  assumes rel: "db_rel A d" and find: "find_log lid d = Some r" and empty: "prevEmpty (row_state r)"
  shows "db_rel A (truncated lid r d)"
proof -
  from db_rel_find(2) [OF rel find] obtain l where l: "A lid = Some l" and lr: "log_rel l r (tables d)"
    by blast
  let ?h = "a_hist l" and ?d = "truncated lid r d"
  from lr have ok: "row_ok r" and ring: "ring_holds ?h r (tables d)" by (auto simp: log_rel_def)
  have e: "prev_hi r \<noteq> 0" "cur_lo r - 1 \<le> trim_upto r"
    using empty row_state_prevEmpty [OF ok] by auto
  have ne: "1 - cur_slot r \<noteq> cur_slot r" using ok by (auto simp: row_ok_def)
  have "ring_holds ?h (r\<lparr>prev_hi := 0\<rparr>) (tables ?d)"
    using ring ne e(2) ok
    by (auto simp: ring_holds_def truncated_def row_ok_def intro!: exI [of _ "nat (cur_lo r)"])
  then have "log_rel l (r\<lparr>prev_hi := 0\<rparr>) (tables ?d)"
    using lr by (simp add: log_rel_def row_ok_def)
  then have "db_rel (A(lid \<mapsto> l)) ?d"
    using rel find
    by (intro db_rel_change [where r = r]) (simp_all add: truncated_def upd_log_tables)
  then show ?thesis using l by (simp add: fun_upd_idem)
qed

lemma rotate_row_keys [simp]: "log_id (rotate_row r) = log_id r" "ordinal (rotate_row r) = ordinal r"
  by (simp_all add: rotate_row_def)

lemma db_rel_rotate [inv_intros]:
  assumes rel: "db_rel A d" and find: "find_log lid d = Some r" and empty: "prev_hi r = 0"
  shows "db_rel A (upd_log lid rotate_row d)"
proof -
  from db_rel_find(2) [OF rel find] obtain l where l: "A lid = Some l" and lr: "log_rel l r (tables d)"
    by blast
  let ?h = "a_hist l"
  from lr have ok: "row_ok r" and ring: "ring_holds ?h r (tables d)"
    and len: "int (length ?h) = last_seqno r" by (auto simp: log_rel_def)
  from ring empty have cur: "tables d (entriesTable (ordinal r) (cur_slot r))
      = Some (run_rows ?h (nat (cur_lo r)) (Suc (length ?h)))"
    and prev: "tables d (entriesTable (ordinal r) (1 - cur_slot r)) = Some []"
    and lo: "cur_lo r \<le> trim_upto r + 1"
    using ok by (auto simp: ring_holds_def row_ok_def)
  have n: "nat (last_seqno r + 1) = Suc (length ?h)" using len by simp
  have "ring_holds ?h (rotate_row r) (tables d)"
    unfolding ring_holds_def rotate_row_def using cur prev lo ok len
    by (auto simp: n row_ok_def intro!: exI [of _ "nat (cur_lo r)"])
  moreover have "row_ok (rotate_row r)" using ok by (auto simp: row_ok_def rotate_row_def)
  ultimately have "log_rel l (rotate_row r) (tables d)"
    using lr by (simp add: log_rel_def rotate_row_def)
  then have "db_rel (A(lid \<mapsto> l)) (upd_log lid rotate_row d)"
    using rel find by (intro db_rel_change [where r = r and f = rotate_row]) simp_all
  then show ?thesis using l by (simp add: fun_upd_idem)
qed

lemma db_rel_reclaimed [inv_intros]:
  assumes rel: "db_rel A d"
  shows "db_rel A (reclaimed lid m d)"
proof (cases "find_log lid d")
  case None
  then show ?thesis using rel by (simp add: reclaimed_def)
next
  case (Some r)
  from db_rel_find(2) [OF rel Some] have ok: "row_ok r" by (auto simp: log_rel_def)
  let ?t = "fst (reclaimSteps (row_state r) m)" and ?turn = "snd (reclaimSteps (row_state r) m)"
  let ?d1 = "if ?t then truncated lid r d else d" and ?r1 = "if ?t then r\<lparr>prev_hi := 0\<rparr> else r"
  have d1: "db_rel A ?d1" "find_log lid ?d1 = Some ?r1"
    using db_rel_truncate [OF rel Some] rel Some find_truncated [OF Some]
    by (auto simp: reclaimSteps_truncate)
  moreover have "prev_hi ?r1 = 0" if "?turn"
    using that row_state_prevHi [OF ok] by (auto simp: reclaimSteps_truncate reclaimSteps_rotate)
  ultimately have "?turn \<Longrightarrow> db_rel A (upd_log lid rotate_row ?d1)"
    using db_rel_rotate by blast
  with d1(1) show ?thesis by (simp add: reclaimed_def Some split_beta Let_def)
qed

section \<open>Creation\<close>

definition created :: "LogID list \<Rightarrow> logs \<Rightarrow> logs" where
  "created names A = (\<lambda>lid. if lid \<in> set names \<and> A lid = None then Some new_log else A lid)"

lemma create_table_registry:
  "create_table t (d\<lparr>registry := x, next_ordinal := y\<rparr>) = (create_table t d)\<lparr>registry := x, next_ordinal := y\<rparr>"
  by (simp add: create_table_def split: option.splits)

lemma fold_create_registry:
  "fold create_table ts (d\<lparr>registry := x, next_ordinal := y\<rparr>)
     = (fold create_table ts d)\<lparr>registry := x, next_ordinal := y\<rparr>"
  by (induction ts arbitrary: d) (simp_all add: create_table_registry)

lemma db_rel_burn [inv_intros]:
  assumes "db_rel A d" "next_ordinal d \<le> n"
  shows "db_rel A (d\<lparr>next_ordinal := n\<rparr>)"
  using assms by (fastforce simp: db_rel_def)

lemma log_rel_new:
  assumes "T (entriesTable ord 0) = Some []" "T (entriesTable ord 1) = Some []"
  shows "log_rel new_log (new_row lid ord) T"
  using assms
  by (auto simp: log_rel_def new_log_def new_row_def row_ok_def epochs_ok_def ring_holds_def
      FirstSeqno_def int64_def intro!: exI [of _ 1])

text \<open>One new log: its row with the next ordinal, and its two tables.\<close>

lemma db_rel_create_one:
  assumes rel: "db_rel A d" and reg: "registry d = Some rows" and new: "A lid = None"
    and n: "n = next_ordinal d"
  shows "db_rel (A(lid \<mapsto> new_log))
    (fold create_table (ringTables n) (d\<lparr>registry := Some (rows @ [new_row lid n]), next_ordinal := n + 1\<rparr>))"
    (is "db_rel ?A ?d")
proof -
  from rel reg have ids: "distinct (map log_id rows)" and ords: "distinct (map ordinal rows)"
    and lt: "\<forall>x \<in> set rows. ordinal x < n" and dom: "dom A = log_id ` set rows"
    and all: "\<forall>x \<in> set rows. \<exists>l. A (log_id x) = Some l \<and> log_rel l x (tables d)"
    and fresh: "\<forall>ord s. n \<le> ord \<longrightarrow> tables d (entriesTable ord s) = None"
    by (auto simp: db_rel_def n)
  have tabs: "tables ?d = (tables d)(entriesTable n 0 := Some [], entriesTable n 1 := Some [])"
    using fresh by (simp add: ringTables_def create_table_def)
  have reg': "registry ?d = Some (rows @ [new_row lid n])" "next_ordinal ?d = n + 1"
    by (simp_all add: fold_create_registry)
  have notin: "lid \<notin> log_id ` set rows" using new dom by auto
  have old: "\<exists>l. ?A (log_id x) = Some l \<and> log_rel l x (tables ?d)" if x: "x \<in> set rows" for x
  proof -
    from x notin have "log_id x \<noteq> lid" by auto
    moreover have "tables ?d (entriesTable (ordinal x) s) = tables d (entriesTable (ordinal x) s)" for s
      using lt x by (auto simp: tabs)
    ultimately show ?thesis
      using all x log_rel_tables_cong [of "tables ?d" x "tables d"] by auto
  qed
  have fresh_rel: "log_rel new_log (new_row lid n) (tables ?d)"
    by (rule log_rel_new) (simp_all add: tabs)
  have "log_id (new_row lid n) = lid" by (simp add: new_row_def)
  then have "\<exists>l. ?A (log_id x) = Some l \<and> log_rel l x (tables ?d)"
    if "x \<in> set (rows @ [new_row lid n])" for x
    using that old fresh_rel by (cases "x \<in> set rows") simp_all
  moreover have "distinct (map log_id (rows @ [new_row lid n]))" "distinct (map ordinal (rows @ [new_row lid n]))"
    using ids ords notin lt by (auto simp: new_row_def)
  moreover have "dom ?A = log_id ` set (rows @ [new_row lid n])"
    using dom by (auto simp: new_row_def)
  moreover have "\<forall>x \<in> set (rows @ [new_row lid n]). ordinal x < n + 1"
    using lt by (auto simp: new_row_def)
  moreover have "tables ?d (entriesTable ord s) = None" if "n + 1 \<le> ord" for ord s
    using fresh that by (simp add: tabs)
  ultimately show ?thesis
    unfolding db_rel_def reg' by (intro conjI exI [of _ "rows @ [new_row lid n]"]) simp_all
qed

lemma insert_names_rel:
  assumes "insert_names names rows n = (os, rows', n')" "db_rel A d" "registry d = Some rows" "next_ordinal d = n"
  shows "db_rel (created names A)
    (fold create_table (concat (map ringTables os)) (d\<lparr>registry := Some rows', next_ordinal := n'\<rparr>))"
  using assms
proof (induction names arbitrary: rows n d A os)
  case Nil
  then have "registry d = Some rows'" "next_ordinal d = n'" "os = []" by auto
  then have eq: "d\<lparr>registry := Some rows', next_ordinal := n'\<rparr> = d" by (cases d) simp
  have "created [] A = A" by (simp add: created_def)
  then show ?case
    using Nil.prems(2) unfolding \<open>os = []\<close> eq list.map concat.simps fold_Nil id_apply by simp
next
  case (Cons x names)
  have dom: "dom A = log_id ` set rows" using Cons.prems(2,3) by (auto simp: db_rel_def)
  show ?case
  proof (cases "x \<in> log_id ` set rows")
    case True
    let ?d = "d\<lparr>next_ordinal := n + 1\<rparr>"
    have "created (x # names) A = created names A"
      using True dom by (auto simp: created_def fun_eq_iff)
    moreover have "db_rel A ?d" using db_rel_burn Cons.prems(2,4) by simp
    ultimately show ?thesis using Cons.IH [of rows "n + 1" os A ?d] Cons.prems True by simp
  next
    case False
    then obtain os' where os: "os = n # os'"
      and ins: "insert_names names (rows @ [new_row x n]) (n + 1) = (os', rows', n')"
      using Cons.prems(1) by (auto split: prod.splits)
    let ?d = "fold create_table (ringTables n)
        (d\<lparr>registry := Some (rows @ [new_row x n]), next_ordinal := n + 1\<rparr>)"
    have new: "A x = None" using False dom by auto
    have rel: "db_rel (A(x \<mapsto> new_log)) ?d"
      using db_rel_create_one [OF Cons.prems(2,3) new] Cons.prems(4) by simp
    have "created (x # names) A = created names (A(x \<mapsto> new_log))"
      using new by (auto simp: created_def fun_eq_iff)
    moreover have "?d\<lparr>registry := Some rows', next_ordinal := n'\<rparr>
        = fold create_table (ringTables n) (d\<lparr>registry := Some rows', next_ordinal := n'\<rparr>)"
      by (simp add: fold_create_registry)
    moreover have "db_rel (created names (A(x \<mapsto> new_log)))
        (fold create_table (concat (map ringTables os')) (?d\<lparr>registry := Some rows', next_ordinal := n'\<rparr>))"
      using ins rel by (rule Cons.IH) (simp_all add: fold_create_registry)
    ultimately show ?thesis by (simp only: os list.map concat.simps fold_append comp_apply)
  qed
qed

lemma db_rel_created [inv_intros]:
  assumes "db_rel A d" "sql_insert_logs names d = (Inr os, w)"
  shows "db_rel (created names A) (snd (sql_create_rings os w))"
proof -
  from assms(1) obtain rows where reg: "registry d = Some rows" by (auto simp: db_rel_def)
  obtain os' rows' n' where ins: "insert_names names rows (next_ordinal d) = (os', rows', n')"
    by (cases "insert_names names rows (next_ordinal d)") auto
  with assms(2) reg have "os = os'" "w = d\<lparr>registry := Some rows', next_ordinal := n'\<rparr>"
    by (auto simp: sql_insert_logs_def)
  then show ?thesis using insert_names_rel [OF ins assms(1) reg] by (simp add: sql_create_rings_def)
qed

lemma created_steps: "logs_steps A (created names A)"
proof (induction names arbitrary: A)
  case Nil
  then show ?case by (simp add: created_def)
next
  case (Cons x names)
  show ?case
  proof (cases "A x")
    case None
    have "created (x # names) A = created names (A(x \<mapsto> new_log))"
      using None by (auto simp: created_def fun_eq_iff)
    moreover have "logs_step A (A(x \<mapsto> new_log))" using None by (rule logs_create)
    ultimately show ?thesis
      using converse_rtranclp_into_rtranclp [OF _ Cons.IH [of "A(x \<mapsto> new_log)"]] by presburger
  next
    case (Some l)
    then have "created (x # names) A = created names A"
      by (auto simp: created_def fun_eq_iff)
    then show ?thesis using Cons.IH by simp
  qed
qed

end
