(* ===== verification/Sessions.thy ===== *)
theory Sessions
  imports Statements
begin

text \<open>
  Any number of stores over one schema. Every change to the tables is one of the steps below,
  committed by some session; a session's view is that the others take any number of such steps
  between its own calls. The tables simulate the abstract logs of \<open>Log_Spec\<close>.
\<close>

section \<open>The steps of a schema\<close>

inductive db_step :: "db \<Rightarrow> db \<Rightarrow> bool" where
  step_fence: "ep \<noteq> 0 \<Longrightarrow> db_step d (snd (sql_fence lid (int64 ep) d))"
| step_append: "find_log lid d = Some r \<Longrightarrow> ep \<noteq> 0 \<Longrightarrow> first \<noteq> 0 \<Longrightarrow> ps \<noteq> [] \<Longrightarrow> batch_fits first ps \<Longrightarrow>
     db_step d (snd (sql_append (appendSQL (ordinal r)) (int64 (first + of_nat (length ps) - 1)) lid
                       (int64 ep) (int64 (first - 1)) (chunkArrays first ps) d))"
| step_trim: "db_step d (snd (sql_trim (int64 upTo) lid d))"
| step_reclaim: "db_step d (reclaimed lid m d)"
| step_create: "sql_insert_logs names d = (Inr os, w) \<Longrightarrow> db_step d (snd (sql_create_rings os w))"
| step_burn: "next_ordinal d \<le> n \<Longrightarrow> db_step d (d\<lparr>next_ordinal := n\<rparr>)"

abbreviation db_steps :: "db \<Rightarrow> db \<Rightarrow> bool" where
  "db_steps \<equiv> db_step\<^sup>*\<^sup>*"

text \<open>A migrated schema that holds no logs yet.\<close>

definition initial :: "db \<Rightarrow> bool" where
  "initial d \<longleftrightarrow> registry d = Some [] \<and> (\<forall>t. tables d t = None)"

definition reachable :: "db \<Rightarrow> bool" where
  "reachable d \<longleftrightarrow> (\<exists>d0. initial d0 \<and> db_steps d0 d)"

section \<open>Simulation\<close>

locale forward_simulation =
  fixes cstep :: "'c \<Rightarrow> 'c \<Rightarrow> bool" and astep :: "'a \<Rightarrow> 'a \<Rightarrow> bool" and rel :: "'a \<Rightarrow> 'c \<Rightarrow> bool"
  assumes simulates: "rel a c \<Longrightarrow> cstep c c' \<Longrightarrow> \<exists>a'. astep\<^sup>*\<^sup>* a a' \<and> rel a' c'"
begin

lemma simulates_run:
  assumes "cstep\<^sup>*\<^sup>* c c'" "rel a c"
  shows "\<exists>a'. astep\<^sup>*\<^sup>* a a' \<and> rel a' c'"
  using assms
proof (induction rule: rtranclp_induct)
  case base
  then show ?case by blast
next
  case (step c1 c2)
  then obtain a1 where "astep\<^sup>*\<^sup>* a a1" "rel a1 c1" by blast
  with simulates [OF _ step.hyps(2)] show ?case by (meson rtranclp_trans)
qed

end

text \<open>The append statement on an existing log: it is the abstract append or nothing.\<close>

lemma append_simulates:
  assumes rel: "db_rel A d" and find: "find_log lid d = Some r"
    and args: "ep \<noteq> 0" "first \<noteq> 0" "batch_fits first ps"
  defines "res \<equiv> sql_append (appendSQL (ordinal r)) (int64 (first + of_nat (length ps) - 1)) lid
                   (int64 ep) (int64 (first - 1)) (chunkArrays first ps) d"
  obtains (written) l where "A lid = Some l" "a_owner l = int64 ep" "0 < int64 ep"
      "uint first = int (length (a_hist l)) + 1" "fst res = Inr 1"
      "db_rel (A(lid \<mapsto> l\<lparr>a_hist := a_hist l @ map (Pair (int64 ep)) ps\<rparr>)) (snd res)"
  | (refused) "res = (Inr 0, d)" "\<not> (epoch r = int64 ep \<and> last_seqno r + 1 = uint first)"
proof (cases "epoch r = int64 ep \<and> last_seqno r = int64 (first - 1)")
  case True
  from db_rel_find(2) [OF rel find] obtain l where l: "A lid = Some l" and lr: "log_rel l r (tables d)"
    by blast
  have fit: "uint first + int (length ps) \<le> bigint_max" using args(3) by (simp add: batch_fits_def)
  then have prev: "int64 (first - 1) = uint first - 1" using args(2) by (simp add: int64_pred)
  have own: "a_owner l = int64 ep" "0 \<le> int64 ep" using lr True by (auto simp: log_rel_def row_ok_def)
  have "int64 ep \<noteq> 0" using args(1) int64_inject [of ep 0] by (simp add: int64_def)
  with own have pos: "0 < int64 ep" by simp
  have first: "uint first = int (length (a_hist l)) + 1"
    using True prev lr by (simp add: log_rel_def)
  have "int64 (first + of_nat (length ps) - 1) = int (length (a_hist l) + length ps)"
    using int64_batch_last [OF fit args(2)] first by simp
  then have "res = (Inr 1, appended lid r (int (length (a_hist l) + length ps))
      (unnest (a_owner l) (chunkArrays first ps)) d)"
    unfolding res_def using sql_append_eq [OF rel find] True own by simp
  with db_rel_append [OF rel find l _ args(3) first] own pos show ?thesis
    by (intro written [OF l own(1) pos first]) simp_all
next
  case False
  have "int64 (first - 1) = uint first - 1"
    using args(2,3) by (intro int64_pred) (auto simp: batch_fits_def)
  with False show ?thesis
    by (intro refused) (auto simp: res_def sql_append_eq [OF rel find])
qed

lemma fence_simulates:
  assumes rel: "db_rel A d" and ep: "ep \<noteq> 0"
  obtains (fenced) r l where "A lid = Some l" "find_log lid d = Some r" "a_owner l \<le> int64 ep" "0 < int64 ep"
      "sql_fence lid (int64 ep) d = (Inr [r\<lparr>epoch := int64 ep\<rparr>], upd_log lid (\<lambda>r. r\<lparr>epoch := int64 ep\<rparr>) d)"
      "db_rel (A(lid \<mapsto> l\<lparr>a_owner := int64 ep\<rparr>)) (upd_log lid (\<lambda>r. r\<lparr>epoch := int64 ep\<rparr>) d)"
  | (missing) "A lid = None" "sql_fence lid (int64 ep) d = (Inr [], d)"
  | (higher) l where "A lid = Some l" "int64 ep < a_owner l" "sql_fence lid (int64 ep) d = (Inr [], d)"
proof (cases "find_log lid d")
  case None
  then show ?thesis
    using db_rel_find(1) [OF rel, of lid] sql_fence_eq [OF db_rel_keys [OF rel]] by (intro missing) simp_all
next
  case (Some r)
  from db_rel_find(2) [OF rel Some] obtain l where l: "A lid = Some l" and lr: "log_rel l r (tables d)"
    by blast
  have own: "a_owner l = epoch r" "0 \<le> epoch r" using lr by (auto simp: log_rel_def row_ok_def)
  show ?thesis
  proof (cases "epoch r \<le> int64 ep")
    case True
    have "int64 ep \<noteq> 0" using ep int64_inject [of ep 0] by (simp add: int64_def)
    with own True have "0 < int64 ep" by simp
    moreover have "db_rel (A(lid \<mapsto> l\<lparr>a_owner := int64 ep\<rparr>)) (upd_log lid (\<lambda>r. r\<lparr>epoch := int64 ep\<rparr>) d)"
      using rel l own True int64_range(2) by (intro db_rel_fence) simp_all
    ultimately show ?thesis
      using True own l Some sql_fence_eq [OF db_rel_keys [OF rel]] by (intro fenced) simp_all
  next
    case False
    then show ?thesis
      using l own Some sql_fence_eq [OF db_rel_keys [OF rel]] by (intro higher [OF l]) simp_all
  qed
qed

lemma trim_simulates:
  assumes rel: "db_rel A d"
  obtains (trimmed) r l where "A lid = Some l" "find_log lid d = Some r"
      "sql_trim upTo lid d = (Inr [r\<lparr>trim_upto := max (trim_upto r) (min upTo (last_seqno r))\<rparr>],
         upd_log lid (\<lambda>r. r\<lparr>trim_upto := max (trim_upto r) (min upTo (last_seqno r))\<rparr>) d)"
      "db_rel (A(lid \<mapsto> l\<lparr>a_trim := max (a_trim l) (nat (min upTo (int (length (a_hist l)))))\<rparr>))
         (upd_log lid (\<lambda>r. r\<lparr>trim_upto := max (trim_upto r) (min upTo (last_seqno r))\<rparr>) d)"
  | (missing) "A lid = None" "sql_trim upTo lid d = (Inr [], d)"
proof (cases "find_log lid d")
  case None
  then show ?thesis
    using db_rel_find(1) [OF rel, of lid] sql_trim_eq [OF db_rel_keys [OF rel]] by (intro missing) simp_all
next
  case (Some r)
  from db_rel_find(2) [OF rel Some] obtain l where l: "A lid = Some l" by blast
  then show ?thesis
    using Some sql_trim_eq [OF db_rel_keys [OF rel]] db_rel_trim [OF rel l] by (intro trimmed) simp_all
qed

lemma db_step_simulates:
  assumes "db_rel A d" "db_step d d'"
  shows "\<exists>A'. logs_steps A A' \<and> db_rel A' d'"
  using assms(2,1)
proof (induction rule: db_step.induct)
  case (step_fence ep d lid)
  from step_fence.prems step_fence.hyps show ?case
  proof (cases rule: fence_simulates [where lid = lid])
    case (fenced r l)
    have "logs_step A (A(lid \<mapsto> l\<lparr>a_owner := int64 ep\<rparr>))"
      using fenced(1) log_fence [OF fenced(4,3)] by (rule logs_change)
    with fenced show ?thesis by auto
  qed (use step_fence.prems in auto)
next
  case (step_append lid d r ep first ps)
  from step_append.prems step_append.hyps(1,2,3,5) show ?case
  proof (cases rule: append_simulates)
    case (written l)
    have "log_step l (l\<lparr>a_hist := a_hist l @ map (Pair (a_owner l)) ps\<rparr>)"
      using written(2,3) step_append.hyps(4) by (intro log_append) simp_all
    with written(1) have "logs_step A (A(lid \<mapsto> l\<lparr>a_hist := a_hist l @ map (Pair (a_owner l)) ps\<rparr>))"
      by (rule logs_change)
    with written(2,6) show ?thesis by auto
  qed (use step_append.prems in auto)
next
  case (step_trim d upTo lid)
  from step_trim.prems show ?case
  proof (cases rule: trim_simulates [where lid = lid and upTo = "int64 upTo"])
    case (trimmed r l)
    have "a_trim l \<le> length (a_hist l)"
      using db_rel_find(2) [OF step_trim.prems trimmed(2)] trimmed(1)
      by (auto simp: log_rel_def row_ok_def)
    then have "log_step l (l\<lparr>a_trim := max (a_trim l) (nat (min (int64 upTo) (int (length (a_hist l)))))\<rparr>)"
      by (intro log_trim) auto
    with trimmed(1) have
      "logs_step A (A(lid \<mapsto> l\<lparr>a_trim := max (a_trim l) (nat (min (int64 upTo) (int (length (a_hist l)))))\<rparr>))"
      by (rule logs_change)
    with trimmed(3,4) show ?thesis by auto
  qed (use step_trim.prems in auto)
next
  case (step_reclaim d lid m)
  then show ?case using db_rel_reclaimed by blast
next
  case (step_create names d os w)
  then show ?case using db_rel_created created_steps by blast
next
  case (step_burn d n)
  then show ?case using db_rel_burn by blast
qed

interpretation sim: forward_simulation db_step logs_step db_rel
  by unfold_locales (rule db_step_simulates)

end
