(* ===== verification/Calls.thy ===== *)
theory Calls
  imports Sessions
begin

text \<open>
  What a store can say after one call: how the tables, the clock and the statement cache come
  out of it, what the other sessions did meanwhile, and that the cache stays right.
\<close>

section \<open>Other sessions\<close>

text \<open>The other sessions only take steps of the schema.\<close>

definition rely :: "env \<Rightarrow> bool" where
  "rely env \<longleftrightarrow> (\<forall>t d. db_steps d (interfere env t d))"

text \<open>
  Nothing of the tables is this store's doing: between two moments they changed only by what
  the others did before some of its calls.
\<close>

definition untouched :: "env \<Rightarrow> sys \<Rightarrow> sys \<Rightarrow> bool" where
  "untouched env s s' \<longleftrightarrow>
     clk s \<le> clk s' \<and>
     (\<exists>ts. sorted_wrt (<) ts \<and> set ts \<subseteq> {clk s..<clk s'} \<and> sdb s' = fold (interfere env) ts (sdb s))"

lemma untouchedI:
  assumes "sorted_wrt (<) ts" "set ts \<subseteq> {clk s..<clk s'}" "clk s \<le> clk s'"
    and "sdb s' = fold (interfere env) ts (sdb s)"
  shows "untouched env s s'"
  using assms by (auto simp: untouched_def)

lemma untouched_later: "sdb s' = sdb s \<Longrightarrow> clk s \<le> clk s' \<Longrightarrow> untouched env s s'"
  by (rule untouchedI [of "[]"]) simp_all

lemma untouched_refl [simp]: "untouched env s s"
  by (simp add: untouched_later)

lemma untouched_trans [trans]:
  assumes "untouched env a b" "untouched env b c"
  shows "untouched env a c"
proof -
  from assms obtain ts us where "clk a \<le> clk b" "clk b \<le> clk c"
    and ts: "sorted_wrt (<) ts" "set ts \<subseteq> {clk a..<clk b}" "sdb b = fold (interfere env) ts (sdb a)"
    and us: "sorted_wrt (<) us" "set us \<subseteq> {clk b..<clk c}" "sdb c = fold (interfere env) us (sdb b)"
    by (auto simp: untouched_def)
  then show ?thesis by (intro untouchedI [of "ts @ us"]) (fastforce simp: sorted_wrt_append)+
qed

lemma untouched_begin:
  assumes "clk s < clk s'" "sdb s' = sdb (others env s)"
  shows "untouched env s s'"
  using assms by (intro untouchedI [of "[clk s]"]) (simp_all add: sdb_others)

lemma untouched_others: "untouched env s (tick (others env s))"
  by (rule untouched_begin) simp_all

lemma untouched_cache [simp]:
  "untouched env s (s'\<lparr>appends := a\<rparr>) = untouched env s s'"
  "untouched env (s\<lparr>appends := a\<rparr>) s' = untouched env s s'"
  by (simp_all add: untouched_def)

lemma untouched_steps: "rely env \<Longrightarrow> untouched env s s' \<Longrightarrow> db_steps (sdb s) (sdb s')"
proof -
  assume env: "rely env" and "untouched env s s'"
  then obtain ts where "sdb s' = fold (interfere env) ts (sdb s)" by (auto simp: untouched_def)
  moreover have "db_steps d (fold (interfere env) ts d)" for d
    using env by (induction ts arbitrary: d) (auto simp: rely_def intro: rtranclp_trans)
  ultimately show ?thesis by simp
qed

text \<open>No call fails.\<close>

definition faultless :: "env \<Rightarrow> bool" where
  "faultless env \<longleftrightarrow> (\<forall>t. outcome_of env t = Runs)"

lemma not_faultless: "outcome_of env t \<noteq> Runs \<Longrightarrow> \<not> faultless env"
  by (auto simp: faultless_def)

lemma quiet_faultless: "quiet env \<Longrightarrow> faultless env"
  by (simp add: quiet_def faultless_def)

lemma quiet_rely: "quiet env \<Longrightarrow> rely env"
  by (simp add: quiet_def rely_def)

lemma quiet_others [simp]: "quiet env \<Longrightarrow> others env s = s"
  by (simp add: quiet_def others_def)

lemma quiet_untouched:
  assumes "quiet env" "untouched env s s'"
  shows "sdb s' = sdb s"
proof -
  have "fold (interfere env) ts d = d" for ts d
    using assms(1) by (induction ts) (simp_all add: quiet_def)
  then show ?thesis using assms(2) by (auto simp: untouched_def)
qed

section \<open>Ordinals never change\<close>

definition keeps_ordinals :: "db \<Rightarrow> db \<Rightarrow> bool" where
  "keeps_ordinals d d' \<longleftrightarrow>
     (\<forall>lid r. find_log lid d = Some r \<longrightarrow> (\<exists>r'. find_log lid d' = Some r' \<and> ordinal r' = ordinal r))"

lemma keeps_ordinals_same: "registry d' = registry d \<Longrightarrow> keeps_ordinals d d'"
  by (simp add: keeps_ordinals_def find_log_def)

lemma keeps_ordinals_trans: "keeps_ordinals a b \<Longrightarrow> keeps_ordinals b c \<Longrightarrow> keeps_ordinals a c"
  unfolding keeps_ordinals_def by metis

lemma keeps_ordinals_map:
  assumes "registry d' = map_option (map g) (registry d)"
    and "\<And>r. log_id (g r) = log_id r" "\<And>r. ordinal (g r) = ordinal r"
  shows "keeps_ordinals d d'"
  using assms by (cases "registry d") (auto simp: keeps_ordinals_def find_log_def find_map_key)

lemma keeps_ordinals_upd:
  assumes "\<And>r. log_id (f r) = log_id r" "\<And>r. ordinal (f r) = ordinal r"
  shows "keeps_ordinals d (upd_log lid f d)"
  using assms by (intro keeps_ordinals_map [where g = "\<lambda>r. if log_id r = lid then f r else r"])
    (simp_all add: upd_log_def)

lemma keeps_ordinals_update:
  assumes "\<And>r. log_id (f r) = log_id r" "\<And>r. ordinal (f r) = ordinal r"
  shows "keeps_ordinals d (snd (sql_update p f d))"
  using assms
  by (intro keeps_ordinals_map [where g = "\<lambda>r. if p r then f r else r"])
    (simp_all add: sql_update_def map_idI split: option.splits)

lemma insert_rows_registry [simp]: "registry (insert_rows c t rs d) = registry d"
  by (simp add: insert_rows_def)

lemma keeps_ordinals_append: "keeps_ordinals d (snd (sql_append q lst lid e prev cols d))"
proof -
  let ?u = "sql_update (\<lambda>r. log_id r = lid \<and> epoch r = e \<and> last_seqno r = prev) (\<lambda>r. r\<lparr>last_seqno := lst\<rparr>) d"
  have "registry (snd (sql_append q lst lid e prev cols d)) = registry d
      \<or> registry (snd (sql_append q lst lid e prev cols d)) = registry (snd ?u)"
    by (auto simp: sql_append_def Let_def split: sum.splits prod.splits)
  moreover have "keeps_ordinals d (snd ?u)" by (rule keeps_ordinals_update) simp_all
  then have "keeps_ordinals d d'" if "registry d' = registry (snd ?u)" for d'
    using that by (simp add: keeps_ordinals_def find_log_def)
  ultimately show ?thesis
    using keeps_ordinals_same by blast
qed

lemma insert_names_prefix: "insert_names names rows n = (os, rows', n') \<Longrightarrow> \<exists>new. rows' = rows @ new"
proof (induction names arbitrary: rows n os)
  case (Cons x names)
  then show ?case by (fastforce split: if_splits prod.splits)
qed simp

lemma create_table_frame [simp]:
  "registry (create_table t d) = registry d" "next_ordinal (create_table t d) = next_ordinal d"
  by (simp_all add: create_table_def split: option.splits)

lemma fold_create_frame [simp]:
  "registry (fold create_table ts d) = registry d" "next_ordinal (fold create_table ts d) = next_ordinal d"
  by (induction ts arbitrary: d) simp_all

lemma find_append_Some: "find P xs = Some x \<Longrightarrow> find P (xs @ ys) = Some x"
  by (induction xs) (auto split: if_splits)

lemma keeps_ordinals_create:
  assumes "sql_insert_logs names d = (Inr os, w)"
  shows "keeps_ordinals d (snd (sql_create_rings os w))"
proof -
  from assms obtain rows rows' n' where "registry d = Some rows" "registry w = Some rows'"
    "insert_names names rows (next_ordinal d) = (os, rows', n')"
    by (auto simp: sql_insert_logs_def split: option.splits prod.splits)
  with insert_names_prefix show ?thesis
    by (fastforce simp: keeps_ordinals_def find_log_def sql_create_rings_def find_append_Some)
qed

lemma keeps_ordinals_reclaimed: "keeps_ordinals d (reclaimed lid m d)"
proof (cases "find_log lid d")
  case None
  then show ?thesis by (simp add: reclaimed_def keeps_ordinals_same)
next
  case (Some r)
  have t: "keeps_ordinals d (truncated lid r d)"
    unfolding truncated_def upd_log_tables
    by (rule keeps_ordinals_trans [OF keeps_ordinals_upd keeps_ordinals_same]) simp_all
  have "keeps_ordinals x (upd_log lid rotate_row x)" for x
    by (rule keeps_ordinals_upd) simp_all
  with t show ?thesis
    by (auto simp: reclaimed_def Some split_beta Let_def keeps_ordinals_same intro: keeps_ordinals_trans)
qed

interpretation ord_mono: monotone_steps db_step keeps_ordinals
proof
  show "keeps_ordinals s s" for s by (simp add: keeps_ordinals_same)
  show "keeps_ordinals a b \<Longrightarrow> keeps_ordinals b c \<Longrightarrow> keeps_ordinals a c" for a b c
    by (rule keeps_ordinals_trans)
  show "db_step s t \<Longrightarrow> keeps_ordinals s t" for s t
    by (induction rule: db_step.induct)
      (auto simp: sql_fence_def sql_trim_def keeps_ordinals_same
        intro: keeps_ordinals_update keeps_ordinals_append keeps_ordinals_reclaimed keeps_ordinals_create)
qed

section \<open>The state a store works in\<close>

text \<open>Every cached statement names the tables of its log.\<close>

definition cache_ok :: "sys \<Rightarrow> bool" where
  "cache_ok s \<longleftrightarrow>
     (\<forall>lid sql. appends s lid = Some sql \<longrightarrow>
        (\<exists>r. find_log lid (sdb s) = Some r \<and> sql = appendSQL (ordinal r)))"

text \<open>The tables represent the logs \<open>A\<close>, and the cache is right for them.\<close>

definition good :: "logs \<Rightarrow> sys \<Rightarrow> bool" where
  "good A s \<longleftrightarrow> db_rel A (sdb s) \<and> cache_ok s"

lemma good_find:
  assumes "good A s" "find_log lid (sdb s) = Some r"
  obtains l where "A lid = Some l" "log_rel l r (tables (sdb s))"
  using db_rel_find(2) [of A "sdb s" lid r] assms by (auto simp: good_def)

lemma good_log:
  assumes "good A s" "A lid = Some l"
  shows "0 \<le> a_owner l" "a_owner l \<le> bigint_max" "int (length (a_hist l)) < bigint_max"
    "a_trim l \<le> length (a_hist l)" "epochs_ok (a_hist l) (a_owner l)"
proof -
  from assms obtain r where "log_rel l r (tables (sdb s))"
    by (auto simp: good_def elim: db_rel_obtain)
  then show "0 \<le> a_owner l" "a_owner l \<le> bigint_max" "int (length (a_hist l)) < bigint_max"
    "a_trim l \<le> length (a_hist l)" "epochs_ok (a_hist l) (a_owner l)"
    by (auto simp: log_rel_def row_ok_def)
qed

lemma cache_ok_keeps:
  assumes "cache_ok s" "keeps_ordinals (sdb s) (sdb s')" "appends s' = appends s"
  shows "cache_ok s'"
  using assms unfolding cache_ok_def keeps_ordinals_def by metis

lemma good_steps:
  assumes "good A s" "db_steps (sdb s) (sdb s')" "appends s' = appends s"
  shows "\<exists>A'. logs_steps A A' \<and> good A' s'"
  using assms sim.simulates_run [of "sdb s" "sdb s'" A] ord_mono.steps_le [of "sdb s" "sdb s'"]
    cache_ok_keeps [of s s'] by (auto simp: good_def)

lemma good_tick [simp]: "good A (tick s) = good A s"
  by (simp add: good_def cache_ok_def)

text \<open>What becomes of the logs while a store waits: steps of the others, none when nobody else writes.\<close>

definition meanwhile :: "env \<Rightarrow> logs \<Rightarrow> logs \<Rightarrow> bool" where
  "meanwhile env A A' \<longleftrightarrow> logs_steps A A' \<and> (quiet env \<longrightarrow> A' = A)"

lemma meanwhile_refl [simp]: "meanwhile env A A"
  by (simp add: meanwhile_def)

lemma meanwhile_trans [trans]: "meanwhile env A B \<Longrightarrow> meanwhile env B C \<Longrightarrow> meanwhile env A C"
  by (auto simp: meanwhile_def intro: rtranclp_trans)

lemma meanwhile_later:
  assumes "meanwhile env A A'" "A lid = Some l"
  obtains l' where "A' lid = Some l'" "log_le l l'"
  using assms by (auto simp: meanwhile_def elim: logs_steps_later)

lemma quiet_meanwhile: "quiet env \<Longrightarrow> meanwhile env A A' \<longleftrightarrow> A' = A"
  by (auto simp: meanwhile_def)

lemma good_others:
  assumes "rely env" "good A s"
  shows "\<exists>A'. meanwhile env A A' \<and> good A' (tick (others env s))"
proof (cases "quiet env")
  case True
  with assms(2) show ?thesis by (intro exI [of _ A]) simp
next
  case False
  have "\<exists>A'. logs_steps A A' \<and> good A' (tick (others env s))"
    using assms by (intro good_steps) (auto simp: rely_def sdb_others)
  with False show ?thesis by (auto simp: meanwhile_def)
qed

text \<open>
  A moment of a call: up to it only the others have changed the tables, and \<open>A1\<close> are the logs the
  tables represent then. Nothing the call itself did can be among what changed by then.
\<close>

definition at_moment :: "env \<Rightarrow> logs \<Rightarrow> sys \<Rightarrow> logs \<Rightarrow> sys \<Rightarrow> bool" where
  "at_moment env A s A1 s1 \<longleftrightarrow> untouched env s s1 \<and> meanwhile env A A1 \<and> good A1 s1"

lemma at_momentI: "untouched env s s1 \<Longrightarrow> meanwhile env A A1 \<Longrightarrow> good A1 s1 \<Longrightarrow> at_moment env A s A1 s1"
  by (simp add: at_moment_def)

lemma at_moment_refl: "good A s \<Longrightarrow> at_moment env A s A s"
  by (simp add: at_moment_def)

lemma at_moment_trans [trans]:
  "at_moment env A s A1 s1 \<Longrightarrow> at_moment env A1 s1 A2 s2 \<Longrightarrow> at_moment env A s A2 s2"
  unfolding at_moment_def using meanwhile_trans untouched_trans by blast

lemma at_moment_others: "meanwhile env A A1 \<Longrightarrow> good A1 (others env s) \<Longrightarrow> at_moment env A s A1 (tick (others env s))"
  by (simp add: at_moment_def untouched_others)

text \<open>Another store, later: the tables moved on by any steps, and its own cache is right.\<close>

lemma good_later:
  assumes "good A s" "db_steps (sdb s) (sdb s')" "cache_ok s'"
  obtains A' where "logs_steps A A'" "good A' s'"
  using sim.simulates_run [of "sdb s" "sdb s'" A] assms by (auto simp: good_def)

lemma others_keeps: "rely env \<Longrightarrow> keeps_ordinals (sdb s) (sdb (others env s))"
  using ord_mono.steps_le by (simp add: rely_def sdb_others)

lemma keeps_ordinals_find:
  assumes "keeps_ordinals d d'" "find_log lid d = Some r"
  obtains r' where "find_log lid d' = Some r'" "ordinal r' = ordinal r"
  using assms by (auto simp: keeps_ordinals_def)

text \<open>When a call that names a log by its row is made, the log is there with the same ordinal, whatever others did.\<close>

lemma good_others_find:
  assumes "rely env" "good A s" "find_log lid (sdb s) = Some r"
  obtains A1 r1 l1 where "meanwhile env A A1" "good A1 (others env s)" "find_log lid (sdb (others env s)) = Some r1"
    "ordinal r1 = ordinal r" "A1 lid = Some l1" "log_rel l1 r1 (tables (sdb (others env s)))"
proof -
  from good_others [OF assms(1,2)] obtain A1 where A1: "meanwhile env A A1" "good A1 (others env s)" by auto
  have "keeps_ordinals (sdb s) (sdb (others env s))" using assms(1) by (rule others_keeps)
  with assms(3) obtain r1 where r1: "find_log lid (sdb (others env s)) = Some r1" "ordinal r1 = ordinal r"
    by (auto simp: keeps_ordinals_def)
  then show ?thesis using A1 that db_rel_find(2) [of A1 "sdb (others env s)" lid r1] by (auto simp: good_def)
qed

lemma good_step:
  assumes "good A s" "db_rel A' d" "keeps_ordinals (sdb s) d"
  shows "good A' (s\<lparr>sdb := d\<rparr>)"
  using assms cache_ok_keeps [of s "s\<lparr>sdb := d\<rparr>"] by (simp add: good_def)

lemma remember_good:
  assumes "good A s" "find_log lid (sdb s) = Some r"
  shows "good A (snd (remember lid (ordinal r) s))" "fst (remember lid (ordinal r) s) = appendSQL (ordinal r)"
    "sdb (snd (remember lid (ordinal r) s)) = sdb s" "clk (snd (remember lid (ordinal r) s)) = clk s"
proof -
  have "appends s lid = Some sql \<Longrightarrow> sql = appendSQL (ordinal r)" for sql
    using assms by (fastforce simp: good_def cache_ok_def)
  then show "fst (remember lid (ordinal r) s) = appendSQL (ordinal r)"
    by (auto simp: remember_def split: option.splits)
  show "good A (snd (remember lid (ordinal r) s))"
    using assms by (auto simp: good_def cache_ok_def remember_def split: option.splits)
qed (auto simp: remember_def split: option.splits)

lemma remember_untouched [simp]: "untouched env s (snd (remember lid ord s')) = untouched env s s'"
  by (simp add: remember_def split: option.splits)

section \<open>One call\<close>

lemma pg_call_cases:
  assumes "pg_call env stmt s = (r, s')"
  obtains (ran) "r = pg_result (fst (stmt (sdb (others env s))))"
      "s' = tick ((others env s)\<lparr>sdb := snd (stmt (sdb (others env s)))\<rparr>)" "outcome_of env (clk s) = Runs"
  | (lost) f where "r = Inl (failure_err f)" "s' = tick (others env s)" "outcome_of env (clk s) \<noteq> Runs"
  | (landed) n where "r = Inl (DriverError n)"
      "s' = tick ((others env s)\<lparr>sdb := snd (stmt (sdb (others env s)))\<rparr>)" "outcome_of env (clk s) \<noteq> Runs"
  using assms by (auto simp: pg_call_def split_beta Let_def split: outcome.splits)

lemma failure_err_neq [simp]: "failure_err f \<noteq> ErrNoRows" "failure_err f \<noteq> Sentinel x"
  by (cases f; simp)+

text \<open>A statement that changes nothing answers, or fails.\<close>

lemma pg_call_idle:
  assumes "pg_call env stmt s = (r, s')" "stmt (sdb (others env s)) = (Inr a, sdb (others env s))"
  obtains (ran) "r = Inr a" "s' = tick (others env s)" "outcome_of env (clk s) = Runs"
  | (fails) err where "r = Inl err" "err \<noteq> ErrNoRows" "\<And>x. err \<noteq> Sentinel x" "s' = tick (others env s)"
      "outcome_of env (clk s) \<noteq> Runs"
  using assms by (cases "outcome_of env (clk s)") (auto simp: pg_call_def Let_def)

text \<open>Looking a log's row up.\<close>

lemma query_row_select:
  assumes call: "query_row env (sql_select (\<lambda>r. log_id r = lid)) s = (res, s')"
    and keys: "keys_ok (sdb (others env s))"
  obtains (row) r where "res = Inr r" "find_log lid (sdb s') = Some r" "s' = tick (others env s)"
  | (none) "res = Inl ErrNoRows" "find_log lid (sdb s') = None" "s' = tick (others env s)"
  | (fails) err where "res = Inl err" "err \<noteq> ErrNoRows" "\<And>x. err \<noteq> Sentinel x" "s' = tick (others env s)"
      "outcome_of env (clk s) \<noteq> Runs"
proof -
  let ?sel = "sql_select (\<lambda>r. log_id r = lid)"
  obtain r where c: "pg_call env ?sel s = (r, s')" and res: "res = bind_ok r first_row"
    using call by (auto simp: query_row_def split: prod.splits)
  have sel: "?sel (sdb (others env s)) =
      (Inr (case find_log lid (sdb (others env s)) of None \<Rightarrow> [] | Some r \<Rightarrow> [r]), sdb (others env s))"
    using keys by (rule sql_select_log)
  from c sel show ?thesis
  proof (cases rule: pg_call_idle)
    case ran
    then show ?thesis
      by (cases "find_log lid (sdb (others env s))") (auto intro: row none simp: res)
  next
    case (fails err)
    then show ?thesis by (intro that(3) [of err]) (simp_all add: res)
  qed
qed

text \<open>What the others did before a call, and the call itself, are steps of the schema.\<close>

lemma others_steps:
  assumes "rely env" "db_step (sdb (others env s)) d"
  shows "db_steps (sdb s) d"
proof -
  have "db_steps (sdb s) (sdb (others env s))" using assms(1) by (simp add: rely_def sdb_others)
  then show ?thesis using assms(2) by (rule rtranclp.rtrancl_into_rtrancl)
qed

section \<open>Operations that give up\<close>

text \<open>
  An operation gives up when one of its calls failed: it answers with an error that is none of
  the package's, and nothing of the tables is its doing.
\<close>

definition gave_up :: "env \<Rightarrow> logs \<Rightarrow> sys \<Rightarrow> goerr + 'a \<Rightarrow> sys \<Rightarrow> bool" where
  "gave_up env A s res s' \<longleftrightarrow>
     (\<exists>A' err. res = Inl err \<and> (\<forall>x. err \<noteq> Sentinel x) \<and> meanwhile env A A' \<and> good A' s' \<and> untouched env s s' \<and>
        \<not> faultless env)"

lemma gave_upI:
  assumes "\<And>x. err \<noteq> Sentinel x" "meanwhile env A A'" "good A' s'" "untouched env s s'" "\<not> faultless env"
  shows "gave_up env A s (Inl err) s'"
  using assms by (auto simp: gave_up_def)

lemma gave_up_obtain:
  assumes "gave_up env A s res s'"
  obtains A' err where "res = Inl err" "\<forall>x. err \<noteq> Sentinel x" "meanwhile env A A'" "good A' s'" "untouched env s s'"
    "\<not> faultless env"
  using assms unfolding gave_up_def by blast

lemma gave_up_later:
  assumes "meanwhile env A A1" "untouched env s s1" "gave_up env A1 s1 res s'"
  shows "gave_up env A s res s'"
proof -
  from assms(3) obtain A' err where r: "res = Inl err" "\<forall>x. err \<noteq> Sentinel x" "meanwhile env A1 A'" "good A' s'"
    "untouched env s1 s'" "\<not> faultless env" by (rule gave_up_obtain)
  with meanwhile_trans [OF assms(1) r(3)] untouched_trans [OF assms(2) r(5)] show ?thesis by (auto intro: gave_upI)
qed

lemma lost_gave_up:
  assumes "meanwhile env A A'" "good A' (tick (others env s))" "outcome_of env (clk s) \<noteq> Runs" "\<And>x. err \<noteq> Sentinel x"
  shows "gave_up env A s (Inl err) (tick (others env s))"
  using assms untouched_others by (intro gave_upI) (auto simp: faultless_def)

end
