(* ===== verification/Append_Contract.thy ===== *)
theory Append_Contract
  imports Calls
begin

text \<open>
  What \<open>Append\<close> promises while other sessions write and calls fail: it adds its batch at one
  moment of the call, whole, or it leaves the tables alone; and a refusal it gives is one the
  log gave reason for.
\<close>

text \<open>The row of a log as the refusal sees it.\<close>

definition log_found :: "alog \<Rightarrow> appendState" where
  "log_found l = \<lparr>owner = uint64 (a_owner l), written = uint64 (int (length (a_hist l)))\<rparr>"

text \<open>
  The state the append's own statement meets: what the others left before it, after the look-up of the
  log's row where its statement is not cached.
\<close>

definition statement_at :: "env \<Rightarrow> LogID \<Rightarrow> sys \<Rightarrow> sys" where
  "statement_at env lid s = others env (if appends s lid = None then tick (others env s) else s)"

lemma appendFor_cases:
  assumes env: "rely env" and s: "good A s" and call: "appendFor env lid s = (res, s')"
  obtains (known) A' r where "res = Inr (Some (appendSQL (ordinal r)))" "find_log lid (sdb s') = Some r"
      "meanwhile env A A'" "good A' s'" "untouched env s s'" "sdb (others env s') = sdb (statement_at env lid s)"
  | (unknown) A' where "res = Inr None" "A' lid = None" "meanwhile env A A'" "good A' s'" "untouched env s s'"
  | (fails) A' err where "res = Inl err" "\<And>x. err \<noteq> Sentinel x" "meanwhile env A A'" "good A' s'"
      "untouched env s s'" "outcome_of env (clk s) \<noteq> Runs"
proof (cases "appends s lid")
  case (Some sql)
  with s obtain r where "find_log lid (sdb s) = Some r" "sql = appendSQL (ordinal r)"
    by (auto simp: good_def cache_ok_def)
  then show ?thesis using call Some s by (intro known [of r A]) (auto simp: appendFor_def statement_at_def)
next
  case None
  from good_others [OF env s] obtain A' where A': "meanwhile env A A'" "good A' (tick (others env s))" by blast
  then have keys: "keys_ok (sdb (others env s))" by (auto simp: good_def db_rel_keys)
  let ?q = "query_row env (sql_select (\<lambda>r. log_id r = lid)) s"
  obtain q s1 where q: "?q = (q, s1)" by (cases ?q)
  from q keys show ?thesis
  proof (cases rule: query_row_select)
    case (row r)
    with A' have g: "good A' s1" by simp
    from row q None call have "res = Inr (Some (fst (remember lid (ordinal r) s1)))"
      "s' = snd (remember lid (ordinal r) s1)"
      by (auto simp: appendFor_def split_beta)
    with remember_good [OF g row(2)] row A'(1) untouched_others None show ?thesis
      by (intro known [of r A']) (simp_all add: statement_at_def sdb_others)
  next
    case none
    with A' have "A' lid = None" using db_rel_find(1) [of A' "sdb s1" lid] by (simp add: good_def)
    with none q None call A' untouched_others show ?thesis
      by (intro unknown [of A']) (auto simp: appendFor_def)
  next
    case (fails err)
    with q None call untouched_others A' show ?thesis
      by (intro that(3) [of err A']) (auto simp: appendFor_def)
  qed
qed

lemma log_rel_found:
  assumes "log_rel l r T"
  shows "\<lparr>owner = uint64 (epoch r), written = uint64 (last_seqno r)\<rparr> = log_found l"
  using assms by (simp add: log_found_def log_rel_def)

lemma appendRefusal_unfenced [simp]: "appendRefusal lid ep first lst no_appendState = Some (Sentinel ErrFenced)"
  by (simp add: appendRefusal_def no_appendState_def)

lemma appendRefused_cases:
  assumes env: "rely env" and s: "good A s" and call: "appendRefused env lid ep first lst s = (res, s')"
  obtains (missing) A' where "res = Inl (Sentinel ErrFenced)" "A' lid = None" "meanwhile env A A'" "good A' s'"
      "untouched env s s'"
  | (named) A' l x where "res = Inl (Sentinel x)" "A' lid = Some l" "meanwhile env A A'" "good A' s'"
      "appendRefusal lid ep first lst (log_found l) = Some (Sentinel x)" "untouched env s s'"
  | (admitted) A' l where "res = Inl RefusedAdmittedAppend" "A' lid = Some l" "meanwhile env A A'" "good A' s'"
      "appendRefusal lid ep first lst (log_found l) = None" "untouched env s s'"
  | (fails) A' err where "res = Inl err" "\<And>x. err \<noteq> Sentinel x" "meanwhile env A A'" "good A' s'"
      "untouched env s s'" "outcome_of env (clk s) \<noteq> Runs"
proof -
  from good_others [OF env s] obtain A' where A': "meanwhile env A A'" "good A' (tick (others env s))" by blast
  then have keys: "keys_ok (sdb (others env s))" by (auto simp: good_def db_rel_keys)
  let ?q = "query_row env (sql_select (\<lambda>r. log_id r = lid)) s"
  obtain q s1 where q: "?q = (q, s1)" by (cases ?q)
  from q keys show ?thesis
  proof (cases rule: query_row_select)
    case (row r)
    with A' have g: "good A' s1" by simp
    from g row(2) obtain l where l: "A' lid = Some l" and lr: "log_rel l r (tables (sdb s1))"
      by (rule good_find)
    have eq: "appendRefused env lid ep first lst s = (case appendRefusal lid ep first lst (log_found l) of
        Some refusal \<Rightarrow> (Inl refusal, s1) | None \<Rightarrow> (Inl RefusedAdmittedAppend, s1))"
      using q row(1) by (simp add: appendRefused_def log_rel_found [OF lr])
    show ?thesis
    proof (cases "appendRefusal lid ep first lst (log_found l)")
      case None
      with eq call l g A'(1) row(3) untouched_others show ?thesis by (intro admitted [of A' l]) auto
    next
      case (Some err)
      then obtain x where "err = Sentinel x" by (auto simp: appendRefusal_def split: if_splits)
      with Some eq call l g A'(1) row(3) untouched_others show ?thesis by (intro named [of x A' l]) auto
    qed
  next
    case none
    with A' have "A' lid = None" using db_rel_find(1) [of A' "sdb s1" lid] by (simp add: good_def)
    with none q call A' untouched_others show ?thesis
      by (intro missing [of A']) (auto simp: appendRefused_def)
  next
    case (fails err)
    with q call untouched_others A' show ?thesis
      by (intro that(4) [of err A']) (auto simp: appendRefused_def)
  qed
qed

text \<open>
  The effect of an append, at some moment of the call: the log was the writer's, it ended just
  below the batch, and the batch is what it gained.
\<close>

definition wrote :: "env \<Rightarrow> logs \<Rightarrow> LogID \<Rightarrow> Epoch \<Rightarrow> Seqno \<Rightarrow> bytes list \<Rightarrow> sys \<Rightarrow> bool" where
  "wrote env A lid ep first ps s' \<longleftrightarrow>
     (\<exists>A1 l. meanwhile env A A1 \<and> A1 lid = Some l \<and> a_owner l = int64 ep \<and>
        uint first = int (length (a_hist l)) + 1 \<and>
        good (A1(lid \<mapsto> l\<lparr>a_hist := a_hist l @ map (Pair (int64 ep)) ps\<rparr>)) s')"

text \<open>The append statement, issued for a log that exists.\<close>

lemma append_call_cases:
  assumes env: "rely env" and s: "good A s" and find: "find_log lid (sdb s) = Some r"
    and args: "ep \<noteq> 0" "first \<noteq> 0" "batch_fits first ps" "ps \<noteq> []"
    and call: "pg_call env (sql_append (appendSQL (ordinal r)) (int64 (first + of_nat (length ps) - 1)) lid
        (int64 ep) (int64 (first - 1)) (chunkArrays first ps)) s = (res, s')"
  obtains (written) "wrote env A lid ep first ps s'" "res = Inr 1 \<or> (\<exists>n. res = Inl (DriverError n))"
      "faultless env \<Longrightarrow> res = Inr 1" "db_steps (sdb s) (sdb s')"
  | (refused) A' l where "res = Inr 0" "meanwhile env A A'" "good A' s'" "untouched env s s'" "A' lid = Some l"
      "\<not> (a_owner l = int64 ep \<and> int (length (a_hist l)) + 1 = uint first)" "sdb s' = sdb (others env s)"
  | (failed) A' err where "res = Inl err" "\<And>x. err \<noteq> Sentinel x" "meanwhile env A A'" "good A' s'"
      "untouched env s s'" "outcome_of env (clk s) \<noteq> Runs"
proof -
  let ?s1 = "others env s"
  let ?stmt = "sql_append (appendSQL (ordinal r)) (int64 (first + of_nat (length ps) - 1)) lid
        (int64 ep) (int64 (first - 1)) (chunkArrays first ps)"
  obtain A1 r1 l1 where A1: "meanwhile env A A1" "good A1 ?s1" and find1: "find_log lid (sdb ?s1) = Some r1"
    and ord: "ordinal r1 = ordinal r" and l1: "A1 lid = Some l1" and lr1: "log_rel l1 r1 (tables (sdb ?s1))"
    using env s find by (rule good_others_find)
  have rel1: "db_rel A1 (sdb ?s1)" using A1(2) by (simp add: good_def)
  from find1 args have "db_step (sdb ?s1) (snd (?stmt (sdb ?s1)))"
    unfolding ord [symmetric] by (intro step_append)
  with env have steps: "db_steps (sdb s) (snd (?stmt (sdb ?s1)))" by (rule others_steps)
  from rel1 find1 args(1-3) show ?thesis
  proof (cases rule: append_simulates)
    case (written l)
    let ?s' = "tick (?s1\<lparr>sdb := snd (?stmt (sdb ?s1))\<rparr>)"
    have g: "good (A1(lid \<mapsto> l\<lparr>a_hist := a_hist l @ map (Pair (int64 ep)) ps\<rparr>)) ?s'"
      using good_step [OF A1(2) written(6) keeps_ordinals_append] ord by simp
    then have w: "wrote env A lid ep first ps ?s'"
      unfolding wrote_def using A1(1) written(1,2,4) by blast
    from call show ?thesis
    proof (cases rule: pg_call_cases)
      case ran
      with w written(5) ord steps show ?thesis by (intro that(1)) auto
    next
      case (lost f)
      then show ?thesis using A1 untouched_others
        by (intro failed [of "failure_err f" A1]) simp_all
    next
      case (landed n)
      with w not_faultless [OF landed(3)] steps show ?thesis by (intro that(1)) auto
    qed
  next
    case refused
    then have stmt: "?stmt (sdb ?s1) = (Inr 0, sdb ?s1)" using ord by simp
    from call stmt show ?thesis
    proof (cases rule: pg_call_idle)
      case ran
      moreover have "\<not> (a_owner l1 = int64 ep \<and> int (length (a_hist l1)) + 1 = uint first)"
        using refused(2) lr1 by (simp add: log_rel_def)
      ultimately show ?thesis using A1 l1 untouched_others by (intro that(2) [of A1 l1]) simp_all
    next
      case (fails err)
      then show ?thesis using A1 untouched_others by (intro failed [of err A1]) simp_all
    qed
  qed
qed

lemma checkAppend_args:
  assumes "checkAppend lid ep first n = Inr lst"
  shows "ep \<noteq> 0" "first \<noteq> 0" "n \<noteq> 0" "lst = first + of_nat n - 1"
  using assms by (auto simp: checkAppend_Inr_iff)

definition refusal_of :: "LogID \<Rightarrow> Epoch \<Rightarrow> Seqno \<Rightarrow> Seqno \<Rightarrow> alog \<Rightarrow> goerr" where
  "refusal_of lid ep first lst l =
     (case appendRefusal lid ep first lst (log_found l) of
        Some err \<Rightarrow> err | None \<Rightarrow> RefusedAdmittedAppend)"

lemma refusal_of_bounded:
  assumes b: "0 \<le> a_owner l" "a_owner l \<le> bigint_max" "int (length (a_hist l)) < bigint_max"
    and args: "ep \<noteq> 0" "first \<noteq> 0"
  shows "refusal_of lid ep first lst l =
    (if a_owner l \<noteq> int64 ep then Sentinel ErrFenced
     else if uint first \<le> int (length (a_hist l)) then Sentinel ErrAlreadyWritten
     else if int (length (a_hist l)) + 1 < uint first then Sentinel ErrGap
     else RefusedAdmittedAppend)"
proof -
  have own: "uint64 (a_owner l) = ep \<longleftrightarrow> a_owner l = int64 ep"
    using b(1,2) by (auto simp flip: int64_inject)
  have zero: "uint64 (a_owner l) = 0 \<longrightarrow> a_owner l \<noteq> int64 ep"
    using own args(1) by auto
  have len: "uint (uint64 (int (length (a_hist l)))) = int (length (a_hist l))"
    using b(3) by (simp add: uint_uint64)
  have "uint (first - 1) = uint first - 1" using args(2) by (rule uint_pred)
  then show ?thesis
    using own zero by (auto simp: refusal_of_def appendRefusal_def log_found_def word_le_def word_less_def len)
qed

lemma refusal_of_eq:
  assumes "good A s" "A lid = Some l" "ep \<noteq> 0" "first \<noteq> 0"
  shows "refusal_of lid ep first lst l =
    (if a_owner l \<noteq> int64 ep then Sentinel ErrFenced
     else if uint first \<le> int (length (a_hist l)) then Sentinel ErrAlreadyWritten
     else if int (length (a_hist l)) + 1 < uint first then Sentinel ErrGap
     else RefusedAdmittedAppend)"
  using good_log [OF assms(1,2)] assms(3,4) by (intro refusal_of_bounded)

text \<open>
  The answer to an append whose statement matched no row at a moment when the logs were
  \<open>A1\<close>: the refusal is read from a later moment.
\<close>

lemma appendRefused_log:
  assumes env: "rely env" and s: "good A1 s1" and l1: "A1 lid = Some l1"
    and call: "appendRefused env lid ep first lst s1 = (res, s')"
  obtains (answer) A2 l2 where "meanwhile env A1 A2" "A2 lid = Some l2" "good A2 s'" "untouched env s1 s'"
      "res = Inl (refusal_of lid ep first lst l2)"
  | (fails) A' err where "res = Inl err" "\<And>x. err \<noteq> Sentinel x" "meanwhile env A1 A'" "good A' s'"
      "untouched env s1 s'" "\<not> faultless env"
  using env s call
proof (cases rule: appendRefused_cases)
  case (missing A')
  from missing(3) l1 obtain l' where "A' lid = Some l'" by (rule meanwhile_later)
  with missing(2) show ?thesis by simp
next
  case (named A' l x)
  then show ?thesis by (intro answer [of A' l]) (simp_all add: refusal_of_def)
next
  case (admitted A' l)
  then show ?thesis by (intro answer [of A' l]) (simp_all add: refusal_of_def)
next
  case (fails A' err)
  then show ?thesis by (intro that(2) [of err A']) (auto simp: faultless_def)
qed

text \<open>
  The whole of \<open>Append\<close>. A refusal: the statement matched no row of the tables \<open>d\<close> it met, when the
  logs were \<open>A1\<close>, and the answer is read from a later moment.
\<close>

definition refused_append :: "env \<Rightarrow> db \<Rightarrow> logs \<Rightarrow> LogID \<Rightarrow> Epoch \<Rightarrow> Seqno \<Rightarrow> bytes list \<Rightarrow> sys \<Rightarrow> goerr + unit \<Rightarrow> sys \<Rightarrow> bool" where
  "refused_append env d A lid ep first ps s res s' \<longleftrightarrow>
     (\<exists>A1 l1 A2 l2. meanwhile env A A1 \<and> A1 lid = Some l1 \<and>
        (faultless env \<longrightarrow> db_rel A1 d \<and> \<not> (a_owner l1 = int64 ep \<and> int (length (a_hist l1)) + 1 = uint first)) \<and>
        meanwhile env A1 A2 \<and> A2 lid = Some l2 \<and> good A2 s' \<and> untouched env s s' \<and>
        res = Inl (refusal_of lid ep first (first + of_nat (length ps) - 1) l2))"

lemma refused_append_late:
  assumes env: "rely env" and A1: "meanwhile env A A1" "good A1 s2" "untouched env s s2" "A1 lid = Some l1"
    and no: "faultless env \<Longrightarrow> db_rel A1 d \<and> \<not> (a_owner l1 = int64 ep \<and> int (length (a_hist l1)) + 1 = uint first)"
    and r: "appendRefused env lid ep first (first + of_nat (length ps) - 1) s2 = (res, s')"
  shows "refused_append env d A lid ep first ps s res s' \<or> gave_up env A s res s'"
  using env A1(2,4) r
proof (cases rule: appendRefused_log)
  case (answer A2 l2)
  have "untouched env s s'" using A1(3) answer(4) by (rule untouched_trans)
  then show ?thesis using answer A1 no unfolding refused_append_def by blast
next
  case (fails A' err)
  then have "gave_up env A1 s2 res s'" by (auto intro: gave_upI)
  then show ?thesis using gave_up_later [OF A1(1,3)] by blast
qed

lemma append_known_cases:
  assumes env: "rely env" and s: "good A s" and find: "find_log lid (sdb s) = Some r"
    and args: "ep \<noteq> 0" "first \<noteq> 0" "batch_fits first ps" "ps \<noteq> []"
    and look: "checkAppend lid ep first (length ps) = Inr lst" "appendFor env lid s0 = (Inr (Some (appendSQL (ordinal r))), s)"
    and Append: "Append env lid ep first ps s0 = (res, s')"
  obtains (written) "wrote env A lid ep first ps s'" "res = Inr () \<or> (\<exists>n. res = Inl (DriverError n))"
      "faultless env \<Longrightarrow> res = Inr ()" "db_steps (sdb s) (sdb s')"
  | (otherwise) "refused_append env (sdb (others env s)) A lid ep first ps s res s' \<or> gave_up env A s res s'"
proof -
  let ?stmt = "sql_append (appendSQL (ordinal r)) (int64 (first + of_nat (length ps) - 1)) lid
      (int64 ep) (int64 (first - 1)) (chunkArrays first ps)"
  obtain n s2 where stmt: "pg_call env ?stmt s = (n, s2)" by (cases "pg_call env ?stmt s")
  have call: "(case n of
       Inl err \<Rightarrow> if isUndefinedTable err then appendRefused env lid ep first (first + of_nat (length ps) - 1) s2 else (Inl err, s2)
     | Inr k \<Rightarrow> if k = 0 then appendRefused env lid ep first (first + of_nat (length ps) - 1) s2 else (Inr (), s2)) = (res, s')"
    using Append look stmt checkAppend_args(4) [OF look(1)] by (cases n) (simp_all add: Append_def split: if_splits)
  from env s find args stmt show ?thesis
  proof (cases rule: append_call_cases)
    case written
    then have "s' = s2" "res = Inr () \<or> (\<exists>n. res = Inl (DriverError n))" "faultless env \<Longrightarrow> res = Inr ()"
      using call stmt by (auto simp: isUndefinedTable_def sqlStateIs_def)
    with written show ?thesis by (intro that(1)) simp_all
  next
    case (refused A' l)
    then have "db_rel A' (sdb (others env s))" by (simp add: good_def)
    with refused show ?thesis using call stmt refused_append_late [OF env refused(2,3,4,5)] by (intro otherwise) simp
  next
    case (failed A' err)
    then have nf: "\<not> faultless env" by (auto simp: faultless_def)
    show ?thesis
    proof (cases "isUndefinedTable err")
      case True
      from s find obtain l where "A lid = Some l" by (rule good_find)
      with failed(3) obtain l' where "A' lid = Some l'" by (rule meanwhile_later)
      from refused_append_late [OF env failed(3-5) this, where d = "sdb (others env s)"] True nf failed(1) call stmt show ?thesis
        by (intro otherwise) simp
    next
      case False
      with failed nf call stmt have "gave_up env A s res s'" by (auto intro: gave_upI)
      then show ?thesis by (intro otherwise) simp
    qed
  qed
qed

lemma Append_cases:
  assumes env: "rely env" and s: "good A s" and fits: "batch_fits first ps"
    and call: "Append env lid ep first ps s = (res, s')"
  obtains (malformed) err where "checkAppend lid ep first (length ps) = Inl err" "res = Inl err" "s' = s"
  | (unknown) A' where "res = Inl (Sentinel ErrFenced)" "A' lid = None" "meanwhile env A A'" "good A' s'"
      "untouched env s s'" "ep \<noteq> 0" "first \<noteq> 0" "ps \<noteq> []"
  | (written) "wrote env A lid ep first ps s'" "res = Inr () \<or> (\<exists>n. res = Inl (DriverError n))"
      "faultless env \<Longrightarrow> res = Inr ()" "db_steps (sdb s) (sdb s')" "ep \<noteq> 0" "first \<noteq> 0" "ps \<noteq> []"
  | (refused) A1 l1 A2 l2 where "meanwhile env A A1" "A1 lid = Some l1"
      "faultless env \<Longrightarrow> \<not> (a_owner l1 = int64 ep \<and> int (length (a_hist l1)) + 1 = uint first)"
      "meanwhile env A1 A2" "A2 lid = Some l2" "good A2 s'" "untouched env s s'"
      "res = Inl (refusal_of lid ep first (first + of_nat (length ps) - 1) l2)"
      "ep \<noteq> 0" "first \<noteq> 0" "ps \<noteq> []" "faultless env \<Longrightarrow> db_rel A1 (sdb (statement_at env lid s))"
  | (failed) A' err where "res = Inl err" "\<And>x. err \<noteq> Sentinel x" "meanwhile env A A'" "good A' s'"
      "untouched env s s'" "\<not> faultless env" "ep \<noteq> 0" "first \<noteq> 0" "ps \<noteq> []"
proof (cases "checkAppend lid ep first (length ps)")
  case (Inl err)
  then show ?thesis using call by (intro malformed) (auto simp: Append_def)
next
  case (Inr lst)
  note args = checkAppend_args [OF Inr]
  then have ps: "ps \<noteq> []" by auto
  obtain known s1 where look: "appendFor env lid s = (known, s1)" by (cases "appendFor env lid s")
  have otherwise: ?thesis
    if "refused_append env (sdb (statement_at env lid s)) A lid ep first ps s res s' \<or> gave_up env A s res s'"
    using that args ps refused failed unfolding refused_append_def gave_up_def by metis
  from env s look show ?thesis
  proof (cases rule: appendFor_cases)
    case (unknown A')
    with Inr call look args ps show ?thesis by (intro that(2) [of A']) (auto simp: Append_def)
  next
    case (fails A' err)
    with Inr call look args ps show ?thesis
      by (intro failed [of err A']) (auto simp: Append_def faultless_def)
  next
    case (known A0 r)
    have "appendFor env lid s = (Inr (Some (appendSQL (ordinal r))), s1)" using look known(1) by simp
    from env known(4,2) args(1,2) fits ps Inr this call show ?thesis
    proof (cases rule: append_known_cases)
      case written
      have "wrote env A lid ep first ps s'" using written(1) known(3) unfolding wrote_def by (meson meanwhile_trans)
      moreover have "db_steps (sdb s) (sdb s')"
        using untouched_steps [OF env known(5)] written(4) by (rule rtranclp_trans)
      ultimately show ?thesis using written args ps by (intro that(3)) simp_all
    next
      case late: otherwise
      have "refused_append env (sdb (statement_at env lid s)) A lid ep first ps s res s'"
        if "refused_append env (sdb (others env s1)) A0 lid ep first ps s1 res s'"
        using that meanwhile_trans [OF known(3)] untouched_trans [OF known(5)] unfolding known(6) refused_append_def by blast
      then show ?thesis using late gave_up_later [OF known(3,5)] by (intro otherwise) blast
    qed
  qed
qed

text \<open>After a nil answer the log ends with the batch.\<close>

lemma Append_success:
  assumes "rely env" "good A s" "batch_fits first ps" "Append env lid ep first ps s = (Inr (), s')"
  obtains A' l h where "good A' s'" "A' lid = Some l" "a_owner l = int64 ep"
    "a_hist l = h @ map (Pair (int64 ep)) ps" "uint first = int (length h) + 1"
    "storable_id lid" "ep \<noteq> 0" "ps \<noteq> []"
proof -
  have "\<exists>lst. checkAppend lid ep first (length ps) = Inr lst"
    using assms(4) by (cases "checkAppend lid ep first (length ps)") (auto simp: Append_def)
  then have id: "storable_id lid" by (auto simp: checkAppend_Inr_iff)
  from assms show ?thesis
  proof (cases rule: Append_cases)
    case written
    then obtain A1 l where l: "A1 lid = Some l" "a_owner l = int64 ep" "uint first = int (length (a_hist l)) + 1"
      and g: "good (A1(lid \<mapsto> l\<lparr>a_hist := a_hist l @ map (Pair (int64 ep)) ps\<rparr>)) s'"
      by (auto simp: wrote_def)
    let ?l = "l\<lparr>a_hist := a_hist l @ map (Pair (int64 ep)) ps\<rparr>"
    show ?thesis
      using l id written(5,7) by (intro that [OF g, of ?l "a_hist l"]) simp_all
  qed simp_all
qed

text \<open>An append while nobody else writes and no call fails: the answer is a function of the log.\<close>

lemma Append_quiet:
  assumes env: "quiet env" and s: "good A s" and l: "A lid = Some l" and fits: "batch_fits first ps"
    and ok: "checkAppend lid ep first (length ps) = Inr lst"
  shows "fst (Append env lid ep first ps s) =
    (if a_owner l \<noteq> int64 ep then Inl (Sentinel ErrFenced)
     else if uint first \<le> int (length (a_hist l)) then Inl (Sentinel ErrAlreadyWritten)
     else if int (length (a_hist l)) + 1 < uint first then Inl (Sentinel ErrGap)
     else Inr ())"
proof -
  obtain res s' where call: "Append env lid ep first ps s = (res, s')" by (cases "Append env lid ep first ps s")
  note nf = quiet_faultless [OF env] and m = quiet_meanwhile [OF env]
  from quiet_rely [OF env] s fits call show ?thesis
  proof (cases rule: Append_cases)
    case written
    with l call nf show ?thesis by (auto simp: wrote_def m)
  next
    case (refused A1 l1 A2 l2)
    then have "l1 = l" "l2 = l" using l by (auto simp: m)
    then show ?thesis
      using refused(3) [OF nf] refused(8) refusal_of_eq [OF refused(6,5,9,10)] call by auto
  qed (use ok l nf call in \<open>auto simp: m\<close>)
qed

end
