(* ===== verification/Fence_Contract.thy ===== *)
theory Fence_Contract
  imports Calls
begin

text \<open>
  What \<open>Fence\<close> and \<open>NextSeqno\<close> promise while other sessions write and calls fail, and the
  read of a log's row that \<open>NextSeqno\<close> and \<open>ReadFrom\<close> share.
\<close>

section \<open>Fence\<close>

text \<open>What a fence that matched no row answers from a later look at the logs.\<close>

definition fence_refusal_of :: "LogID \<Rightarrow> Epoch \<Rightarrow> alog option \<Rightarrow> goerr" where
  "fence_refusal_of lid ep found =
     (case found of
        None \<Rightarrow> Sentinel ErrNoSuchLog
      | Some l \<Rightarrow> if ep < uint64 (a_owner l) then Sentinel ErrFenced else RefusedAdmittedFence)"

lemma fenceRefused_cases:
  assumes env: "rely env" and s: "good A s" and call: "fenceRefused env lid ep s = (res, s')"
  obtains (answer) A' where "meanwhile env A A'" "good A' s'" "untouched env s s'"
      "res = Inl (fence_refusal_of lid ep (A' lid))"
  | (fails) A' err where "res = Inl err" "\<And>x. err \<noteq> Sentinel x" "meanwhile env A A'" "good A' s'"
      "untouched env s s'" "\<not> faultless env"
proof -
  from good_others [OF env s] obtain A' where A': "meanwhile env A A'" "good A' (tick (others env s))" by blast
  then have keys: "keys_ok (sdb (others env s))" by (auto simp: good_def db_rel_keys)
  let ?q = "query_row env (sql_select (\<lambda>r. log_id r = lid)) s"
  obtain q s1 where q: "?q = (q, s1)" by (cases ?q)
  from q keys show ?thesis
  proof (cases rule: query_row_select)
    case (row r)
    with A' have g: "good A' s1" by simp
    from g row(2) obtain l where "A' lid = Some l" and lr: "log_rel l r (tables (sdb s1))"
      by (rule good_find)
    then have "fence_refusal_of lid ep (A' lid) =
        (case fenceRefusal lid (uint64 (epoch r)) ep of Some err \<Rightarrow> err | None \<Rightarrow> RefusedAdmittedFence)"
      by (simp add: fence_refusal_of_def fenceRefusal_def log_rel_def)
    with q row call A' untouched_others show ?thesis
      by (intro answer [of A']) (auto simp: fenceRefused_def fenceRefusal_def split: if_splits)
  next
    case none
    with A' have "A' lid = None" using db_rel_find(1) [of A' "sdb s1" lid] by (simp add: good_def)
    with none q call A' untouched_others show ?thesis
      by (intro answer [of A']) (auto simp: fenceRefused_def fence_refusal_of_def)
  next
    case (fails err)
    with q call A' untouched_others show ?thesis
      by (intro that(2) [of err A']) (auto simp: fenceRefused_def faultless_def)
  qed
qed

text \<open>
  The whole of \<open>Fence\<close>. A refusal: the statement matched no row of the logs \<open>A1\<close>, and the answer is
  read from a later moment.
\<close>

definition refused_fence :: "env \<Rightarrow> logs \<Rightarrow> LogID \<Rightarrow> Epoch \<Rightarrow> sys \<Rightarrow> goerr + unit \<Rightarrow> sys \<Rightarrow> bool" where
  "refused_fence env A lid ep s res s' \<longleftrightarrow>
     (\<exists>A1 A2. meanwhile env A A1 \<and> (A1 lid = None \<or> (\<exists>l. A1 lid = Some l \<and> int64 ep < a_owner l)) \<and>
        meanwhile env A1 A2 \<and> good A2 s' \<and> untouched env s s' \<and> res = Inl (fence_refusal_of lid ep (A2 lid)))"

lemma fence_no_row:
  assumes env: "rely env" and A1: "meanwhile env A A1" "good A1 (others env s)"
    and no: "A1 lid = None \<or> (\<exists>l. A1 lid = Some l \<and> int64 ep < a_owner l)"
    and stmt: "sql_fence lid (int64 ep) (sdb (others env s)) = (Inr [], sdb (others env s))"
    and call: "Fence env lid ep s = (res, s')" "checkFence lid ep = None"
  shows "refused_fence env A lid ep s res s' \<or> gave_up env A s res s'"
proof -
  obtain q s2 where c: "pg_call env (sql_fence lid (int64 ep)) s = (q, s2)"
    by (cases "pg_call env (sql_fence lid (int64 ep)) s")
  from c stmt show ?thesis
  proof (cases rule: pg_call_idle)
    case ran
    then have g: "good A1 s2" "untouched env s s2" using A1 untouched_others by simp_all
    from call c ran have r: "fenceRefused env lid ep s2 = (res, s')" by (simp add: Fence_def query_row_def)
    from env g(1) r show ?thesis
    proof (cases rule: fenceRefused_cases)
      case (answer A')
      have "untouched env s s'" using g(2) answer(3) by (rule untouched_trans)
      then show ?thesis using answer A1 no unfolding refused_fence_def by blast
    next
      case (fails A' err)
      then have "gave_up env A1 s2 res s'" by (auto intro: gave_upI)
      then show ?thesis using gave_up_later [OF A1(1) g(2)] by blast
    qed
  next
    case (fails err)
    then have "res = Inl err" "s' = tick (others env s)" using call c by (simp_all add: Fence_def query_row_def)
    then have "gave_up env A s res s'" using lost_gave_up [of env A A1 s err] A1 fails(3,5) by simp
    then show ?thesis ..
  qed
qed

lemma fence_row:
  assumes env: "rely env" and A1: "meanwhile env A A1" "good A1 (others env s)"
    and l: "find_log lid (sdb (others env s)) = Some r"
    and stmt: "sql_fence lid (int64 ep) (sdb (others env s)) =
      (Inr [r\<lparr>epoch := int64 ep\<rparr>], upd_log lid (\<lambda>r. r\<lparr>epoch := int64 ep\<rparr>) (sdb (others env s)))"
    and rel: "db_rel (A1(lid \<mapsto> l\<lparr>a_owner := int64 ep\<rparr>)) (upd_log lid (\<lambda>r. r\<lparr>epoch := int64 ep\<rparr>) (sdb (others env s)))"
    and call: "Fence env lid ep s = (res, s')" "checkFence lid ep = None"
  shows "good (A1(lid \<mapsto> l\<lparr>a_owner := int64 ep\<rparr>)) s' \<and> (res = Inr () \<or> (\<exists>n. res = Inl (DriverError n))) \<and>
    (faultless env \<longrightarrow> res = Inr ()) \<and> db_steps (sdb s) (sdb s') \<and>
    sdb s' = upd_log lid (\<lambda>r. r\<lparr>epoch := int64 ep\<rparr>) (sdb (others env s)) \<or> gave_up env A s res s'"
proof -
  let ?s1 = "others env s" and ?A = "A1(lid \<mapsto> l\<lparr>a_owner := int64 ep\<rparr>)"
  let ?d = "upd_log lid (\<lambda>r. r\<lparr>epoch := int64 ep\<rparr>) (sdb ?s1)"
  obtain q s2 where c: "pg_call env (sql_fence lid (int64 ep)) s = (q, s2)"
    by (cases "pg_call env (sql_fence lid (int64 ep)) s")
  have g: "good ?A (tick (?s1\<lparr>sdb := ?d\<rparr>))" using good_step [OF A1(2) rel] keeps_ordinals_upd by simp
  have "ep \<noteq> 0" using call(2) by (simp add: checkFence_None_iff)
  then have "db_step (sdb ?s1) (snd (sql_fence lid (int64 ep) (sdb ?s1)))" by (rule step_fence)
  with env have steps: "db_steps (sdb s) ?d" using stmt by (simp add: others_steps)
  have find: "find_log lid ?d = Some (r\<lparr>epoch := int64 ep\<rparr>)" using l by (simp add: find_log_upd)
  from c show ?thesis
  proof (cases rule: pg_call_cases)
    case ran
    then have s2: "s2 = tick (?s1\<lparr>sdb := ?d\<rparr>)" "q = Inr [r\<lparr>epoch := int64 ep\<rparr>]" using stmt by simp_all
    then have s': "res = Inr ()" "s' = snd (remember lid (ordinal (r\<lparr>epoch := int64 ep\<rparr>)) s2)"
      using call c by (simp_all add: Fence_def query_row_def)
    have "good ?A s'" unfolding s' using g find s2 by (intro remember_good(1)) simp_all
    moreover have "sdb s' = ?d" using s2 s'(2) by (auto simp: remember_def split: option.splits)
    ultimately show ?thesis using s'(1) steps by simp
  next
    case (lost f)
    then have "res = Inl (failure_err f)" "s' = tick ?s1" using call c by (simp_all add: Fence_def query_row_def)
    then have "gave_up env A s res s'" using lost_gave_up [of env A A1 s "failure_err f"] A1 lost(3) by simp
    then show ?thesis ..
  next
    case (landed n)
    then have "s' = tick (?s1\<lparr>sdb := ?d\<rparr>)" "res = Inl (DriverError n)"
      using stmt call c by (simp_all add: Fence_def query_row_def)
    with landed g steps show ?thesis by (auto simp: faultless_def)
  qed
qed

lemma Fence_cases:
  assumes env: "rely env" and s: "good A s" and call: "Fence env lid ep s = (res, s')"
  obtains (malformed) err where "checkFence lid ep = Some err" "res = Inl err" "s' = s"
  | (fenced) A1 l where "meanwhile env A A1" "A1 lid = Some l" "a_owner l \<le> int64 ep" "0 < int64 ep"
      "good (A1(lid \<mapsto> l\<lparr>a_owner := int64 ep\<rparr>)) s'" "res = Inr () \<or> (\<exists>n. res = Inl (DriverError n))"
      "faultless env \<Longrightarrow> res = Inr ()" "db_steps (sdb s) (sdb s')" "ep \<noteq> 0"
      "at_moment env A s A1 (tick (others env s))"
      "sdb s' = upd_log lid (\<lambda>r. r\<lparr>epoch := int64 ep\<rparr>) (sdb (others env s))"
  | (refused) A1 A2 where "meanwhile env A A1" "A1 lid = None \<or> (\<exists>l. A1 lid = Some l \<and> int64 ep < a_owner l)"
      "meanwhile env A1 A2" "good A2 s'" "untouched env s s'" "res = Inl (fence_refusal_of lid ep (A2 lid))" "ep \<noteq> 0"
  | (failed) A' err where "res = Inl err" "\<And>x. err \<noteq> Sentinel x" "meanwhile env A A'" "good A' s'"
      "untouched env s s'" "\<not> faultless env"
proof (cases "checkFence lid ep")
  case (Some err)
  then show ?thesis using call by (intro malformed) (auto simp: Fence_def)
next
  case None
  then have ep: "ep \<noteq> 0" by (simp add: checkFence_None_iff)
  from good_others [OF env s] obtain A1 where A1: "meanwhile env A A1" "good A1 (others env s)" by auto
  have otherwise: ?thesis if "refused_fence env A lid ep s res s' \<or> gave_up env A s res s'"
    using that ep refused failed unfolding refused_fence_def gave_up_def by metis
  have rel: "db_rel A1 (sdb (others env s))" using A1(2) by (simp add: good_def)
  from rel ep show ?thesis
  proof (cases rule: fence_simulates [where lid = lid])
    case (fenced r l)
    from fence_row [OF env A1 fenced(2,5,6) call None] show ?thesis
    proof
      assume "gave_up env A s res s'"
      then show ?thesis by (intro otherwise) simp
    qed (use A1 fenced ep that(2) [of A1 l] at_moment_others in blast)
  next
    case missing
    then show ?thesis using fence_no_row [OF env A1 _ _ call None] by (intro otherwise) simp
  next
    case (higher l)
    then show ?thesis using fence_no_row [OF env A1 _ _ call None] by (intro otherwise) simp
  qed
qed

lemma Fence_success:
  assumes "rely env" "good A s" "Fence env lid ep s = (Inr (), s')"
  obtains A' l where "good A' s'" "A' lid = Some l" "a_owner l = int64 ep" "0 < int64 ep"
  using assms
proof (cases rule: Fence_cases)
  case (fenced A1 l)
  show ?thesis by (rule that [OF fenced(5), of "l\<lparr>a_owner := int64 ep\<rparr>"]) (use fenced(4) in simp_all)
qed simp_all

text \<open>A fence while nobody else writes and no call fails.\<close>

lemma Fence_quiet:
  assumes env: "quiet env" and s: "good A s" and ok: "checkFence lid ep = None"
  shows "fst (Fence env lid ep s) =
    (case A lid of
       None \<Rightarrow> Inl (Sentinel ErrNoSuchLog)
     | Some l \<Rightarrow> if a_owner l \<le> int64 ep then Inr () else Inl (fence_refusal_of lid ep (Some l)))"
proof -
  obtain res s' where call: "Fence env lid ep s = (res, s')" by (cases "Fence env lid ep s")
  from quiet_rely [OF env] s call show ?thesis
    by (cases rule: Fence_cases)
      (use ok call quiet_faultless [OF env] in \<open>auto simp: quiet_meanwhile env fence_refusal_of_def\<close>)
qed

lemma Fence_quiet_db:
  assumes env: "quiet env" and s: "good A s" and call: "Fence env lid ep s = (Inr (), s')"
  shows "sdb s' = upd_log lid (\<lambda>r. r\<lparr>epoch := int64 ep\<rparr>) (sdb s)"
proof -
  have keys: "keys_ok (sdb s)" using s by (auto simp: good_def db_rel_keys)
  have ok: "checkFence lid ep = None" using call by (auto simp: Fence_def split: option.splits)
  have refused: "fst (fenceRefused env lid ep x) \<noteq> Inr ()" for x
    by (auto simp: fenceRefused_def split: sum.splits prod.splits option.splits)
  show ?thesis
  proof (cases "find_log lid (sdb s)")
    case None
    then show ?thesis
      using call ok refused [of "tick (s\<lparr>sdb := sdb s\<rparr>)"]
      by (simp add: Fence_def query_row_def pg_call_quiet [OF env] sql_fence_eq [OF keys] prod_eq_iff)
  next
    case (Some r)
    then show ?thesis
      using call ok refused [of "tick (s\<lparr>sdb := sdb s\<rparr>)"]
      by (auto simp: Fence_def query_row_def pg_call_quiet [OF env] sql_fence_eq [OF keys] prod_eq_iff
          remember_def split: if_splits option.splits)
  qed
qed

lemma upd_log_twice:
  assumes "\<And>r. f (f r) = f r" "\<And>r. log_id (f r) = log_id r"
  shows "upd_log lid f (upd_log lid f d) = upd_log lid f d"
proof -
  let ?g = "\<lambda>r. if log_id r = lid then f r else r"
  have "?g \<circ> ?g = ?g" using assms by (auto simp: fun_eq_iff)
  then show ?thesis by (simp add: upd_log_def option.map_comp)
qed

section \<open>The row of a log\<close>

lemma readState_cases:
  assumes env: "rely env" and dec: "decodes env" and s: "good A s" and call: "readState env lid s = (res, s')"
  obtains (found) A' l r where "meanwhile env A A'" "good A' s'" "untouched env s s'" "A' lid = Some l"
      "find_log lid (sdb s') = Some r" "log_rel l r (tables (sdb s'))" "res = Inr (Some (row_state r))"
  | (missing) A' where "meanwhile env A A'" "good A' s'" "untouched env s s'" "A' lid = None" "res = Inr None"
  | (fails) A' err where "res = Inl err" "\<And>x. err \<noteq> Sentinel x" "meanwhile env A A'" "good A' s'"
      "untouched env s s'" "\<not> faultless env"
proof -
  from good_others [OF env s] obtain A' where A': "meanwhile env A A'" "good A' (tick (others env s))" by blast
  then have keys: "keys_ok (sdb (others env s))" by (auto simp: good_def db_rel_keys)
  let ?q = "query_row env (sql_select (\<lambda>r. log_id r = lid)) s"
  obtain q s1 where q: "?q = (q, s1)" by (cases ?q)
  from q keys show ?thesis
  proof (cases rule: query_row_select)
    case (row r)
    with A' have g: "good A' s1" by simp
    from g row(2) obtain l where l: "A' lid = Some l" and lr: "log_rel l r (tables (sdb s1))"
      by (rule good_find)
    have "scanLogState env r = Inr (row_state r)"
      using dec lr by (simp add: scan_row log_rel_def)
    with q row(1) call have s': "s' = snd (remember lid (ordinal r) s1)" "res = Inr (Some (row_state r))"
      by (auto simp: readState_def row_state_def)
    from remember_good [OF g row(2)] s' row(2,3) lr l A'(1) untouched_others show ?thesis
      by (intro found [of A' l r]) simp_all
  next
    case none
    with A' have "A' lid = None" using db_rel_find(1) [of A' "sdb s1" lid] by (simp add: good_def)
    with none q call A' untouched_others show ?thesis
      by (intro missing [of A']) (auto simp: readState_def)
  next
    case (fails err)
    with q call A' untouched_others show ?thesis
      by (intro that(3) [of err A']) (auto simp: readState_def faultless_def)
  qed
qed

section \<open>NextSeqno\<close>

lemma NextSeqno_cases:
  assumes env: "rely env" and dec: "decodes env" and s: "good A s" and call: "NextSeqno env lid s = (res, s')"
  obtains (malformed) err where "checkLogID lid = Some err" "res = Inl err" "s' = s"
  | (found) A' l where "meanwhile env A A'" "good A' s'" "untouched env s s'" "A' lid = Some l"
      "res = Inr (uint64 (int (length (a_hist l)) + 1))"
  | (missing) A' where "meanwhile env A A'" "good A' s'" "untouched env s s'" "A' lid = None"
      "res = Inl (Sentinel ErrNoSuchLog)"
  | (failed) A' err where "res = Inl err" "\<And>x. err \<noteq> Sentinel x" "meanwhile env A A'" "good A' s'"
      "untouched env s s'" "\<not> faultless env"
proof (cases "checkLogID lid")
  case (Some err)
  then show ?thesis using call by (intro malformed) (auto simp: NextSeqno_def)
next
  case None
  obtain st s1 where st: "readState env lid s = (st, s1)" by (cases "readState env lid s")
  from env dec s st show ?thesis
  proof (cases rule: readState_cases)
    case (found A' l r)
    have "lastSeqno (row_state r) + 1 = uint64 (int (length (a_hist l)) + 1)"
      using found(6) by (simp add: row_state_def log_rel_def uint64_def)
    with found st None call show ?thesis by (intro that(2) [of A' l]) (auto simp: NextSeqno_def)
  next
    case (missing A')
    with st None call show ?thesis by (intro that(3) [of A']) (auto simp: NextSeqno_def)
  next
    case (fails A' err)
    with st None call show ?thesis by (intro failed [of err A']) (auto simp: NextSeqno_def)
  qed
qed

end
