(* ===== verification/Read_Contract.thy ===== *)
theory Read_Contract
  imports Fence_Contract
begin

text \<open>
  What \<open>ReadFrom\<close> promises: the entries it returns are an unbroken run of the log, in order
  and whole, that starts where the caller asked or at the first entry a trim has left.
\<close>

section \<open>The query\<close>

text \<open>On a row and tables that represent a log, the union of the halves is a run of its rows.\<close>

lemma ring_run:
  assumes "log_rel l r T"
  obtains plo rows0 rows1 where "1 \<le> plo" "plo \<le> Suc (a_trim l)"
    "T (entriesTable (ordinal r) 0) = Some rows0" "T (entriesTable (ordinal r) 1) = Some rows1"
    "mset (rows0 @ rows1) = mset (run_rows (a_hist l) plo (Suc (length (a_hist l))))"
proof -
  from assms have ok: "row_ok r" and trim: "int (a_trim l) = trim_upto r"
    and len: "int (length (a_hist l)) = last_seqno r" and ring: "ring_holds (a_hist l) r T"
    by (auto simp: log_rel_def)
  let ?h = "a_hist l" and ?lo = "nat (cur_lo r)"
  from ring obtain plo where plo: "1 \<le> plo" "plo \<le> ?lo" "int plo \<le> trim_upto r + 1"
    and prev: "T (entriesTable (ordinal r) (1 - cur_slot r)) = Some (run_rows ?h plo ?lo)"
    and cur: "T (entriesTable (ordinal r) (cur_slot r)) = Some (run_rows ?h ?lo (Suc (length ?h)))"
    by (auto simp: ring_holds_def)
  have "run_rows ?h plo (Suc (length ?h)) = run_rows ?h plo ?lo @ run_rows ?h ?lo (Suc (length ?h))"
    using ok len plo(2) by (intro run_rows_split) (auto simp: row_ok_def)
  moreover have "plo \<le> Suc (a_trim l)" using plo(3) trim by simp
  moreover have "cur_slot r = 0 \<or> cur_slot r = 1" using ok by (simp add: row_ok_def)
  ultimately show ?thesis
    using plo(1) prev cur that [of plo "run_rows ?h ?lo (Suc (length ?h))" "run_rows ?h plo ?lo"]
      that [of plo "run_rows ?h plo ?lo" "run_rows ?h ?lo (Suc (length ?h))"]
    by (auto simp: union_commute)
qed

lemma sql_read_log:
  assumes "log_rel l r (tables d)"
  obtains plo rows where "1 \<le> plo" "plo \<le> Suc (a_trim l)"
    "sql_read (ringTables (ordinal r) ! 0) (ringTables (ordinal r) ! 1) lo hi d = (Inr rows, d)"
    "sorted (map row_key rows)"
    "mset rows = mset (run_rows (a_hist l) (max plo (nat lo)) (min (Suc (length (a_hist l))) (nat (hi + 1))))"
proof -
  from assms obtain plo r0 r1 where plo: "1 \<le> plo" "plo \<le> Suc (a_trim l)"
    and t: "tables d (entriesTable (ordinal r) 0) = Some r0" "tables d (entriesTable (ordinal r) 1) = Some r1"
    and ms: "mset (r0 @ r1) = mset (run_rows (a_hist l) plo (Suc (length (a_hist l))))"
    by (rule ring_run)
  let ?P = "\<lambda>r. lo \<le> row_seqno r \<and> row_seqno r \<le> hi"
  let ?run = "run_rows (a_hist l) (max plo (nat lo)) (min (Suc (length (a_hist l))) (nat (hi + 1)))"
  have "mset (filter ?P (r0 @ r1)) = mset (filter ?P (run_rows (a_hist l) plo (Suc (length (a_hist l)))))"
    by (simp only: mset_filter ms)
  then have "mset (filter ?P (r0 @ r1)) = mset ?run" by (simp only: filter_run_rows)
  then show ?thesis
    using t plo by (intro that [of plo "sort_key row_key (filter ?P (r0 @ r1))"])
      (simp_all add: sql_read_def ringTables_def)
qed

lemma sorted_run_rows:
  assumes "run_readable h a b" "sorted (map row_key rows)" "mset rows = mset (run_rows h a b)"
  shows "rows = run_rows h a b"
  using sort_run_rows [OF assms(1,3)] sort_key_id_if_sorted [OF assms(2)] by simp

section \<open>The bounds\<close>

text \<open>The first seqno a read asks for, from the caller's bound and the watermark.\<close>

definition read_start :: "Seqno \<Rightarrow> nat \<Rightarrow> int" where
  "read_start frm trim = max (max (uint frm) 1) (int trim + 1)"

text \<open>The last seqno it asks for, as the query gets it: the sum wraps.\<close>

definition read_end :: "int \<Rightarrow> int \<Rightarrow> int" where
  "read_end lo limit = int64 (uint64 (lo + limit - 1))"

lemma read_end_exact:
  assumes "1 \<le> lo" "1 \<le> limit" "lo + limit - 1 \<le> bigint_max"
  shows "read_end lo limit = lo + limit - 1"
  using assms by (simp add: read_end_def)

lemma read_lo:
  assumes "log_rel l r T" "uint frm \<le> bigint_max"
  shows "uint (max (max frm FirstSeqno) (trimUpto (row_state r) + 1)) = read_start frm (a_trim l)"
    and "read_start frm (a_trim l) \<le> bigint_max"
proof -
  from assms(1) have t: "int (a_trim l) = trim_upto r" "0 \<le> trim_upto r" "trim_upto r < bigint_max"
    by (auto simp: log_rel_def row_ok_def)
  have "trimUpto (row_state r) + 1 = uint64 (trim_upto r + 1)" by (simp add: row_state_def uint64_def)
  then have "uint (trimUpto (row_state r) + 1) = int (a_trim l) + 1" using t by (simp add: uint_uint64)
  then show "uint (max (max frm FirstSeqno) (trimUpto (row_state r) + 1)) = read_start frm (a_trim l)"
    by (simp add: read_start_def max_def word_le_def FirstSeqno_def)
  show "read_start frm (a_trim l) \<le> bigint_max" using t assms(2) by (simp add: read_start_def)
qed

section \<open>ReadFrom\<close>

text \<open>The query, for a log that exists: its rows at one later moment, or a failed call.\<close>

lemma read_query_cases:
  assumes env: "rely env" and s: "good A1 s1" and find: "find_log lid (sdb s1) = Some r1" and lo: "1 \<le> lo"
    and q: "pg_call env (sql_read (ringTables (ordinal r1) ! 0) (ringTables (ordinal r1) ! 1) lo hi) s1 = (q, s2)"
  obtains (rows) A2 l2 m rows where "q = Inr rows" "meanwhile env A1 A2" "A2 lid = Some l2" "good A2 s2" "untouched env s1 s2"
      "lo \<le> int m" "int m \<le> max lo (int (a_trim l2) + 1)" "sorted (map row_key rows)"
      "mset rows = mset (run_rows (a_hist l2) m (min (Suc (length (a_hist l2))) (nat (hi + 1))))"
  | (failed) "gave_up env A1 s1 q s2"
proof -
  obtain A2 r2 l2 where A2: "meanwhile env A1 A2" "good A2 (others env s1)"
    and r2: "find_log lid (sdb (others env s1)) = Some r2" "ordinal r2 = ordinal r1"
    and l2: "A2 lid = Some l2" and lr2: "log_rel l2 r2 (tables (sdb (others env s1)))"
    using env s find by (rule good_others_find)
  let ?q = "sql_read (ringTables (ordinal r1) ! 0) (ringTables (ordinal r1) ! 1) lo hi"
  from lr2 obtain plo rows where plo: "1 \<le> plo" "plo \<le> Suc (a_trim l2)"
    and sel: "?q (sdb (others env s1)) = (Inr rows, sdb (others env s1))"
    and sorted: "sorted (map row_key rows)" "mset rows = mset (run_rows (a_hist l2) (max plo (nat lo))
       (min (Suc (length (a_hist l2))) (nat (hi + 1))))"
    by (rule sql_read_log [where lo = lo and hi = hi]) (use r2(2) lo in auto)
  from q sel show ?thesis
  proof (cases rule: pg_call_idle)
    case ran
    then show ?thesis using A2 l2 plo sorted untouched_others [of env s1] lo
      by (intro that(1) [of rows A2 l2 "max plo (nat lo)"]) auto
  next
    case (fails err)
    then show ?thesis using lost_gave_up [of env A1 A2 s1 err] A2 by (intro failed) simp
  qed
qed

lemma ReadFrom_cases:
  assumes env: "rely env" and dec: "decodes env" and s: "good A s" and frm: "uint frm \<le> bigint_max"
    and call: "ReadFrom env lid frm limit s = (res, s')"
  obtains (malformed) err where "checkRead lid frm limit = Inl err" "res = Inl err" "s' = s"
  | (missing) A' where "meanwhile env A A'" "good A' s'" "untouched env s s'" "A' lid = None" "res = Inr []" "1 \<le> limit"
  | (read) A1 l1 A2 l2 m rows s1 where "meanwhile env A A1" "A1 lid = Some l1" "meanwhile env A1 A2" "A2 lid = Some l2"
      "good A2 s'" "untouched env s s'" "1 \<le> limit"
      "read_start frm (a_trim l1) \<le> int m" "int m \<le> max (read_start frm (a_trim l1)) (int (a_trim l2) + 1)"
      "run_readable (a_hist l2) m (min (Suc (length (a_hist l2))) (nat (read_end (read_start frm (a_trim l1)) limit + 1)))
         \<Longrightarrow> res = Inr (map (entry_of (a_hist l2))
         [m..<min (Suc (length (a_hist l2))) (nat (read_end (read_start frm (a_trim l1)) limit + 1))])"
      "res = collect_rows rows []" "sorted (map row_key rows)"
      "mset rows = mset (run_rows (a_hist l2) m
         (min (Suc (length (a_hist l2))) (nat (read_end (read_start frm (a_trim l1)) limit + 1))))"
      "at_moment env A s A1 s1" "at_moment env A1 s1 A2 s'"
  | (failed) A' err where "res = Inl err" "\<And>x. err \<noteq> Sentinel x" "meanwhile env A A'" "good A' s'"
      "untouched env s s'" "\<not> faultless env" "1 \<le> limit"
proof (cases "checkRead lid frm limit")
  case (Inl err)
  then show ?thesis using call by (intro malformed) (auto simp: ReadFrom_def)
next
  case (Inr from')
  then have lim: "1 \<le> limit" and from': "from' = max frm FirstSeqno"
    by (auto simp: checkRead_def split: option.splits if_splits)
  obtain st s1 where st: "readState env lid s = (st, s1)" by (cases "readState env lid s")
  from env dec s st show ?thesis
  proof (cases rule: readState_cases)
    case (missing A')
    with st Inr call lim show ?thesis by (intro that(2) [of A']) (auto simp: ReadFrom_def)
  next
    case (fails A' err)
    with st Inr call lim show ?thesis by (intro failed [of err A']) (auto simp: ReadFrom_def)
  next
    case (found A1 l1 r1)
    let ?lo = "max from' (trimUpto (row_state r1) + 1)"
    let ?start = "read_start frm (a_trim l1)"
    let ?q = "sql_read (ringTables (ordinal r1) ! 0) (ringTables (ordinal r1) ! 1) ?start (read_end ?start limit)"
    have lo: "uint ?lo = ?start" "int64 ?lo = ?start"
      using read_lo [OF found(6) frm] int64_small [of ?lo] by (simp_all add: from')
    have pos: "1 \<le> ?start" by (simp add: read_start_def)
    have hi: "int64 (?lo + uint64 limit - 1) = read_end ?start limit"
      unfolding read_end_def lo(1) [symmetric] by (simp add: uint64_def)
    obtain q s2 where q: "pg_call env ?q s1 = (q, s2)" by (cases "pg_call env ?q s1")
    have call': "then_do (q, s2) (\<lambda>rows s2. (collect_rows rows [], s2)) = (res, s')"
      using call Inr st found(7) q hi lo(2) by (simp add: ReadFrom_def Let_def row_state_def)
    from env found(2,5) pos q show ?thesis
    proof (cases rule: read_query_cases)
      case (rows A2 l2 m rows)
      have "untouched env s s'" using untouched_trans [OF found(3) rows(5)] rows(1) call' by simp
      moreover have "res = Inr (map (entry_of (a_hist l2))
          [m..<min (Suc (length (a_hist l2))) (nat (read_end ?start limit + 1))])"
        if "run_readable (a_hist l2) m (min (Suc (length (a_hist l2))) (nat (read_end ?start limit + 1)))"
        using call' rows(1) sorted_run_rows [OF that rows(8,9)] collect_run_rows [OF that] by simp
      ultimately show ?thesis
        using rows found(1-4) call' lim by (intro that(3) [of A1 l1 A2 l2 m rows s1]) (auto simp: at_moment_def)
    next
      case failed
      then obtain err where "q = Inl err" by (auto simp: gave_up_def)
      with failed call' have "gave_up env A1 s1 res s'" by (auto simp: gave_up_def)
      from gave_up_later [OF found(1,3) this] lim show ?thesis using that(4) unfolding gave_up_def by metis
    qed
  qed
qed

text \<open>A read while nobody else writes and no call fails.\<close>

lemma ReadFrom_quiet:
  assumes env: "quiet env" and s: "good A s" and l: "A lid = Some l" and ok: "checkRead lid frm limit = Inr frm'"
    and frm: "uint frm \<le> bigint_max" and fits: "read_start frm (a_trim l) + limit - 1 \<le> bigint_max"
    and rd: "run_readable (a_hist l) (nat (read_start frm (a_trim l)))
      (min (Suc (length (a_hist l))) (nat (read_start frm (a_trim l) + limit)))"
  shows "fst (ReadFrom env lid frm limit s) = Inr (map (entry_of (a_hist l))
    [nat (read_start frm (a_trim l))..<min (Suc (length (a_hist l))) (nat (read_start frm (a_trim l) + limit))])"
proof -
  let ?start = "read_start frm (a_trim l)"
  obtain res s' where call: "ReadFrom env lid frm limit s = (res, s')" by (cases "ReadFrom env lid frm limit s")
  have dec: "decodes env" using env by (simp add: quiet_def)
  have pos: "1 \<le> ?start" "int (a_trim l) + 1 \<le> ?start" by (simp_all add: read_start_def)
  from quiet_rely [OF env] dec s frm call show ?thesis
  proof (cases rule: ReadFrom_cases)
    case (read A1 l1 A2 l2 m rows s1)
    have "A1 = A" "A2 = A" using read(1,3) by (simp_all add: quiet_meanwhile env)
    then have eq: "l1 = l" "l2 = l" using l read(2,4) by auto
    have m: "m = nat ?start" using read(8,9) eq pos by auto
    have e: "read_end ?start limit + 1 = ?start + limit"
      using read_end_exact [OF pos(1) read(7) fits] by simp
    show ?thesis using read(10) rd by (simp only: eq m e call fst_conv)
  next
    case (malformed err)
    with ok show ?thesis by simp
  next
    case (missing A')
    with l env show ?thesis by (simp add: quiet_meanwhile)
  next
    case (failed A' err)
    with quiet_faultless [OF env] show ?thesis by simp
  qed
qed

text \<open>The entries of a batch that sits somewhere in a history.\<close>

lemma batch_at:
  assumes "h2 = h @ map (Pair e) ps @ t"
  shows "i < length ps \<Longrightarrow> h2 ! (Suc (length h) + i - 1) = (e, ps ! i)"
    and "\<forall>p \<in> set ps. readable p \<Longrightarrow> run_readable h2 (Suc (length h)) (Suc (length h) + length ps)"
proof -
  show at: "i < length ps \<Longrightarrow> h2 ! (Suc (length h) + i - 1) = (e, ps ! i)" for i
    by (simp add: assms nth_append)
  assume rd: "\<forall>p \<in> set ps. readable p"
  have "readable (snd (h2 ! (s - 1)))" if "s \<in> {Suc (length h)..<Suc (length h) + length ps}" for s
  proof -
    from that have "s - Suc (length h) < length ps" "s = Suc (length h) + (s - Suc (length h))" by auto
    with at [of "s - Suc (length h)"] rd show ?thesis by (metis nth_mem snd_conv)
  qed
  then show "run_readable h2 (Suc (length h)) (Suc (length h) + length ps)" by (simp add: run_readable_def)
qed

lemma batch_entries:
  assumes h2: "h2 = h @ map (Pair (int64 ep)) ps @ t" and first: "uint first = int (length h) + 1"
  shows "map (entry_of h2) [Suc (length h)..<Suc (length h) + length ps] =
    map (\<lambda>i. \<lparr>Seqno = first + of_nat i, Epoch = ep, Payload = ps ! i\<rparr>) [0..<length ps]"
proof (rule nth_equalityI)
  fix i assume "i < length (map (entry_of h2) [Suc (length h)..<Suc (length h) + length ps])"
  then have i: "i < length ps" by (simp del: upt_Suc)
  have "int (Suc (length h) + i) = uint first + int i" using first by simp
  then have "uint64 (int (Suc (length h) + i)) = word_of_int (uint first + int i)" by (simp only: uint64_def)
  then have "uint64 (int (Suc (length h) + i)) = first + of_nat i" by (simp add: wi_hom_add [symmetric])
  then show "map (entry_of h2) [Suc (length h)..<Suc (length h) + length ps] ! i =
      map (\<lambda>i. \<lparr>Seqno = first + of_nat i, Epoch = ep, Payload = ps ! i\<rparr>) [0..<length ps] ! i"
    using i batch_at(1) [OF h2 i] by (simp add: entry_of_def del: upt_Suc)
qed (simp del: upt_Suc)

text \<open>A run that starts with a payload of too many chunks cannot be put back together.\<close>

lemma collect_oversized:
  assumes ms: "mset rows = mset (run_rows h a b)" and sorted: "sorted (map row_key rows)"
    and ab: "a < b" and big: "\<not> readable (snd (h ! (a - 1)))"
  shows "\<exists>c. c < 0 \<and> collect_rows rows [] = Inl (ChunkWithoutFirst c (int a))"
proof -
  have set: "set rows = set (run_rows h a b)" using ms by (rule mset_eq_setD)
  have "\<exists>x \<in> set (entry_at h a). row_chunk x = - 32768"
    using big part_rows_wraps by (simp add: entry_at_def entry_rows_def readable_def length_chunksOf)
  then obtain x where x: "x \<in> set (entry_at h a)" "row_chunk x = - 32768" by blast
  then have "x \<in> set rows" unfolding set run_rows_def using ab by auto
  then obtain y ys where rows: "rows = y # ys" by (cases rows) auto
  then have "row_key y \<le> row_key x" using sorted \<open>x \<in> set rows\<close> by auto
  moreover have "y \<in> set (run_rows h a b)" using rows set by (metis list.set_intros(1))
  then have "int a \<le> row_seqno y" by (auto simp: run_rows_def dest: entry_at_seqno)
  moreover have "row_seqno x = int a" using x(1) by (rule entry_at_seqno)
  ultimately have "row_seqno y = int a" "row_chunk y < 0"
    using x(2) by (auto simp: row_key_def less_eq_prod_def)
  then show ?thesis using rows by simp
qed

text \<open>A row that is not the first of its entry, met before any other of it, ends the loop with an error.\<close>

lemma collect_rows_stuck:
  assumes "\<forall>r \<in> set pre. uint64 (row_seqno r) \<noteq> uint64 (row_seqno y)" "row_chunk y \<noteq> 0"
    and "acc = [] \<or> Seqno (last acc) \<noteq> uint64 (row_seqno y)"
  shows "\<exists>e. collect_rows (pre @ y # post) acc = Inl e"
  using assms by (induction pre arbitrary: acc) (simp_all add: Let_def)

text \<open>So rows that were put together are of payloads that can be: an oversized one has a row numbered below zero.\<close>

lemma collected_readable:
  assumes ms: "mset rows = mset (run_rows h a b)" and sorted: "sorted (map row_key rows)"
    and ok: "collect_rows rows [] = Inr es" and b: "b \<le> Suc (length h)" "int (length h) < bigint_max"
  shows "run_readable h a b"
proof (rule ccontr)
  assume "\<not> run_readable h a b"
  then obtain n where n: "a \<le> n" "n < b" "\<not> readable (snd (h ! (n - 1)))" by (auto simp: run_readable_def)
  have set: "set rows = set (run_rows h a b)" using ms by (rule mset_eq_setD)
  have "\<exists>x \<in> set (entry_at h n). row_chunk x = - 32768"
    using n(3) part_rows_wraps by (simp add: entry_at_def entry_rows_def readable_def length_chunksOf)
  then obtain x where x: "x \<in> set (entry_at h n)" "row_chunk x = - 32768" by blast
  then have xn: "row_seqno x = int n" "x \<in> set rows" using n unfolding set run_rows_def by (auto dest: entry_at_seqno)
  then obtain pre y post where y: "rows = pre @ y # post" "row_seqno y = int n" "\<forall>z \<in> set pre. row_seqno z \<noteq> int n"
    using split_list_first_propE [of rows "\<lambda>z. row_seqno z = int n"] by metis
  have "row_key y \<le> row_key x" using sorted xn y by (auto simp: sorted_append)
  then have "row_chunk y \<noteq> 0" using x(2) xn(1) y(2) by (auto simp: row_key_def less_eq_prod_def)
  moreover have "uint64 (row_seqno z) \<noteq> uint64 (row_seqno y)" if "z \<in> set pre" for z
  proof -
    have "z \<in> set (run_rows h a b)" using that y(1) set [symmetric] by simp
    then obtain k where k: "row_seqno z = int k" "k < b" by (auto simp: run_rows_def dest: entry_at_seqno)
    then have "uint (uint64 (row_seqno z)) = int k" "uint (uint64 (row_seqno y)) = int n"
      using n(2) b y(2) by (simp_all add: uint_uint64)
    then show ?thesis using y(3) that k(1) by auto
  qed
  ultimately obtain e where "collect_rows (pre @ y # post) [] = Inl e"
    using collect_rows_stuck [of pre y "[]" post] by blast
  then show False using ok y(1) by simp
qed

text \<open>A read that starts at an entry of too many chunks, while nobody else writes and no call fails.\<close>

lemma ReadFrom_oversized:
  assumes env: "quiet env" and s: "good A s" and l: "A lid = Some l" and ok: "checkRead lid frm limit = Inr frm'"
    and frm: "uint frm \<le> bigint_max" and fits: "read_start frm (a_trim l) + limit - 1 \<le> bigint_max"
    and at: "read_start frm (a_trim l) \<le> int (length (a_hist l))"
    and big: "\<not> readable (snd (a_hist l ! (nat (read_start frm (a_trim l)) - 1)))"
  shows "\<exists>c. c < 0 \<and> fst (ReadFrom env lid frm limit s) = Inl (ChunkWithoutFirst c (read_start frm (a_trim l)))"
proof -
  let ?start = "read_start frm (a_trim l)"
  obtain res s' where call: "ReadFrom env lid frm limit s = (res, s')" by (cases "ReadFrom env lid frm limit s")
  have dec: "decodes env" using env by (simp add: quiet_def)
  have pos: "1 \<le> ?start" "int (a_trim l) + 1 \<le> ?start" by (simp_all add: read_start_def)
  from quiet_rely [OF env] dec s frm call show ?thesis
  proof (cases rule: ReadFrom_cases)
    case (read A1 l1 A2 l2 m rows s1)
    then have eq: "l1 = l" "l2 = l" using env l by (auto simp: quiet_meanwhile)
    have m: "m = nat ?start" using read(8,9) eq pos by auto
    have "nat ?start < min (Suc (length (a_hist l))) (nat (read_end ?start limit + 1))"
      using read_end_exact [OF pos(1) read(7) fits] read(7) at pos(1) by simp
    then show ?thesis using collect_oversized [OF read(13,12)] read(11) pos(1) big by (simp add: eq m call)
  qed (use assms quiet_faultless [OF env] call in \<open>auto simp: quiet_meanwhile\<close>)
qed

end
