(* ===== verification/Trim_Contract.thy ===== *)
theory Trim_Contract
  imports Fence_Contract
begin

text \<open>
  What \<open>Trim\<close> and the reclaiming behind it promise: the watermark moves to where the caller
  said, clamped to the tail and never back; the tables are reclaimed by a committed
  transaction or left alone, and no abstract log notices.
\<close>

section \<open>Statements inside a transaction\<close>

lemma tx_call_runs:
  assumes "tx_call env stmt (s, w) = (r, s', w')" "stmt w = (Inr a, w1)"
  obtains (ran) "r = Inr a" "s' = tick s" "w' = w1"
  | (fails) err where "r = Inl err" "err \<noteq> ErrNoRows" "\<And>x. err \<noteq> Sentinel x" "s' = tick s" "\<not> faultless env"
  using assms not_faultless [of env "clk s"] by (cases "outcome_of env (clk s)") (auto simp: tx_call_def)

lemma tx_commit_cases:
  assumes "tx_commit env (s, w) = (r, s')"
  obtains (landed) "r = Inr () \<or> (\<exists>n. r = Inl (DriverError n))" "s' = tick (s\<lparr>sdb := w\<rparr>)" "faultless env \<Longrightarrow> r = Inr ()"
  | (fails) err where "r = Inl err" "\<And>x. err \<noteq> Sentinel x" "s' = tick s" "\<not> faultless env"
  using assms not_faultless [of env "clk s"] by (cases "outcome_of env (clk s)") (auto simp: tx_commit_def)

text \<open>
  How a stretch of statements inside a transaction ends: the shared tables stay as they were, and
  either all of it ran, with answer \<open>a\<close> and \<open>w\<close> as the transaction's own copy, or one of the calls failed.
\<close>

definition tx_moves :: "env \<Rightarrow> sys \<Rightarrow> 'a \<Rightarrow> db \<Rightarrow> (goerr + 'a) \<times> sys \<times> db \<Rightarrow> bool" where
  "tx_moves env s a w = (\<lambda>(r, s', w').
     sdb s' = sdb s \<and> appends s' = appends s \<and> clk s \<le> clk s' \<and>
     (r = Inr a \<and> w' = w \<or> (\<exists>err. r = Inl err \<and> (\<forall>x. err \<noteq> Sentinel x) \<and> \<not> faultless env)))"

lemma tx_moves_stay [simp]: "tx_moves env s a w (Inr a, s, w)"
  by (simp add: tx_moves_def)

lemma tx_moves_call:
  assumes "stmt w = (Inr a, w1)"
  shows "tx_moves env (tick s) a w1 (tx_call env stmt (s, w))"
proof (cases "tx_call env stmt (s, w)")
  case (fields r s' w')
  from fields assms have "tx_moves env (tick s) a w1 (r, s', w')"
    by (cases rule: tx_call_runs) (auto simp: tx_moves_def)
  with fields show ?thesis by simp
qed

lemma tx_moves_earlier: "tx_moves env (tick s) a w c \<Longrightarrow> tx_moves env s a w c"
  by (auto simp: tx_moves_def)

lemma tx_moves_then:
  assumes "tx_moves env s a w c" "\<And>s'. tx_moves env s' b w' (k a (s', w))"
  shows "tx_moves env s b w' (then_do c k)"
proof (cases c)
  case (fields r s1 w1)
  show ?thesis
  proof (cases r)
    case (Inl err)
    with assms(1) fields show ?thesis by (auto simp: tx_moves_def)
  next
    case (Inr x)
    with assms(1) fields have "then_do c k = k a (s1, w)" by (auto simp: tx_moves_def)
    with assms(1) assms(2) [of s1] fields show ?thesis by (auto simp: tx_moves_def)
  qed
qed

text \<open>A statement on its own that changes nothing, whatever the others did before it.\<close>

lemma idle_call:
  assumes env: "rely env" and s: "good A s" and call: "pg_call env stmt s = (r, s')"
    and stmt: "stmt (sdb (others env s)) = (Inr a, sdb (others env s))"
  obtains (ran) A' where "r = Inr a" "meanwhile env A A'" "good A' s'" "untouched env s s'" "keeps_ordinals (sdb s) (sdb s')"
      "appends s' = appends s"
  | (fails) A' err where "r = Inl err" "\<And>x. err \<noteq> Sentinel x" "meanwhile env A A'" "good A' s'" "untouched env s s'"
      "\<not> faultless env"
proof -
  from good_others [OF env s] obtain A' where A': "meanwhile env A A'" "good A' (tick (others env s))" by blast
  have ko: "keeps_ordinals (sdb s) (sdb (others env s))"
    using env by (rule others_keeps)
  from call stmt show ?thesis
  proof (cases rule: pg_call_idle)
    case ran
    then show ?thesis using A' ko untouched_others by (intro that(1) [of A']) simp_all
  next
    case (fails err)
    then show ?thesis using A' untouched_others by (intro that(2) [of err A']) (auto simp: faultless_def)
  qed
qed

section \<open>Reclaim\<close>

lemma sql_truncate_log:
  assumes "log_rel l r (tables d)" "find_log lid d = Some r"
  shows "sql_truncate (entriesTable (ordinal r) (1 - cur_slot r)) d =
    (Inr (), d\<lparr>tables := (tables d)(entriesTable (ordinal r) (1 - cur_slot r) := Some [])\<rparr>)"
  using assms by (auto simp: sql_truncate_def log_rel_def ring_holds_def)

lemma keys_ok_tables [simp]: "keys_ok (d\<lparr>tables := T\<rparr>) = keys_ok d"
  by (simp add: keys_ok_def)

lemma find_log_tables [simp]: "find_log lid (d\<lparr>tables := T\<rparr>) = find_log lid d"
  by (simp add: find_log_def)

text \<open>The truncate and the clearing of \<open>prev_hi\<close>.\<close>

lemma reclaim_truncate_moves:
  assumes rel: "db_rel A w" and find: "find_log lid w = Some r"
  shows "tx_moves env s () (truncated lid r w) (reclaim_truncate env (row_state r) (s, w))"
proof -
  let ?t = "entriesTable (ordinal r) (1 - cur_slot r)"
  let ?w1 = "w\<lparr>tables := (tables w)(?t := Some [])\<rparr>"
  from db_rel_find(2) [OF rel find] obtain l where lr: "log_rel l r (tables w)" by blast
  have t: "sql_truncate ?t w = (Inr (), ?w1)" using lr find by (rule sql_truncate_log)
  have c: "sql_clear_prev (ordinal r) ?w1 = (Inr [r\<lparr>prev_hi := 0\<rparr>], truncated lid r w)"
    unfolding sql_clear_prev_def truncated_def
    using db_rel_keys [OF rel] find by (intro sql_update_ordinal) simp_all
  have eq: "reclaim_truncate env (row_state r) (s, w) = then_do (tx_call env (sql_truncate ?t) (s, w))
      (\<lambda>_ sw1. then_do (tx_call env (sql_clear_prev (ordinal r)) sw1) (\<lambda>_ sw2. (Inr (), sw2)))"
    by (simp add: reclaim_truncate_def row_state_def prevSlot_def)
  have clear: "tx_moves env s1 () (truncated lid r w)
      (then_do (tx_call env (sql_clear_prev (ordinal r)) (s1, ?w1)) (\<lambda>_ sw2. (Inr (), sw2)))" for s1
    using tx_moves_earlier [OF tx_moves_call [where stmt = "sql_clear_prev (ordinal r)" and w = ?w1, OF c]]
    by (rule tx_moves_then) simp
  show ?thesis unfolding eq
    using tx_moves_earlier [OF tx_moves_call [where stmt = "sql_truncate ?t" and w = w, OF t]] clear by (rule tx_moves_then)
qed

lemma sql_rotate_log:
  assumes keys: "keys_ok d" and find: "find_log lid d = Some r" and ok: "last_seqno r < bigint_max"
  shows "sql_rotate (ordinal r) d = (Inr [rotate_row r], upd_log lid rotate_row d)"
proof -
  from keys obtain rows where reg: "registry d = Some rows" and ords: "distinct (map ordinal rows)"
    by (auto simp: keys_ok_def)
  from find reg have "r \<in> set rows" by (auto simp: find_log_def dest: find_key_Some)
  then have "\<not> (\<exists>x \<in> set rows. ordinal x = ordinal r \<and> bigint_max < last_seqno x + 1)"
    using distinct_key_eq [OF ords] ok by force
  then show ?thesis
    using sql_update_ordinal [OF keys find] by (simp add: sql_rotate_def reg)
qed

lemma reclaim_rotate_moves:
  assumes "keys_ok w" "find_log lid w = Some r1" "last_seqno r1 < bigint_max" "ordinal r1 = st_ordinal cur"
  shows "tx_moves env s () (upd_log lid rotate_row w) (reclaim_rotate env cur (s, w))"
proof -
  have stmt: "sql_rotate (st_ordinal cur) w = (Inr [rotate_row r1], upd_log lid rotate_row w)"
    using sql_rotate_log [OF assms(1-3)] assms(4) by simp
  from tx_moves_earlier [OF tx_moves_call [where stmt = "sql_rotate (st_ordinal cur)" and w = w, OF stmt]] show ?thesis
    unfolding reclaim_rotate_def by (rule tx_moves_then) (rule tx_moves_stay)
qed

text \<open>
  Everything between the row lock and the commit. The transaction's own copy ends up as the
  row read under the lock says it should, and until the commit the shared tables are as they were.
\<close>

lemma reclaim_locked_moves:
  assumes dec: "decodes env" and rel: "db_rel A w" and find: "find_log lid w = Some r"
  shows "tx_moves env (tick s) () (reclaimed lid m w) (reclaim_locked env (ordinal r) m (s, w))"
proof -
  let ?st = "row_state r" and ?t = "fst (reclaimSteps (row_state r) m)" and ?turn = "snd (reclaimSteps (row_state r) m)"
  let ?w1 = "if ?t then truncated lid r w else w" and ?r1 = "if ?t then r\<lparr>prev_hi := 0\<rparr> else r"
  from db_rel_find(2) [OF rel find] have ok: "row_ok r" by (auto simp: log_rel_def)
  have goal: "reclaimed lid m w = (if ?turn then upd_log lid rotate_row ?w1 else ?w1)"
    by (simp add: reclaimed_def find split_beta Let_def)
  have read: "sql_reread (ordinal r) w = (Inr [r], w)"
    using sql_update_ordinal [OF db_rel_keys [OF rel] find, of "\<lambda>r. r"] by (simp add: sql_reread_def upd_log_id)
  have w1: "keys_ok ?w1" "find_log lid ?w1 = Some ?r1"
    using db_rel_keys [OF rel] db_rel_keys [OF db_rel_truncate [OF rel find]] find find_truncated [OF find]
    by (auto simp: reclaimSteps_truncate)
  have r1: "last_seqno ?r1 < bigint_max" "ordinal ?r1 = st_ordinal ?st"
    using ok by (auto simp: row_ok_def row_state_def)
  have tr: "tx_moves env s1 () ?w1 (if ?t then reclaim_truncate env ?st (s1, w) else (Inr (), s1, w))" for s1
    using reclaim_truncate_moves [OF rel find] by simp
  have turn: "tx_moves env s1 () (reclaimed lid m w) (if ?turn then reclaim_rotate env ?st (s1, ?w1) else (Inr (), s1, ?w1))"
    for s1 using reclaim_rotate_moves [OF w1 r1] unfolding goal by simp
  have "tx_moves env s1 () (reclaimed lid m w)
      (then_do (if ?t then reclaim_truncate env ?st (s1, w) else (Inr (), s1, w))
         (\<lambda>_ sw2. if ?turn then reclaim_rotate env ?st sw2 else (Inr (), sw2)))" for s1
    using tr turn by (rule tx_moves_then)
  then have rest: "tx_moves env s1 () (reclaimed lid m w) (case bind_ok (first_row [r]) (scanLogState env) of
      Inl err \<Rightarrow> (Inl err, s1, w)
    | Inr cur \<Rightarrow> let (doTruncate, doRotate) = reclaimSteps cur m in
        then_do (if doTruncate then reclaim_truncate env cur (s1, w) else (Inr (), s1, w)) (\<lambda>_ sw2.
        if doRotate then reclaim_rotate env cur sw2 else (Inr (), sw2)))" for s1
    by (simp add: scan_row [OF dec ok] split_beta Let_def)
  show ?thesis unfolding reclaim_locked_def
    using tx_moves_call [where stmt = "sql_reread (ordinal r)" and w = w, OF read] rest by (rule tx_moves_then)
qed

text \<open>
  How a reclaim comes out: it commits one change, a reclaim of the tables as they were just before,
  or it fails and leaves the tables to the others. A missing lock is the only refusal.
\<close>

definition reclaims :: "env \<Rightarrow> LogID \<Rightarrow> bool \<Rightarrow> logs \<Rightarrow> sys \<Rightarrow> goerr + unit \<Rightarrow> sys \<Rightarrow> bool" where
  "reclaims env lid m A s res s' \<longleftrightarrow>
     (\<exists>s1 A1. untouched env s s1 \<and> meanwhile env A A1 \<and> good A1 s1 \<and> sdb s' = reclaimed lid m (sdb s1) \<and>
        good A1 s' \<and> (res = Inr () \<or> (\<exists>n. res = Inl (DriverError n))) \<and> (faultless env \<longrightarrow> res = Inr ()))"

definition kept_out :: "env \<Rightarrow> logs \<Rightarrow> sys \<Rightarrow> goerr + unit \<Rightarrow> sys \<Rightarrow> bool" where
  "kept_out env A s res s' \<longleftrightarrow>
     (\<exists>A1 err. res = Inl err \<and> (\<forall>x. err = Sentinel x \<longrightarrow> x = ErrLockUnavailable) \<and> untouched env s s' \<and>
        meanwhile env A A1 \<and> good A1 s' \<and> \<not> faultless env)"

abbreviation reclaim_ends :: "env \<Rightarrow> LogID \<Rightarrow> bool \<Rightarrow> logs \<Rightarrow> sys \<Rightarrow> goerr + unit \<Rightarrow> sys \<Rightarrow> bool" where
  "reclaim_ends env lid m A s res s' \<equiv> reclaims env lid m A s res s' \<or> kept_out env A s res s'"

lemma gave_up_kept_out: "gave_up env A s res s' \<Longrightarrow> kept_out env A s res s'"
  by (auto simp: gave_up_def kept_out_def)

lemma reclaim_ends_later:
  assumes "meanwhile env A A0" "untouched env s s0" "reclaim_ends env lid m A0 s0 res s'"
  shows "reclaim_ends env lid m A s res s'"
  using assms(3) meanwhile_trans [OF assms(1)] untouched_trans [OF assms(2)]
  unfolding reclaims_def kept_out_def by metis

text \<open>The transaction from the row lock to the commit, with what the others did before it.\<close>

lemma reclaim_commit:
  assumes env: "rely env" and dec: "decodes env" and s: "good A s"
    and find: "find_log lid (sdb s) = Some r" and ord: "ordinal r = ord"
    and call: "(case reclaim_locked env ord m (others env s, sdb (others env s)) of
        (Inl err, s5, w) \<Rightarrow> (Inl err, s5)
      | (Inr _, s5, w) \<Rightarrow> tx_commit env (s5, w)) = (res, s')"
  shows "reclaim_ends env lid m A s res s'"
proof -
  let ?s4 = "others env s"
  obtain A1 r4 where A1: "meanwhile env A A1" "good A1 ?s4"
    and r4: "find_log lid (sdb ?s4) = Some r4" "ordinal r4 = ord"
    using env s find unfolding ord [symmetric] by (rule good_others_find)
  have rel: "db_rel A1 (sdb ?s4)" using A1(2) by (simp add: good_def)
  obtain y s5 w where y: "reclaim_locked env ord m (?s4, sdb ?s4) = (y, s5, w)"
    by (cases "reclaim_locked env ord m (?s4, sdb ?s4)")
  from reclaim_locked_moves [OF dec rel r4(1), of ?s4 m] r4(2) y
  have run: "tx_moves env (tick ?s4) () (reclaimed lid m (sdb ?s4)) (y, s5, w)" by simp
  have s5: "sdb s5 = sdb ?s4" "appends s5 = appends ?s4" using run by (simp_all add: tx_moves_def)
  have u5: "untouched env s s5" using run by (intro untouched_begin) (simp_all add: tx_moves_def)
  have g5: "good A1 s5" using A1(2) s5 by (simp add: good_def cache_ok_def)
  show ?thesis
  proof (cases y)
    case (Inl err)
    with y call have "res = Inl err" "s' = s5" by simp_all
    with Inl run u5 g5 A1(1) have "gave_up env A s res s'" by (auto simp: gave_up_def tx_moves_def)
    then show ?thesis by (intro disjI2 gave_up_kept_out)
  next
    case (Inr u)
    with run have w: "w = reclaimed lid m (sdb ?s4)" by (simp add: tx_moves_def)
    then have gw: "good A1 (s5\<lparr>sdb := w\<rparr>)"
      using good_step [OF g5] db_rel_reclaimed [OF rel] keeps_ordinals_reclaimed s5(1) by simp
    from Inr y call have c: "tx_commit env (s5, w) = (res, s')" by simp
    from c show ?thesis
    proof (cases rule: tx_commit_cases)
      case landed
      with u5 A1(1) g5 gw w s5(1) show ?thesis
        unfolding reclaims_def by (intro disjI1 exI [of _ s5] exI [of _ A1]) simp
    next
      case (fails err)
      have "untouched env s s'" using u5 untouched_later [of s' s5] fails(3) by (auto intro: untouched_trans)
      with fails g5 A1(1) have "gave_up env A s res s'" by (auto simp: gave_up_def)
      then show ?thesis by (intro disjI2 gave_up_kept_out)
    qed
  qed
qed

lemma sql_lock_log:
  assumes "log_rel l r (tables d)"
  shows "sql_lock_tables (ringTables (ordinal r)) d = (Inr (), d)"
  using assms by (auto simp: sql_lock_tables_def ringTables_def log_rel_def ring_holds_def row_ok_def)

lemma good_lock:
  assumes "good A s" "find_log lid (sdb s) = Some r"
  shows "sql_lock_tables (ringTables (ordinal r)) (sdb s) = (Inr (), sdb s)"
proof -
  from assms obtain l where "log_rel l r (tables (sdb s))" by (rule good_find)
  then show ?thesis by (rule sql_lock_log)
qed

lemma reclaim_tx_ends:
  assumes env: "rely env" and dec: "decodes env" and s: "good A s"
    and find: "find_log lid (sdb s) = Some r" and ord: "ordinal r = st_ordinal st"
    and call: "reclaim_tx env st m s = (res, s')"
  shows "reclaim_ends env lid m A s res s'"
proof (cases m)
  case False
  with call have "(case reclaim_locked env (st_ordinal st) m (others env s, sdb (others env s)) of
      (Inl err, s5, w) \<Rightarrow> (Inl err, s5) | (Inr _, s5, w) \<Rightarrow> tx_commit env (s5, w)) = (res, s')"
    by (simp add: reclaim_tx_def Let_def)
  with env dec s find ord show ?thesis by (rule reclaim_commit)
next
  case True
  let ?ts = "ringTables (st_ordinal st)"
  obtain q s1 where q: "pg_call env (sql_lock_tables ?ts) s = (q, s1)"
    by (cases "pg_call env (sql_lock_tables ?ts) s")
  obtain A1 r1 where g1: "good A1 (others env s)"
    and r1: "find_log lid (sdb (others env s)) = Some r1" "ordinal r1 = st_ordinal st"
    using env s find unfolding ord [symmetric] by (rule good_others_find)
  from good_lock [OF g1 r1(1)] r1(2)
  have lock: "sql_lock_tables ?ts (sdb (others env s)) = (Inr (), sdb (others env s))" by simp
  from env s q lock show ?thesis
  proof (cases rule: idle_call)
    case (ran A')
    from ran(5) find obtain r' where r': "find_log lid (sdb s1) = Some r'" "ordinal r' = st_ordinal st"
      unfolding ord [symmetric] by (rule keeps_ordinals_find)
    from True call q ran(1) have "(case reclaim_locked env (st_ordinal st) m (others env s1, sdb (others env s1)) of
        (Inl err, s5, w) \<Rightarrow> (Inl err, s5) | (Inr _, s5, w) \<Rightarrow> tx_commit env (s5, w)) = (res, s')"
      by (simp add: reclaim_tx_def Let_def)
    with env dec ran(3) r' have "reclaim_ends env lid m A' s1 res s'" by (rule reclaim_commit)
    with ran(2,4) show ?thesis by (rule reclaim_ends_later)
  next
    case (fails A' err)
    then show ?thesis using True call q by (auto simp: reclaim_tx_def kept_out_def split: if_splits)
  qed
qed

text \<open>The whole of \<open>reclaim\<close>, for a state read from a log's row at some earlier moment.\<close>

lemma reclaim_ends_or_idle:
  assumes env: "rely env" and dec: "decodes env" and s: "good A s"
    and find: "find_log lid (sdb s) = Some r" and ord: "ordinal r = st_ordinal st"
    and call: "reclaim env st s = (res, s')" and go: "reclaimSteps st True \<noteq> (False, False)"
  shows "reclaim_ends env lid (prevEmpty st) A s res s'"
proof -
  have nop: "sql_nop d = (Inr (), d)" for d by (simp add: sql_nop_def)
  obtain q1 s1 where q1: "pg_call env sql_nop s = (q1, s1)" by (cases "pg_call env sql_nop s")
  obtain q2 s2 where q2: "pg_call env sql_nop s1 = (q2, s2)" by (cases "pg_call env sql_nop s1")
  obtain b where "reclaimSteps st True = (prevEmpty st, b)"
    using reclaimSteps_truncate [of st True] by (cases "reclaimSteps st True") simp
  with call go q1 q2
  have call': "then_do (q1, s1) (\<lambda>_ _. then_do (q2, s2) (\<lambda>_ _. reclaim_tx env st (prevEmpty st) s2)) = (res, s')"
    by (cases q1; cases q2) (auto simp: reclaim_def)
  from env s q1 nop show ?thesis
  proof (cases rule: idle_call)
    case (fails A' err)
    then show ?thesis using call' by (auto simp: kept_out_def)
  next
    case ran1: (ran A1)
    from env ran1(3) q2 nop have "reclaim_ends env lid (prevEmpty st) A1 s1 res s'"
    proof (cases rule: idle_call)
      case (fails A' err)
      then show ?thesis using call' ran1(1) by (auto simp: kept_out_def)
    next
      case (ran A2)
      have "keeps_ordinals (sdb s) (sdb s2)" using ran1(5) ran(5) by (rule keeps_ordinals_trans)
      then obtain r2 where r2: "find_log lid (sdb s2) = Some r2" "ordinal r2 = st_ordinal st"
        using find unfolding ord [symmetric] by (rule keeps_ordinals_find)
      from call' ran1(1) ran(1) have "reclaim_tx env st (prevEmpty st) s2 = (res, s')" by simp
      with env dec ran(3) r2 have "reclaim_ends env lid (prevEmpty st) A2 s2 res s'" by (rule reclaim_tx_ends)
      with ran(2,4) show ?thesis by (rule reclaim_ends_later)
    qed
    with ran1(2,4) show ?thesis by (rule reclaim_ends_later)
  qed
qed

lemma reclaim_cases:
  assumes "rely env" "decodes env" "good A s" "find_log lid (sdb s) = Some r" "ordinal r = st_ordinal st"
    and call: "reclaim env st s = (res, s')"
  obtains (idle) "reclaimSteps st True = (False, False)" "s' = s" "res = Inr ()"
  | (committed) s1 A1 where "untouched env s s1" "meanwhile env A A1" "good A1 s1"
      "sdb s' = reclaimed lid (prevEmpty st) (sdb s1)" "good A1 s'"
      "res = Inr () \<or> (\<exists>n. res = Inl (DriverError n))" "faultless env \<Longrightarrow> res = Inr ()"
      "reclaimSteps st True \<noteq> (False, False)"
  | (failed) A1 err where "res = Inl err" "\<And>x. err = Sentinel x \<Longrightarrow> x = ErrLockUnavailable"
      "untouched env s s'" "meanwhile env A A1" "good A1 s'" "\<not> faultless env"
proof (cases "reclaimSteps st True = (False, False)")
  case True
  then show ?thesis using call by (intro idle) (simp_all add: reclaim_def)
next
  case False
  from reclaim_ends_or_idle [OF assms False] show ?thesis
    using committed failed False unfolding reclaims_def kept_out_def by metis
qed

section \<open>Trim\<close>

text \<open>Where a trim leaves the watermark of a log.\<close>

definition trim_to :: "Seqno \<Rightarrow> alog \<Rightarrow> alog" where
  "trim_to upTo l = l\<lparr>a_trim := max (a_trim l) (nat (min (int64 upTo) (int (length (a_hist l)))))\<rparr>"

text \<open>The row a trim leaves.\<close>

definition trim_row :: "Seqno \<Rightarrow> reg_row \<Rightarrow> reg_row" where
  "trim_row upTo r = r\<lparr>trim_upto := max (trim_upto r) (min (int64 upTo) (last_seqno r))\<rparr>"

lemma trim_row_keys [simp]:
  "log_id (trim_row upTo r) = log_id r" "ordinal (trim_row upTo r) = ordinal r" "cur_slot (trim_row upTo r) = cur_slot r"
  "cur_lo (trim_row upTo r) = cur_lo r" "prev_hi (trim_row upTo r) = prev_hi r" "last_seqno (trim_row upTo r) = last_seqno r"
  by (simp_all add: trim_row_def)

text \<open>
  Whatever becomes of the reclaiming, it leaves the tables to the others or reclaims once, no log
  notices, and the only refusal is the missing lock.
\<close>

definition reclaims_at_most :: "env \<Rightarrow> LogID \<Rightarrow> logs \<Rightarrow> sys \<Rightarrow> logs \<Rightarrow> sys \<Rightarrow> bool" where
  "reclaims_at_most env lid A s A' s' \<longleftrightarrow>
     (\<exists>s1. at_moment env A s A' s1 \<and> (sdb s' = sdb s1 \<or> (\<exists>m. sdb s' = reclaimed lid m (sdb s1)))) \<and> good A' s'"

lemma reclaim_unnoticed:
  assumes "rely env" "decodes env" "good A s" "find_log lid (sdb s) = Some r"
    and "reclaim env (row_state r) s = (res, s')"
  obtains A' where "reclaims_at_most env lid A s A' s'"
    "\<forall>err. res = Inl err \<longrightarrow> (\<forall>x. err = Sentinel x \<longrightarrow> x = ErrLockUnavailable) \<and> \<not> faultless env"
proof -
  have ord: "ordinal r = st_ordinal (row_state r)" by (simp add: row_state_def)
  from assms(1-4) ord assms(5) show ?thesis
  proof (cases rule: reclaim_cases)
    case idle
    then show ?thesis using assms(3) at_moment_refl by (intro that [of A]) (auto simp: reclaims_at_most_def)
  next
    case (committed s1 A1)
    then have "reclaims_at_most env lid A s A1 s'"
      unfolding reclaims_at_most_def by (intro conjI exI [of _ s1]) (auto intro: at_momentI)
    then show ?thesis using committed by (intro that [of A1]) auto
  next
    case (failed A1 err)
    then have "at_moment env A s A1 s'" by (intro at_momentI)
    then show ?thesis using failed by (intro that [of A1]) (auto simp: reclaims_at_most_def)
  qed
qed

lemma reclaims_at_most_steps:
  assumes "rely env" "reclaims_at_most env lid A s A' s'"
  shows "meanwhile env A A'" "good A' s'" "db_steps (sdb s) (sdb s')"
proof -
  from assms(2) obtain s1 where s1: "at_moment env A s A' s1" "sdb s' = sdb s1 \<or> (\<exists>m. sdb s' = reclaimed lid m (sdb s1))"
    by (auto simp: reclaims_at_most_def)
  have "db_steps (sdb s) (sdb s1)" using assms(1) s1(1) untouched_steps by (auto simp: at_moment_def)
  with s1(2) show "db_steps (sdb s) (sdb s')" using step_reclaim [of "sdb s1" lid] by (metis rtranclp.rtrancl_into_rtrancl)
  show "meanwhile env A A'" "good A' s'" using s1(1) assms(2) by (simp_all add: at_moment_def reclaims_at_most_def)
qed

text \<open>What is left of a trim once its update is in.\<close>

lemma trim_after:
  assumes "rely env" "decodes env" "good A s" "find_log lid (sdb s) = Some r"
    and call: "(case reclaim env (row_state r) s of
        (Inl err, s3) \<Rightarrow> if errors_Is err ErrLockUnavailable then (Inr (), s3) else (Inl err, s3)
      | (Inr _, s3) \<Rightarrow> (Inr (), s3)) = (res, s')"
  obtains A' where "reclaims_at_most env lid A s A' s'"
    "\<forall>err. res = Inl err \<longrightarrow> (\<forall>x. err \<noteq> Sentinel x) \<and> \<not> faultless env"
proof -
  obtain q s3 where q: "reclaim env (row_state r) s = (q, s3)" by (cases "reclaim env (row_state r) s")
  then have res: "s' = s3" "res = (case q of
       Inl err \<Rightarrow> if errors_Is err ErrLockUnavailable then Inr () else Inl err | Inr _ \<Rightarrow> Inr ())"
    using call by (cases q; auto split: if_splits)+
  from assms(1-4) q obtain A3 where "reclaims_at_most env lid A s A3 s3"
    and "\<forall>err. q = Inl err \<longrightarrow> (\<forall>x. err = Sentinel x \<longrightarrow> x = ErrLockUnavailable) \<and> \<not> faultless env"
    by (rule reclaim_unnoticed)
  with res show ?thesis
    by (intro that [of A3]) (auto simp: errors_Is_def split: sum.splits if_splits)
qed

text \<open>How a trim past its checks ends when the log is there: it moved the watermark, or its update failed.\<close>

definition trims :: "env \<Rightarrow> logs \<Rightarrow> LogID \<Rightarrow> Seqno \<Rightarrow> sys \<Rightarrow> goerr + unit \<Rightarrow> sys \<Rightarrow> bool" where
  "trims env A lid upTo s res s' \<longleftrightarrow>
     (\<exists>s1 A1 l A2. at_moment env A s A1 s1 \<and> A1 lid = Some l \<and>
        good (A1(lid \<mapsto> trim_to upTo l)) (s1\<lparr>sdb := upd_log lid (trim_row upTo) (sdb s1)\<rparr>) \<and>
        reclaims_at_most env lid (A1(lid \<mapsto> trim_to upTo l)) (s1\<lparr>sdb := upd_log lid (trim_row upTo) (sdb s1)\<rparr>) A2 s' \<and>
        (\<forall>err. res = Inl err \<longrightarrow> (\<forall>x. err \<noteq> Sentinel x) \<and> \<not> faultless env) \<and> db_steps (sdb s) (sdb s'))"

lemma trim_found:
  assumes env: "rely env" and dec: "decodes env" and A1: "meanwhile env A A1" "good A1 (others env s)"
    and l: "A1 lid = Some l" and find: "find_log lid (sdb (others env s)) = Some r"
    and stmt: "sql_trim (int64 upTo) lid (sdb (others env s)) = (Inr [trim_row upTo r], d)"
    and d: "d = upd_log lid (trim_row upTo) (sdb (others env s))" and rel: "db_rel (A1(lid \<mapsto> trim_to upTo l)) d"
    and q: "pg_call env (sql_trim (int64 upTo) lid) s = (q, s2)"
    and call: "(case bind_ok (bind_ok q first_row) (scanLogState env) of
        Inl err \<Rightarrow> if err = ErrNoRows then (Inr (), s2) else (Inl err, s2)
      | Inr st \<Rightarrow> (case reclaim env st s2 of
           (Inl err, s3) \<Rightarrow> if errors_Is err ErrLockUnavailable then (Inr (), s3) else (Inl err, s3)
         | (Inr _, s3) \<Rightarrow> (Inr (), s3))) = (res, s')"
  shows "trims env A lid upTo s res s' \<or> gave_up env A s res s'"
proof -
  let ?s1 = "tick (others env s)" and ?A = "A1(lid \<mapsto> trim_to upTo l)" and ?r = "trim_row upTo r"
  let ?s2 = "?s1\<lparr>sdb := upd_log lid (trim_row upTo) (sdb ?s1)\<rparr>"
  have at: "at_moment env A s A1 ?s1" using A1 by (rule at_moment_others)
  have g: "good ?A ?s2" using good_step [OF A1(2) rel] keeps_ordinals_upd d by (simp add: good_def cache_ok_def)
  have "db_step (sdb (others env s)) (snd (sql_trim (int64 upTo) lid (sdb (others env s))))" by (rule step_trim)
  with env have steps: "db_steps (sdb s) d" using stmt by (simp add: others_steps)
  from q show ?thesis
  proof (cases rule: pg_call_cases)
    case (lost f)
    with A1 call untouched_others not_faultless show ?thesis by (auto simp: gave_up_def)
  next
    case (landed n)
    then have s': "s' = ?s2" "res = Inl (DriverError n)" using stmt d call by (simp_all add: tick_sdb)
    have "reclaims_at_most env lid ?A ?s2 ?A s'"
      using g at_moment_refl [OF g] unfolding s'(1) reclaims_at_most_def by blast
    then show ?thesis
      unfolding trims_def using at l g s' steps d not_faultless [OF landed(3)]
      by (intro disjI1 exI [of _ ?s1] exI [of _ A1] exI [of _ l] exI [of _ ?A]) simp
  next
    case ran
    have s2: "s2 = ?s2" using ran(2) stmt d by (simp add: tick_sdb)
    then have found: "find_log lid (sdb s2) = Some ?r" using find by (simp add: find_log_upd)
    with g s2 obtain l' where "log_rel l' ?r (tables (sdb s2))" by (metis good_find)
    then have "scanLogState env ?r = Inr (row_state ?r)" using dec by (simp add: scan_row log_rel_def)
    with call ran(1) stmt have "(case reclaim env (row_state ?r) s2 of
        (Inl err, s3) \<Rightarrow> if errors_Is err ErrLockUnavailable then (Inr (), s3) else (Inl err, s3)
      | (Inr _, s3) \<Rightarrow> (Inr (), s3)) = (res, s')" by simp
    with env dec g [folded s2] found obtain A3 where A3: "reclaims_at_most env lid ?A s2 A3 s'"
      "\<forall>err. res = Inl err \<longrightarrow> (\<forall>x. err \<noteq> Sentinel x) \<and> \<not> faultless env" by (rule trim_after)
    have "db_steps (sdb s) (sdb s')" using steps reclaims_at_most_steps(3) [OF env A3(1)] s2 d by simp
    then show ?thesis using at l g A3 unfolding trims_def s2 by blast
  qed
qed

lemma trim_go:
  assumes env: "rely env" and dec: "decodes env" and s: "good A s" and go: "checkTrim lid upTo = Inr True"
    and call: "Trim env lid upTo s = (res, s')"
  shows "(\<exists>A'. at_moment env A s A' s' \<and> A' lid = None \<and> res = Inr ()) \<or> trims env A lid upTo s res s' \<or>
    gave_up env A s res s'"
proof -
  let ?s1 = "others env s" and ?stmt = "sql_trim (int64 upTo) lid"
  from good_others [OF env s] obtain A1 where A1: "meanwhile env A A1" "good A1 ?s1" by auto
  then have rel: "db_rel A1 (sdb ?s1)" by (simp add: good_def)
  obtain q s2 where c: "pg_call env ?stmt s = (q, s2)" by (cases "pg_call env ?stmt s")
  have call': "(case bind_ok (bind_ok q first_row) (scanLogState env) of
      Inl err \<Rightarrow> if err = ErrNoRows then (Inr (), s2) else (Inl err, s2)
    | Inr st \<Rightarrow> (case reclaim env st s2 of
         (Inl err, s3) \<Rightarrow> if errors_Is err ErrLockUnavailable then (Inr (), s3) else (Inl err, s3)
       | (Inr _, s3) \<Rightarrow> (Inr (), s3))) = (res, s')"
    using call go c by (simp add: Trim_def query_row_def)
  from rel show ?thesis
  proof (cases rule: trim_simulates [where lid = lid and upTo = "int64 upTo"])
    case missing
    from c missing(2) show ?thesis
    proof (cases rule: pg_call_idle)
      case ran
      with missing A1 call' untouched_others show ?thesis
        by (intro disjI1 exI [of _ A1]) (auto intro: at_momentI)
    next
      case (fails err)
      with A1 call' untouched_others not_faultless show ?thesis by (auto simp: gave_up_def)
    qed
  next
    case (trimmed r l)
    from env dec A1 trimmed(1,2) trimmed(3,4) [folded trim_row_def [abs_def] trim_to_def] c call'
    have "trims env A lid upTo s res s' \<or> gave_up env A s res s'"
      by (intro trim_found) (simp_all add: trim_row_def [abs_def] trim_to_def)
    then show ?thesis by blast
  qed
qed

lemma Trim_cases:
  assumes env: "rely env" and dec: "decodes env" and s: "good A s" and call: "Trim env lid upTo s = (res, s')"
  obtains (malformed) err where "checkTrim lid upTo = Inl err" "res = Inl err" "s' = s"
  | (below) "upTo = 0" "res = Inr ()" "s' = s"
  | (missing) A' where "meanwhile env A A'" "A' lid = None" "good A' s'" "untouched env s s'" "res = Inr ()"
  | (trimmed) A1 l A2 s1 where "meanwhile env A A1" "A1 lid = Some l" "meanwhile env (A1(lid \<mapsto> trim_to upTo l)) A2"
      "good A2 s'" "\<And>err. res = Inl err \<Longrightarrow> (\<forall>x. err \<noteq> Sentinel x) \<and> \<not> faultless env"
      "db_steps (sdb s) (sdb s')" "at_moment env A s A1 s1"
      "good (A1(lid \<mapsto> trim_to upTo l)) (s1\<lparr>sdb := upd_log lid (trim_row upTo) (sdb s1)\<rparr>)"
      "reclaims_at_most env lid (A1(lid \<mapsto> trim_to upTo l)) (s1\<lparr>sdb := upd_log lid (trim_row upTo) (sdb s1)\<rparr>) A2 s'"
  | (failed) A' err where "res = Inl err" "\<And>x. err \<noteq> Sentinel x" "meanwhile env A A'" "good A' s'"
      "untouched env s s'" "\<not> faultless env"
proof -
  consider (err) e where "checkTrim lid upTo = Inl e" | (stop) "checkTrim lid upTo = Inr False"
    | (go) "checkTrim lid upTo = Inr True" by (cases "checkTrim lid upTo") auto
  then show ?thesis
  proof cases
    case (err e)
    with call show ?thesis by (intro malformed [of e]) (auto simp: Trim_def)
  next
    case stop
    then have "upTo = 0"
      by (auto simp: checkTrim_def FirstSeqno_def u64_one_le split: option.splits)
    with stop call show ?thesis by (intro below) (auto simp: Trim_def)
  next
    case go
    from trim_go [OF env dec s go call] show ?thesis
    proof (elim disjE)
      assume "\<exists>A'. at_moment env A s A' s' \<and> A' lid = None \<and> res = Inr ()"
      then show ?thesis using missing by (auto simp: at_moment_def)
    next
      assume "trims env A lid upTo s res s'"
      then obtain s1 A1 l A2 where t: "at_moment env A s A1 s1" "A1 lid = Some l"
        "good (A1(lid \<mapsto> trim_to upTo l)) (s1\<lparr>sdb := upd_log lid (trim_row upTo) (sdb s1)\<rparr>)"
        "reclaims_at_most env lid (A1(lid \<mapsto> trim_to upTo l)) (s1\<lparr>sdb := upd_log lid (trim_row upTo) (sdb s1)\<rparr>) A2 s'"
        "\<forall>err. res = Inl err \<longrightarrow> (\<forall>x. err \<noteq> Sentinel x) \<and> \<not> faultless env" "db_steps (sdb s) (sdb s')"
        unfolding trims_def by blast
      then show ?thesis using reclaims_at_most_steps(1,2) [OF env t(4)]
        by (intro that(4) [of A1 l A2 s1]) (auto simp: at_moment_def)
    qed (use that(5) in \<open>auto simp: gave_up_def\<close>)
  qed
qed

section \<open>When nobody else writes\<close>

lemma reclaim_quiet:
  assumes env: "quiet env" and s: "good A s" and find: "find_log lid (sdb s) = Some r"
    and call: "reclaim env (row_state r) s = (res, s')"
  shows "res = Inr () \<and> sdb s' = reclaimed lid (prevEmpty (row_state r)) (sdb s)"
proof -
  have dec: "decodes env" using env by (simp add: quiet_def)
  have ord: "ordinal r = st_ordinal (row_state r)" by (simp add: row_state_def)
  from quiet_rely [OF env] dec s find ord call show ?thesis
  proof (cases rule: reclaim_cases)
    case idle
    then have "\<not> prevEmpty (row_state r)" "\<not> snd (reclaimSteps (row_state r) True)"
      using reclaimSteps_truncate [of "row_state r" True] by simp_all
    then have "reclaimSteps (row_state r) False = (False, False)"
      by (simp add: prod_eq_iff reclaimSteps_truncate reclaimSteps_rotate)
    with idle find \<open>\<not> prevEmpty (row_state r)\<close> show ?thesis by (simp add: reclaimed_def)
  next
    case (committed s1 A1)
    with quiet_untouched [OF env committed(1)] quiet_faultless [OF env] show ?thesis by simp
  next
    case (failed A1 err)
    with quiet_faultless [OF env] show ?thesis by simp
  qed
qed

lemma Trim_quiet_db:
  assumes env: "quiet env" and s: "good A s" and find: "find_log lid (sdb s) = Some r"
    and ok: "checkTrim lid upTo = Inr True"
  shows "fst (Trim env lid upTo s) = Inr () \<and> row_ok (trim_row upTo r) \<and>
    sdb (snd (Trim env lid upTo s)) =
      reclaimed lid (prevEmpty (row_state (trim_row upTo r))) (upd_log lid (trim_row upTo) (sdb s))"
proof -
  have dec: "decodes env" using env by (simp add: quiet_def)
  have keys: "keys_ok (sdb s)" and rel: "db_rel A (sdb s)" using s by (auto simp: good_def db_rel_keys)
  from s find obtain l where l: "A lid = Some l" by (rule good_find)
  let ?d = "upd_log lid (trim_row upTo) (sdb s)" and ?r = "trim_row upTo r"
  let ?s1 = "tick (s\<lparr>sdb := ?d\<rparr>)"
  have stmt: "sql_trim (int64 upTo) lid (sdb s) = (Inr [?r], ?d)"
    using sql_trim_eq [OF keys] find by (simp add: trim_row_def [abs_def])
  have "db_rel (A(lid \<mapsto> trim_to upTo l)) ?d"
    using db_rel_trim [OF rel l, of "int64 upTo"] by (simp add: trim_to_def trim_row_def [abs_def])
  then have g: "good (A(lid \<mapsto> trim_to upTo l)) ?s1"
    using good_step [OF s] keeps_ordinals_upd by simp
  have find1: "find_log lid (sdb ?s1) = Some ?r" using find by (simp add: find_log_upd)
  from g find1 obtain l' where "log_rel l' ?r (tables (sdb ?s1))" by (rule good_find)
  then have rok: "row_ok ?r" by (simp add: log_rel_def)
  obtain q s2 where q: "reclaim env (row_state ?r) ?s1 = (q, s2)" by (cases "reclaim env (row_state ?r) ?s1")
  have "q = Inr () \<and> sdb s2 = reclaimed lid (prevEmpty (row_state ?r)) (sdb ?s1)"
    using reclaim_quiet [OF env g find1 q] .
  then show ?thesis
    using ok q rok by (simp add: Trim_def query_row_def pg_call_quiet [OF env] stmt scan_row [OF dec rok])
qed

text \<open>A half that a trim has passed is empty afterwards.\<close>

lemma truncated_table: "tables (truncated lid r d) (entriesTable (ordinal r) (1 - cur_slot r)) = Some []"
  by (simp add: truncated_def)

lemma reclaimed_table:
  assumes "find_log lid d = Some r" "prevEmpty (row_state r)"
  shows "tables (reclaimed lid True d) (entriesTable (ordinal r) (1 - cur_slot r)) = Some []"
  using assms truncated_table [of lid r d]
  by (simp add: reclaimed_def split_beta Let_def reclaimSteps_truncate)

lemma reclaimed_trim:
  assumes "find_log lid d = Some r"
  shows "\<exists>r'. find_log lid (reclaimed lid m d) = Some r' \<and> trim_upto r' = trim_upto r"
  using assms find_truncated [OF assms]
  by (simp add: reclaimed_def split_beta Let_def find_log_upd rotate_row_def)

end
