(* ===== verification/Create_Contract.thy ===== *)
theory Create_Contract
  imports Trim_Contract
begin

text \<open>
  What \<open>CreateLogs\<close> promises: after it every id of the batch exists, the logs that did not are
  new, and the ones that did are as they were; or the call failed and created none of them.
\<close>

lemma created_idem: "created ids (created ids A) = created ids A"
  by (auto simp: created_def fun_eq_iff)

lemma created_all: "lid \<in> set ids \<Longrightarrow> created ids A lid \<noteq> None"
  by (simp add: created_def)

lemma created_keeps: "A lid = Some l \<Longrightarrow> created ids A lid = Some l"
  by (simp add: created_def)

lemma insert_names_mono: "insert_names ids rows n = (os, rows', n') \<Longrightarrow> n \<le> n'"
proof (induction ids arbitrary: rows n os)
  case (Cons x ids)
  then show ?case by (fastforce split: if_splits prod.splits)
qed simp

lemma sql_insert_logs_runs:
  assumes "db_rel A d"
  obtains os w where "sql_insert_logs ids d = (Inr os, w)" "next_ordinal d \<le> next_ordinal w"
proof -
  from assms obtain rows where reg: "registry d = Some rows" by (auto simp: db_rel_def)
  obtain os rows' n' where i: "insert_names ids rows (next_ordinal d) = (os, rows', n')"
    by (cases "insert_names ids rows (next_ordinal d)") auto
  with reg insert_names_mono [OF i] show ?thesis 
    by (intro that [of os "d\<lparr>registry := Some rows', next_ordinal := n'\<rparr>"]) (simp_all add: sql_insert_logs_def)
qed

text \<open>A failed creation may have spent ordinals; the tables are otherwise what the others made them.\<close>

definition spent :: "env \<Rightarrow> sys \<Rightarrow> sys \<Rightarrow> bool" where
  "spent env s s' \<longleftrightarrow>
     (\<exists>s1 n. untouched env s s1 \<and> next_ordinal (sdb s1) \<le> n \<and> sdb s' = (sdb s1)\<lparr>next_ordinal := n\<rparr>)"

lemma spent_untouched: "untouched env s s' \<Longrightarrow> spent env s s'"
proof -
  assume u: "untouched env s s'"
  have "sdb s' = (sdb s')\<lparr>next_ordinal := next_ordinal (sdb s')\<rparr>" by simp
  with u show ?thesis unfolding spent_def by (intro exI [of _ s'] exI [of _ "next_ordinal (sdb s')"]) simp
qed

lemma spent_steps:
  assumes "rely env" "spent env s s'"
  shows "db_steps (sdb s) (sdb s')"
proof -
  from assms(2) obtain s1 n where "untouched env s s1" "next_ordinal (sdb s1) \<le> n"
    and d: "sdb s' = (sdb s1)\<lparr>next_ordinal := n\<rparr>" by (auto simp: spent_def)
  with assms(1) step_burn [of "sdb s1" n] show ?thesis
    unfolding d by (blast intro: untouched_steps rtranclp.rtrancl_into_rtrancl)
qed

lemma good_burn:
  assumes "good A s" "next_ordinal (sdb s) \<le> n" "sdb s' = (sdb s)\<lparr>next_ordinal := n\<rparr>" "appends s' = appends s"
  shows "good A s'"
proof -
  have "keeps_ordinals (sdb s) (sdb s')" using assms(3) by (intro keeps_ordinals_same) simp
  then show ?thesis using assms db_rel_burn [of A "sdb s" n] cache_ok_keeps [of s s'] by (simp add: good_def)
qed

text \<open>The DDL and the commit, once the rows are in.\<close>

lemma create_rings_call:
  assumes call: "(if os = [] then (Inr (), s4, w) else tx_call env (sql_create_rings os) (s4, w)) = (r, s5, w')"
  shows "sdb s5 = sdb s4" "appends s5 = appends s4" "clk s4 \<le> clk s5"
    and "r = Inr u \<Longrightarrow> w' = snd (sql_create_rings os w)"
    and "r = Inl err \<Longrightarrow> (\<forall>x. err \<noteq> Sentinel x) \<and> \<not> faultless env"
proof -
  have c: "sql_create_rings os w = (Inr (), snd (sql_create_rings os w))" by (simp add: sql_create_rings_def)
  have "sdb s5 = sdb s4 \<and> appends s5 = appends s4 \<and> clk s4 \<le> clk s5 \<and>
    (\<forall>u. r = Inr u \<longrightarrow> w' = snd (sql_create_rings os w)) \<and>
    (\<forall>err. r = Inl err \<longrightarrow> (\<forall>x. err \<noteq> Sentinel x) \<and> \<not> faultless env)"
  proof (cases "os = []")
    case True
    with call show ?thesis by (auto simp: sql_create_rings_def)
  next
    case False
    with call have "tx_call env (sql_create_rings os) (s4, w) = (r, s5, w')" by simp
    from this c show ?thesis by (cases rule: tx_call_runs) auto
  qed
  then show "sdb s5 = sdb s4" "appends s5 = appends s4" "clk s4 \<le> clk s5"
    and "r = Inr u \<Longrightarrow> w' = snd (sql_create_rings os w)"
    and "r = Inl err \<Longrightarrow> (\<forall>x. err \<noteq> Sentinel x) \<and> \<not> faultless env" by blast+
qed

text \<open>What creating comes to: every id exists from one moment on, or none was created by this.\<close>

definition creates :: "env \<Rightarrow> logs \<Rightarrow> LogID list \<Rightarrow> sys \<Rightarrow> goerr + unit \<Rightarrow> sys \<Rightarrow> bool" where
  "creates env A ids s res s' \<longleftrightarrow>
     (\<exists>s1 A1. at_moment env A s A1 s1 \<and> good (created ids A1) s' \<and> (res = Inr () \<or> (\<exists>n. res = Inl (DriverError n))) \<and>
        (faultless env \<longrightarrow> res = Inr ()) \<and> db_steps (sdb s) (sdb s'))"

definition creates_none :: "env \<Rightarrow> logs \<Rightarrow> sys \<Rightarrow> goerr + unit \<Rightarrow> sys \<Rightarrow> bool" where
  "creates_none env A s res s' \<longleftrightarrow>
     (\<exists>A1 err. res = Inl err \<and> (\<forall>x. err \<noteq> Sentinel x) \<and> meanwhile env A A1 \<and> good A1 s' \<and> spent env s s' \<and>
        \<not> faultless env)"

lemma creates_noneI:
  assumes "res = Inl err" "\<And>x. err \<noteq> Sentinel x" "meanwhile env A A1" "good A1 s'" "spent env s s'" "\<not> faultless env"
  shows "creates_none env A s res s'"
  using assms by (auto simp: creates_none_def)

text \<open>The rest of the transaction, once the rows are in: \<open>s2\<close> is where it started.\<close>

lemma create_commit:
  assumes env: "rely env" and A2: "meanwhile env A A2" "good A2 s2" and u: "untouched env s s3"
    and steps: "\<And>d. db_step (sdb s2) d \<Longrightarrow> db_steps (sdb s) d"
    and ins: "sql_insert_logs ids (sdb s2) = (Inr os, w)" "next_ordinal (sdb s2) \<le> next_ordinal w"
    and s3: "sdb s3 = sdb s2" "appends s3 = appends s2"
    and call: "(if os = [] then (Inr (), s3\<lparr>sdb := (sdb s3)\<lparr>next_ordinal := next_ordinal w\<rparr>\<rparr>, w)
        else tx_call env (sql_create_rings os) (s3\<lparr>sdb := (sdb s3)\<lparr>next_ordinal := next_ordinal w\<rparr>\<rparr>, w)) = (q5, s5, w5)"
      "(case q5 of Inl err \<Rightarrow> (Inl err, s5) | Inr _ \<Rightarrow> tx_commit env (s5, w5)) = (res, s')"
  shows "creates env A ids s res s' \<or> creates_none env A s res s'"
proof -
  note run = create_rings_call [OF call(1)]
  have rel: "db_rel A2 (sdb s2)" using A2(2) by (simp add: good_def)
  have d5: "sdb s5 = (sdb s3)\<lparr>next_ordinal := next_ordinal w\<rparr>" "registry (sdb s5) = registry (sdb s2)"
    using run(1) s3 by simp_all
  have sp: "spent env s s6" if "sdb s6 = sdb s5" for s6
    using that u ins(2) d5(1) s3 unfolding spent_def by (intro exI [of _ s3] exI [of _ "next_ordinal w"]) simp
  have g5: "good A2 s5" by (rule good_burn [of A2 s2 "next_ordinal w"]) (use A2(2) ins(2) d5(1) run(2) s3 in simp_all)
  show ?thesis
  proof (cases q5)
    case (Inl err)
    with call(2) run(5) sp [of s5] A2(1) g5 show ?thesis
      by (intro disjI2 creates_noneI [of res err env A A2]) auto
  next
    case (Inr u)
    with run(4) have w5: "w5 = snd (sql_create_rings os w)" by simp
    have "keeps_ordinals (sdb s5) w5"
      using keeps_ordinals_trans [OF keeps_ordinals_same keeps_ordinals_create [OF ins(1)]] d5(2) w5 by simp
    then have gw: "good (created ids A2) (s5\<lparr>sdb := w5\<rparr>)"
      using db_rel_created [OF rel ins(1)] g5 w5 by (intro good_step [of A2]) simp_all
    from Inr call(2) have c: "tx_commit env (s5, w5) = (res, s')" by simp
    from c show ?thesis
    proof (cases rule: tx_commit_cases)
      case landed
      have "db_steps (sdb s) w5" unfolding w5 using ins(1) by (intro steps step_create)
      moreover have "at_moment env A s A2 s3"
        using A2 u s3 by (auto simp: at_moment_def good_def cache_ok_def)
      ultimately show ?thesis using landed gw unfolding creates_def by fastforce
    next
      case (fails err)
      with g5 A2(1) sp [of s'] show ?thesis
        by (intro disjI2 creates_noneI [of res err env A A2]) auto
    qed
  qed
qed

lemma create_go:
  assumes env: "rely env" and s: "good A s" and call: "CreateLogs env ids s = (res, s')"
    and go: "ids \<noteq> []" "check_ids ids = None"
  shows "creates env A ids s res s' \<or> creates_none env A s res s'"
proof -
  obtain q1 s1 where q1: "pg_call env sql_nop s = (q1, s1)" by (cases "pg_call env sql_nop s")
  have nop: "sql_nop d = (Inr (), d)" for d by (simp add: sql_nop_def)
  from env s q1 nop show ?thesis
  proof (cases rule: idle_call)
    case (fails A' err)
    then show ?thesis using call go q1 spent_untouched
      by (intro disjI2 creates_noneI [of res err env A A']) (auto simp: CreateLogs_def)
  next
    case (ran A1)
    let ?s2 = "others env s1"
    from good_others [OF env ran(3)] obtain A2 where A2: "meanwhile env A1 A2" "good A2 ?s2" by auto
    have st: "meanwhile env A A2" using ran(2) A2(1) by (rule meanwhile_trans)
    from A2(2) have "db_rel A2 (sdb ?s2)" by (simp add: good_def)
    then obtain os w where ins: "sql_insert_logs ids (sdb ?s2) = (Inr os, w)" "next_ordinal (sdb ?s2) \<le> next_ordinal w"
      by (rule sql_insert_logs_runs)
    have steps: "db_steps (sdb s) d" if "db_step (sdb ?s2) d" for d
      using untouched_steps [OF env ran(4)] others_steps [OF env that] by (rule rtranclp_trans)
    obtain q3 s3 w3 where q3: "tx_call env (sql_insert_logs ids) (?s2, sdb ?s2) = (q3, s3, w3)"
      by (cases "tx_call env (sql_insert_logs ids) (?s2, sdb ?s2)")
    from q3 ins(1) show ?thesis
    proof (cases rule: tx_call_runs)
      case (fails err)
      let ?n = "lost_ordinals env ids ?s2" and ?s4 = "s3\<lparr>sdb := (sdb s3)\<lparr>next_ordinal := lost_ordinals env ids ?s2\<rparr>\<rparr>"
      have n: "next_ordinal (sdb ?s2) \<le> ?n" using ins by (simp add: lost_ordinals_def split: outcome.split)
      have "untouched env s1 s3" using fails(4) by (intro untouched_begin) simp_all
      with ran(4) have "untouched env s s3" by (rule untouched_trans)
      then have "spent env s ?s4" using n fails(4) unfolding spent_def by (intro exI [of _ s3] exI [of _ ?n]) simp
      moreover have "good A2 ?s4" by (rule good_burn [of A2 ?s2 ?n]) (use A2(2) n fails(4) in simp_all)
      moreover have "res = Inl err" "s' = ?s4" using call go q1 ran(1) q3 fails(1) by (simp_all add: CreateLogs_def Let_def)
      ultimately show ?thesis using st fails by (intro disjI2 creates_noneI [of res err env A A2]) simp_all
    next
      case ran3: ran
      let ?s4 = "s3\<lparr>sdb := (sdb s3)\<lparr>next_ordinal := next_ordinal w\<rparr>\<rparr>"
      let ?c = "if os = [] then (Inr (), ?s4, w) else tx_call env (sql_create_rings os) (?s4, w)"
      obtain q5 s5 w5 where q5: "?c = (q5, s5, w5)" by (cases ?c)
      have call': "(case q5 of Inl err \<Rightarrow> (Inl err, s5) | Inr _ \<Rightarrow> tx_commit env (s5, w5)) = (res, s')"
        using call go q1 ran(1) q3 ran3(1,3) q5 by (cases q5) (auto simp: CreateLogs_def Let_def)
      have "untouched env s1 s3" using ran3(2) by (intro untouched_begin) simp_all
      with ran(4) have u3: "untouched env s s3" by (rule untouched_trans)
      from create_commit [OF env st A2(2) u3 steps ins _ _ q5 call'] ran3(2) show ?thesis by simp
    qed
  qed
qed

text \<open>The whole of \<open>CreateLogs\<close>.\<close>

lemma CreateLogs_cases:
  assumes env: "rely env" and s: "good A s" and call: "CreateLogs env ids s = (res, s')"
  obtains (empty) "ids = []" "res = Inr ()" "s' = s"
  | (malformed) err where "check_ids ids = Some err" "res = Inl err" "s' = s"
  | (created) A1 s1 where "at_moment env A s A1 s1" "good (created ids A1) s'"
      "res = Inr () \<or> (\<exists>n. res = Inl (DriverError n))" "faultless env \<Longrightarrow> res = Inr ()"
      "db_steps (sdb s) (sdb s')"
  | (failed) A1 err where "res = Inl err" "\<And>x. err \<noteq> Sentinel x" "meanwhile env A A1" "good A1 s'" "spent env s s'"
      "\<not> faultless env"
proof -
  consider "ids = []" | err where "ids \<noteq> []" "check_ids ids = Some err" | (go) "ids \<noteq> []" "check_ids ids = None"
    by (cases "check_ids ids") auto
  then show ?thesis
  proof cases
    case 1
    then show ?thesis using call by (intro empty) (auto simp: CreateLogs_def)
  next
    case (2 err)
    then show ?thesis using call by (intro malformed [of err]) (auto simp: CreateLogs_def)
  next
    case go
    from create_go [OF env s call go] show ?thesis
      using created failed unfolding creates_def creates_none_def by metis
  qed
qed

section \<open>Creating what exists\<close>

lemma insert_names_existing:
  "set ids \<subseteq> log_id ` set rows \<Longrightarrow> insert_names ids rows n = ([], rows, n + int (length ids))"
  by (induction ids arbitrary: n) auto

lemma CreateLogs_existing:
  assumes env: "quiet env" and s: "good A s" and ex: "\<forall>lid \<in> set ids. A lid \<noteq> None" and ok: "check_ids ids = None"
  shows "fst (CreateLogs env ids s) = Inr () \<and>
    sdb (snd (CreateLogs env ids s)) = (sdb s)\<lparr>next_ordinal := next_ordinal (sdb s) + int (length ids)\<rparr>"
proof (cases "ids = []")
  case True
  have "(sdb s)\<lparr>next_ordinal := next_ordinal (sdb s)\<rparr> = sdb s" by simp
  then show ?thesis using True by (simp add: CreateLogs_def)
next
  case False
  from s obtain rows where reg: "registry (sdb s) = Some rows" and dom: "dom A = log_id ` set rows"
    by (auto simp: good_def db_rel_def)
  have "set ids \<subseteq> log_id ` set rows" using ex dom by auto
  then have ins: "sql_insert_logs ids (sdb s) = (Inr [],
      (sdb s)\<lparr>registry := Some rows, next_ordinal := next_ordinal (sdb s) + int (length ids)\<rparr>)"
    by (simp add: sql_insert_logs_def reg insert_names_existing)
  have "(sdb s)\<lparr>registry := Some rows, next_ordinal := n\<rparr> = (sdb s)\<lparr>next_ordinal := n\<rparr>" for n
    using reg by (cases "sdb s") simp
  then show ?thesis
    using False ok by (simp add: CreateLogs_def pg_call_quiet [OF env] sql_nop_def tx_call_quiet [OF env]
        tx_commit_quiet [OF env] ins env Let_def)
qed

end
