(* ===== verification/Guarantee.thy ===== *)
theory Guarantee
  imports Append_Contract Read_Contract Create_Contract
begin

text \<open>
  The other side of the bargain. The contracts assume that other sessions only take steps of
  the schema (\<open>rely\<close>); here every operation of a store, run among such sessions and with any
  of its calls failing, is shown to take only such steps itself and to keep its own cache
  right. So stores may run beside each other in any number.
\<close>

section \<open>Calls of the package\<close>

datatype call =
    Create_call "LogID list"
  | Fence_call LogID Epoch
  | Append_call LogID Epoch Seqno "bytes list"
  | Read_call LogID Seqno int
  | Next_call LogID
  | Trim_call LogID Seqno

fun run_call :: "env \<Rightarrow> call \<Rightarrow> sys \<Rightarrow> sys" where
  "run_call env (Create_call ids) s = snd (CreateLogs env ids s)"
| "run_call env (Fence_call lid ep) s = snd (Fence env lid ep s)"
| "run_call env (Append_call lid ep first ps) s = snd (Append env lid ep first ps s)"
| "run_call env (Read_call lid frm limit) s = snd (ReadFrom env lid frm limit s)"
| "run_call env (Next_call lid) s = snd (NextSeqno env lid s)"
| "run_call env (Trim_call lid upTo) s = snd (Trim env lid upTo s)"

fun call_fits :: "call \<Rightarrow> bool" where
  "call_fits (Append_call lid ep first ps) \<longleftrightarrow> batch_fits first ps"
| "call_fits _ \<longleftrightarrow> True"

fun run_calls :: "env \<Rightarrow> call list \<Rightarrow> sys \<Rightarrow> sys" where
  "run_calls env [] s = s"
| "run_calls env (c # cs) s = run_calls env cs (run_call env c s)"

section \<open>Each call takes steps of the schema\<close>

lemma ReadFrom_guarantee:
  assumes env: "rely env" and dec: "decodes env" and s: "good A s"
  shows "db_steps (sdb s) (sdb (snd (ReadFrom env lid frm limit s))) \<and> cache_ok (snd (ReadFrom env lid frm limit s))"
proof (cases "checkRead lid frm limit")
  case (Inl err)
  then show ?thesis using s by (simp add: ReadFrom_def good_def)
next
  case (Inr from')
  obtain st s1 where st: "readState env lid s = (st, s1)" by (cases "readState env lid s")
  have s1: "db_steps (sdb s) (sdb s1) \<and> cache_ok s1"
    using env dec s st by (cases rule: readState_cases) (auto simp: good_def intro: untouched_steps [OF env])
  have read: "snd (sql_read t0 t1 lo hi d) = d" for t0 t1 lo hi d
    by (simp add: sql_read_def split: option.splits)
  have later: "db_steps (sdb s) (sdb (snd (then_do (pg_call env (sql_read t0 t1 lo hi) s1) (\<lambda>rows s2. (k rows, s2))))) \<and>
      cache_ok (snd (then_do (pg_call env (sql_read t0 t1 lo hi) s1) (\<lambda>rows s2. (k rows, s2))))"
    for t0 t1 lo hi and k :: "entry_row list \<Rightarrow> goerr + Entry list"
  proof -
    obtain q s2 where q: "pg_call env (sql_read t0 t1 lo hi) s1 = (q, s2)"
      by (cases "pg_call env (sql_read t0 t1 lo hi) s1")
    then have s2: "s2 = tick (others env s1)" by (cases rule: pg_call_cases) (simp_all add: read)
    have "db_steps (sdb s1) (sdb s2)" using env s2 by (simp add: rely_def sdb_others)
    moreover have "cache_ok s2"
      using s1 s2 others_keeps [OF env, of s1] by (intro cache_ok_keeps [of s1 s2]) simp_all
    ultimately show ?thesis using s1 q by (cases q) auto
  qed
  show ?thesis
  proof (cases st)
    case (Inl err)
    with Inr st s1 show ?thesis by (simp add: ReadFrom_def)
  next
    case found: (Inr x)
    with Inr st s1 later show ?thesis by (cases x) (simp_all add: ReadFrom_def Let_def)
  qed
qed

lemma call_guarantee:
  assumes env: "rely env" and dec: "decodes env" and s: "good A s" and fits: "call_fits c"
  shows "db_steps (sdb s) (sdb (run_call env c s)) \<and> cache_ok (run_call env c s)"
proof -
  note g = good_def untouched_steps [OF env] spent_steps [OF env]
  have cache: "cache_ok s" using s by (simp add: good_def)
  show ?thesis
  proof (cases c)
    case (Create_call ids)
    obtain res s' where a: "CreateLogs env ids s = (res, s')" by (cases "CreateLogs env ids s")
    from env s a show ?thesis
      by (cases rule: CreateLogs_cases) (use Create_call cache a in \<open>auto simp: g\<close>)
  next
    case (Fence_call lid ep)
    obtain res s' where a: "Fence env lid ep s = (res, s')" by (cases "Fence env lid ep s")
    from env s a show ?thesis
      by (cases rule: Fence_cases) (use Fence_call cache a in \<open>auto simp: g\<close>)
  next
    case (Append_call lid ep first ps)
    obtain res s' where a: "Append env lid ep first ps s = (res, s')" by (cases "Append env lid ep first ps s")
    have "batch_fits first ps" using fits Append_call by simp
    from env s this a show ?thesis
      by (cases rule: Append_cases) (use Append_call cache a in \<open>auto simp: g wrote_def\<close>)
  next
    case (Read_call lid frm limit)
    then show ?thesis using ReadFrom_guarantee [OF env dec s] by simp
  next
    case (Next_call lid)
    obtain res s' where a: "NextSeqno env lid s = (res, s')" by (cases "NextSeqno env lid s")
    from env dec s a show ?thesis
      by (cases rule: NextSeqno_cases) (use Next_call cache a in \<open>auto simp: g\<close>)
  next
    case (Trim_call lid upTo)
    obtain res s' where a: "Trim env lid upTo s = (res, s')" by (cases "Trim env lid upTo s")
    from env dec s a show ?thesis
      by (cases rule: Trim_cases) (use Trim_call cache a in \<open>auto simp: g\<close>)
  qed
qed

lemma calls_guarantee:
  assumes "rely env" "decodes env" "good A s" "list_all call_fits cs"
  shows "db_steps (sdb s) (sdb (run_calls env cs s)) \<and> cache_ok (run_calls env cs s)"
  using assms
proof (induction cs arbitrary: A s)
  case Nil
  then show ?case by (simp add: good_def)
next
  case (Cons c cs)
  have c: "db_steps (sdb s) (sdb (run_call env c s))" "cache_ok (run_call env c s)"
    using call_guarantee [OF Cons.prems(1-3), of c] Cons.prems(4) by simp_all
  with Cons.prems(3) obtain A' where "good A' (run_call env c s)" by (rule good_later)
  with Cons c show ?case by (auto intro: rtranclp_trans)
qed

section \<open>Reachable tables\<close>

lemma db_rel_initial: "initial d \<Longrightarrow> db_rel Map.empty d"
  by (simp add: initial_def db_rel_def)

lemma reachable_rel:
  assumes "reachable d"
  obtains A where "logs_steps Map.empty A" "db_rel A d"
  using assms sim.simulates_run db_rel_initial by (auto simp: reachable_def) blast

lemma reachable_steps: "reachable d \<Longrightarrow> db_steps d d' \<Longrightarrow> reachable d'"
  by (auto simp: reachable_def intro: rtranclp_trans)

text \<open>The rows a log has in its two tables, as a run of its history.\<close>

lemma log_rows:
  assumes "db_rel A d" "find_log lid d = Some r"
  obtains l plo t0 t1 where "A lid = Some l" "log_rel l r (tables d)" "1 \<le> plo" "plo \<le> Suc (a_trim l)"
    "tables d (entriesTable (ordinal r) 0) = Some t0" "tables d (entriesTable (ordinal r) 1) = Some t1"
    "mset (t0 @ t1) = mset (run_rows (a_hist l) plo (Suc (length (a_hist l))))"
proof -
  from db_rel_find(2) [OF assms] obtain l where l: "A lid = Some l" and lr: "log_rel l r (tables d)" by blast
  from lr show ?thesis by (rule ring_run) (use that l lr in blast)
qed

lemma run_rows_member:
  "x \<in> set (run_rows h a b) \<longleftrightarrow> (\<exists>s. a \<le> s \<and> s < b \<and> x \<in> set (entry_at h s))"
  by (auto simp: run_rows_def)

lemma entry_at_first_row: "\<exists>x \<in> set (entry_at h s). row_seqno x = int s \<and> row_chunk x = 0"
proof -
  obtain c cs where "chunksOf (snd (h ! (s - 1))) = c # cs"
    using codec.nonempty by (cases "chunksOf (snd (h ! (s - 1)))") auto
  then show ?thesis by (simp add: entry_at_def entry_rows_def int16_small)
qed

lemma run_row_epoch:
  assumes "x \<in> set (run_rows h a (Suc (length h)))" "1 \<le> a"
  shows "\<exists>i < length h. row_seqno x = int (Suc i) \<and> row_epoch x = fst (h ! i)"
proof -
  from assms(1) obtain s where s: "a \<le> s" "s < Suc (length h)" "x \<in> set (entry_at h s)"
    unfolding run_rows_member by blast
  then have "row_seqno x = int s" "row_epoch x = fst (h ! (s - 1))"
    using part_rows_props(1,2) by (auto simp: entry_at_def entry_rows_def)
  with s assms(2) show ?thesis by (intro exI [of _ "s - 1"]) auto
qed

end
