(* ===== verification/Schema.thy ===== *)
theory Schema
  imports Guarantee
begin

text \<open>
  The schema itself (\<open>schema.go\<close>, \<open>Open\<close> of \<open>store.go\<close>, the migration): how a store is opened,
  how the tables are enumerated and dropped. The migration tool goose is a parameter.
\<close>

section \<open>Definitions\<close>

definition registryTable :: string where
  "registryTable = ''pgnotch_logs''"

definition versionTable :: string where
  "versionTable = ''pgnotch_migrations''"

text \<open>\<open>SELECT to_regclass($1)::text\<close>: one row, whose column is NULL where there is no such table.\<close>

definition sql_to_regclass :: "string option list stmt" where
  "sql_to_regclass d = (Inr [if registry d = None then None else Some registryTable], d)"

definition migrated :: "env \<Rightarrow> sys \<Rightarrow> (goerr + bool) \<times> sys" where
  "migrated env s =
     (case query_row env sql_to_regclass s of
        (Inl err, s1) \<Rightarrow> if err = ErrNoRows then (Inr False, s1) else (Inl err, s1)
      | (Inr name, s1) \<Rightarrow> (Inr (name \<noteq> None), s1))"

text \<open>A store just opened has cached nothing.\<close>

definition Open :: "env \<Rightarrow> sys \<Rightarrow> (goerr + unit) \<times> sys" where
  "Open env s =
     then_do (migrated env s) (\<lambda>ready s1.
     if \<not> ready then (Inl (Sentinel ErrNotMigrated), s1)
     else (Inr (), s1\<lparr>appends := (\<lambda>_. None)\<rparr>))"

definition entryTables :: "env \<Rightarrow> sys \<Rightarrow> (goerr + string list) \<times> sys" where
  "entryTables env s =
     (case pg_call env (sql_select (\<lambda>_. True)) s of
        (Inr rows, s1) \<Rightarrow> (Inr (concat (map (ringTables \<circ> ordinal) rows)), s1)
      | (Inl err, s1) \<Rightarrow> if isUndefinedTable err then (Inr [], s1) else (Inl err, s1))"

text \<open>\<open>DROP TABLE IF EXISTS\<close> of a list of tables, all in one statement.\<close>

definition sql_drop :: "string list \<Rightarrow> unit stmt" where
  "sql_drop names d =
     (Inr (), d\<lparr>registry := (if registryTable \<in> set names then None else registry d),
                tables := (\<lambda>t. if t \<in> set names then None else tables d t),
                version_table := (if versionTable \<in> set names then None else version_table d)\<rparr>)"

definition Drop :: "env \<Rightarrow> sys \<Rightarrow> (goerr + unit) \<times> sys" where
  "Drop env s =
     then_do (entryTables env s) (\<lambda>ts s1.
     then_do (pg_call env (sql_drop (ts @ [registryTable, versionTable])) s1) (\<lambda>_ s2. (Inr (), s2)))"

text \<open>
  The one migration: its up creates the registry, whose identity starts at 1; its down drops
  the entry tables the registry names and then the registry.
\<close>

definition duplicate_table :: string where
  "duplicate_table = ''42P07''"

definition migration_up :: "unit stmt" where
  "migration_up d =
     (case registry d of
        Some _ \<Rightarrow> (Inl duplicate_table, d)
      | None \<Rightarrow> (Inr (), d\<lparr>registry := Some [], next_ordinal := 1\<rparr>))"

text \<open>The names the down migration formats, over the registry and \<open>generate_series(0, 1)\<close>.\<close>

definition down_tables :: "reg_row list \<Rightarrow> string list" where
  "down_tables rows =
     concat (map (\<lambda>r. map (\<lambda>slot. ''pgnotch_entries_'' @ show_int (ordinal r) @ ''_'' @ show_int slot) [0, 1]) rows)"

definition migration_down :: "unit stmt" where
  "migration_down d =
     (case registry d of
        None \<Rightarrow> (Inl undefined_table, d)
      | Some rows \<Rightarrow>
          (Inr (), d\<lparr>registry := None,
             tables := (\<lambda>t. if t \<in> set (down_tables rows) then None else tables d t)\<rparr>))"

text \<open>
  goose: making a store for a version table, making a provider from options, and its \<open>Up\<close>.
  The options this package passes come first, so that a caller's are applied after them.
\<close>

datatype goose_option =
    WithStore string
  | WithDisableGlobalRegistry bool
  | WithNopLogger
  | CallerOption nat

record 'p goose =
  goose_NewStore :: "string \<Rightarrow> goerr + unit"
  goose_NewProvider :: "goose_option list \<Rightarrow> goerr + 'p"
  goose_Up :: "'p \<Rightarrow> env \<Rightarrow> sys \<Rightarrow> (goerr + unit) \<times> sys"

definition Provider :: "'p goose \<Rightarrow> goose_option list \<Rightarrow> goerr + 'p" where
  "Provider G opts =
     bind_ok (goose_NewStore G versionTable) (\<lambda>_.
       goose_NewProvider G ([WithStore versionTable, WithDisableGlobalRegistry True, WithNopLogger] @ opts))"

definition Migrate :: "'p goose \<Rightarrow> env \<Rightarrow> sys \<Rightarrow> (goerr + unit) \<times> sys" where
  "Migrate G env s =
     (case Provider G [] of
        Inl err \<Rightarrow> (Inl err, s)
      | Inr p \<Rightarrow> goose_Up G p env s)"

section \<open>The registry is complete\<close>

text \<open>Every entry table belongs to a log of the registry.\<close>

definition no_orphans :: "db \<Rightarrow> bool" where
  "no_orphans d \<longleftrightarrow>
     (\<forall>t. tables d t \<noteq> None \<longrightarrow>
        (\<exists>rows. registry d = Some rows \<and> (\<exists>r \<in> set rows. t \<in> set (ringTables (ordinal r)))))"

text \<open>A step that keeps the ordinals and adds no table keeps the registry complete.\<close>

lemma no_orphans_keep:
  assumes "no_orphans d" "\<And>t. tables d' t \<noteq> None \<Longrightarrow> tables d t \<noteq> None"
    and "registry d' = map_option (map g) (registry d)" "\<And>r. ordinal (g r) = ordinal r"
  shows "no_orphans d'"
  unfolding no_orphans_def
proof (intro allI impI)
  fix t assume "tables d' t \<noteq> None"
  with assms(1,2) obtain rows r where "registry d = Some rows" "r \<in> set rows" "t \<in> set (ringTables (ordinal r))"
    unfolding no_orphans_def by blast
  then show "\<exists>rows. registry d' = Some rows \<and> (\<exists>r \<in> set rows. t \<in> set (ringTables (ordinal r)))"
    using assms(3,4) by (intro exI [of _ "map g rows"]) auto
qed

lemma no_orphans_same:
  assumes "no_orphans d" "\<And>t. tables d' t \<noteq> None \<Longrightarrow> tables d t \<noteq> None" "registry d' = registry d"
  shows "no_orphans d'"
  using assms unfolding no_orphans_def by metis

lemma no_orphans_update:
  assumes "no_orphans d" "\<And>r. ordinal (f r) = ordinal r"
  shows "no_orphans (snd (sql_update p f d))"
  using assms(1)
  by (rule no_orphans_keep [where g = "\<lambda>r. if p r then f r else r"])
    (auto simp: sql_update_def assms(2) map_idI split: option.splits)

lemma no_orphans_upd_log:
  assumes "no_orphans d" "\<And>r. ordinal (f r) = ordinal r"
  shows "no_orphans (upd_log lid f d)"
  using assms(1)
  by (rule no_orphans_keep [where g = "\<lambda>r. if log_id r = lid then f r else r"]) (auto simp: upd_log_def assms(2))

lemma insert_rows_tables: "tables (insert_rows c n rs d) t \<noteq> None \<longleftrightarrow> tables d t \<noteq> None"
  by (auto simp: insert_rows_def)

lemma no_orphans_append:
  assumes "no_orphans d"
  shows "no_orphans (snd (sql_append q lst lid e prev cols d))"
proof -
  let ?p = "\<lambda>r. log_id r = lid \<and> epoch r = e \<and> last_seqno r = prev" and ?f = "\<lambda>r. r\<lparr>last_seqno := lst\<rparr>"
  have "no_orphans (snd (sql_update ?p ?f d))" using assms by (rule no_orphans_update) simp
  then have keep: "no_orphans (insert_rows c1 n1 rs1 (insert_rows c2 n2 rs2 (snd (sql_update ?p ?f d))))" for c1 n1 rs1 c2 n2 rs2
    by (rule no_orphans_same) (simp_all add: insert_rows_tables del: not_None_eq)
  obtain res d' where u: "sql_update ?p ?f d = (res, d')" by (cases "sql_update ?p ?f d")
  have err: "no_orphans d'" using u \<open>no_orphans (snd (sql_update ?p ?f d))\<close> by simp
  show ?thesis
    using assms keep err unfolding sql_append_def u by (cases res) (simp_all add: Let_def u)
qed

lemma no_orphans_reclaimed:
  assumes rel: "db_rel A d" and ok: "no_orphans d"
  shows "no_orphans (reclaimed lid m d)"
proof (cases "find_log lid d")
  case None
  then show ?thesis using ok by (simp add: reclaimed_def)
next
  case (Some r)
  from db_rel_find(2) [OF rel Some] obtain l where lr: "log_rel l r (tables d)" by blast
  have "no_orphans (d\<lparr>tables := (tables d)(entriesTable (ordinal r) (1 - cur_slot r) := Some [])\<rparr>)"
    using ok by (rule no_orphans_same) (use lr in \<open>auto simp: log_rel_def ring_holds_def split: if_splits\<close>)
  then have t: "no_orphans (truncated lid r d)" unfolding truncated_def by (rule no_orphans_upd_log) simp
  have "no_orphans (upd_log lid rotate_row x)" if "no_orphans x" for x
    using that by (rule no_orphans_upd_log) simp
  with t ok show ?thesis by (simp add: reclaimed_def Some split_beta Let_def)
qed

lemma insert_names_ordinals:
  "insert_names ids rows n = (os, rows', n') \<Longrightarrow>
     set rows \<subseteq> set rows' \<and> set os \<subseteq> ordinal ` set rows'"
proof (induction ids arbitrary: rows n os)
  case (Cons x ids)
  show ?case
  proof (cases "x \<in> log_id ` set rows")
    case True
    with Cons show ?thesis by simp
  next
    case False
    then obtain os' where os: "os = n # os'" and ins: "insert_names ids (rows @ [new_row x n]) (n + 1) = (os', rows', n')"
      using Cons.prems by (auto split: prod.splits)
    from Cons.IH [OF ins] have sub: "set (rows @ [new_row x n]) \<subseteq> set rows'" "set os' \<subseteq> ordinal ` set rows'" by auto
    then have "new_row x n \<in> set rows'" by simp
    then have "n \<in> ordinal ` set rows'" by (rule rev_image_eqI) (simp add: new_row_def)
    with sub os show ?thesis by auto
  qed
qed simp

lemma create_tables_dom:
  "tables (fold create_table ts d) t \<noteq> None \<Longrightarrow> tables d t \<noteq> None \<or> t \<in> set ts"
proof (induction ts arbitrary: d)
  case (Cons x ts)
  then have "tables (create_table x d) t \<noteq> None \<or> t \<in> set ts" by simp
  then show ?case by (auto simp: create_table_def split: option.splits if_splits)
qed simp

lemma no_orphans_create:
  assumes ok: "no_orphans d" and ins: "sql_insert_logs ids d = (Inr os, w)"
  shows "no_orphans (snd (sql_create_rings os w))"
proof -
  from ins obtain rows rows' n' where reg: "registry d = Some rows" "registry w = Some rows'"
    and i: "insert_names ids rows (next_ordinal d) = (os, rows', n')" and t: "tables w = tables d"
    by (auto simp: sql_insert_logs_def split: option.splits prod.splits)
  note sub = insert_names_ordinals [OF i]
  show ?thesis
    unfolding no_orphans_def
  proof (intro allI impI)
    fix x assume "tables (snd (sql_create_rings os w)) x \<noteq> None"
    then have "tables d x \<noteq> None \<or> x \<in> set (concat (map ringTables os))"
      using create_tables_dom t by (fastforce simp: sql_create_rings_def)
    then have "\<exists>r \<in> set rows'. x \<in> set (ringTables (ordinal r))"
    proof
      assume "tables d x \<noteq> None"
      then show ?thesis using ok reg(1) sub by (fastforce simp: no_orphans_def)
    next
      assume "x \<in> set (concat (map ringTables os))"
      then show ?thesis using sub by fastforce
    qed
    then show "\<exists>rows. registry (snd (sql_create_rings os w)) = Some rows \<and> (\<exists>r \<in> set rows. x \<in> set (ringTables (ordinal r)))"
      using reg(2) by (auto simp: sql_create_rings_def)
  qed
qed

lemma no_orphans_step:
  assumes "db_step d d'" "db_rel A d" "no_orphans d"
  shows "no_orphans d'"
  using assms
  by (induction rule: db_step.induct)
    (auto simp: sql_fence_def sql_trim_def no_orphans_reclaimed
      intro: no_orphans_update no_orphans_append no_orphans_create no_orphans_same)

lemma no_orphans_reachable:
  assumes "reachable d"
  shows "no_orphans d"
proof -
  from assms obtain d0 where d0: "initial d0" "db_steps d0 d" by (auto simp: reachable_def)
  from d0(2) have "no_orphans d \<and> (\<exists>A. db_rel A d)"
  proof (induction rule: rtranclp_induct)
    case base
    then show ?case using db_rel_initial [OF d0(1)] d0(1) by (auto simp: no_orphans_def initial_def)
  next
    case (step d1 d2)
    then obtain A where "db_rel A d1" "no_orphans d1" by blast
    with step.hyps(2) no_orphans_step db_step_simulates show ?case by meson
  qed
  then show ?thesis by simp
qed

section \<open>Opening and dropping\<close>

lemma Open_untouched:
  assumes "Open env s = (res, s')"
  shows "untouched env s s'"
proof -
  obtain q s1 where q: "pg_call env sql_to_regclass s = (q, s1)" by (cases "pg_call env sql_to_regclass s")
  have "untouched env s s1"
    using q by (cases rule: pg_call_idle [where a = "[if registry (sdb (others env s)) = None then None else Some registryTable]"])
      (simp_all add: sql_to_regclass_def untouched_others)
  moreover have "s' = s1 \<or> s' = s1\<lparr>appends := (\<lambda>_. None)\<rparr>"
    using assms q by (cases "bind_ok q first_row") (auto simp: Open_def migrated_def query_row_def split: if_splits)
  ultimately show ?thesis by auto
qed

lemma Open_answer:
  "outcome_of env (clk s) = Runs \<Longrightarrow>
     fst (Open env s) = (if registry (sdb (others env s)) = None then Inl (Sentinel ErrNotMigrated) else Inr ())"
  "outcome_of env (clk s) \<noteq> Runs \<Longrightarrow> \<exists>err. fst (Open env s) = Inl err \<and> (\<forall>x. err \<noteq> Sentinel x)"
proof -
  show "outcome_of env (clk s) = Runs \<Longrightarrow>
     fst (Open env s) = (if registry (sdb (others env s)) = None then Inl (Sentinel ErrNotMigrated) else Inr ())"
    by (simp add: Open_def migrated_def query_row_def pg_call_def sql_to_regclass_def Let_def)
  show "outcome_of env (clk s) \<noteq> Runs \<Longrightarrow> \<exists>err. fst (Open env s) = Inl err \<and> (\<forall>x. err \<noteq> Sentinel x)"
  proof (cases "outcome_of env (clk s)")
    case (Lost f)
    then show ?thesis
      by (cases f) (simp_all add: Open_def migrated_def query_row_def pg_call_def sql_to_regclass_def Let_def)
  qed (simp_all add: Open_def migrated_def query_row_def pg_call_def sql_to_regclass_def Let_def)
qed

lemma entryTables_quiet:
  assumes "quiet env"
  shows "entryTables env s = (Inr (case registry (sdb s) of None \<Rightarrow> []
    | Some rows \<Rightarrow> concat (map (ringTables \<circ> ordinal) rows)), tick s)"
  using assms
  by (auto simp: entryTables_def pg_call_quiet sql_select_def isUndefinedTable_def sqlStateIs_def split: option.splits)

lemma Drop_quiet:
  assumes "quiet env" "no_orphans (sdb s)"
  shows "fst (Drop env s) = Inr () \<and> registry (sdb (snd (Drop env s))) = None \<and>
    version_table (sdb (snd (Drop env s))) = None \<and> tables (sdb (snd (Drop env s))) = (\<lambda>_. None)"
proof -
  let ?ts = "case registry (sdb s) of None \<Rightarrow> [] | Some rows \<Rightarrow> concat (map (ringTables \<circ> ordinal) rows)"
  have "t \<in> set ?ts" if "tables (sdb s) t \<noteq> None" for t
    using assms(2) that unfolding no_orphans_def by fastforce
  then have "(\<lambda>t. if t \<in> set (?ts @ [registryTable, versionTable]) then None else tables (sdb s) t) = (\<lambda>_. None)"
    by fastforce
  then show ?thesis
    by (simp add: Drop_def entryTables_quiet [OF assms(1)] pg_call_quiet [OF assms(1)] sql_drop_def cong: if_cong)
qed

text \<open>The down migration names the tables \<open>Drop\<close> names.\<close>

lemma down_tables_eq: "down_tables rows = concat (map (ringTables \<circ> ordinal) rows)"
  by (simp add: down_tables_def ringTables_def entriesTable_def entriesPrefix_def comp_def)

lemma migration_down_tables:
  assumes "no_orphans d" "registry d = Some rows"
  shows "migration_down d = (Inr (), d\<lparr>registry := None, tables := (\<lambda>_. None)\<rparr>)"
proof -
  have "tables d t = None" if "t \<notin> set (down_tables rows)" for t
    using assms that unfolding no_orphans_def down_tables_eq by fastforce
  then have "(\<lambda>t. if t \<in> set (down_tables rows) then None else tables d t) = (\<lambda>_. None)" by auto
  then show ?thesis using assms(2) by (simp add: migration_down_def)
qed

section \<open>What the package relies on of goose\<close>

text \<open>
  What goose documents of \<open>Up\<close>, for a provider over one migration, version 1: it makes the version
  table where there is none, with a row for version 0; it applies the migration if the table does not
  record it, and records it in the same transaction; a migration that fails is not recorded, and
  its error is the answer. A store can be made for any name of a version table, and a provider from
  options with a store. All this when nobody else writes and no call fails.
\<close>

definition with_versions :: "db \<Rightarrow> db" where
  "with_versions d = (case version_table d of None \<Rightarrow> d\<lparr>version_table := Some [0]\<rparr> | Some _ \<Rightarrow> d)"

definition records :: "db \<Rightarrow> bool" where
  "records d \<longleftrightarrow> (case version_table d of None \<Rightarrow> False | Some vs \<Rightarrow> 1 \<in> set vs)"

definition up_one :: "unit stmt \<Rightarrow> unit stmt" where
  "up_one migration d =
     (let d0 = with_versions d in
      if records d0 then (Inr (), d0)
      else case migration d0 of
        (Inl c, _) \<Rightarrow> (Inl c, d0)
      | (Inr _, d1) \<Rightarrow> (Inr (), d1\<lparr>version_table := map_option (\<lambda>vs. vs @ [1]) (version_table d1)\<rparr>))"

definition goose_applies :: "'p goose \<Rightarrow> bool" where
  "goose_applies G \<longleftrightarrow>
     (\<forall>name. name \<noteq> [] \<longrightarrow> goose_NewStore G name = Inr ()) \<and>
     (\<forall>opts. WithStore versionTable \<in> set opts \<longrightarrow> (\<exists>p. goose_NewProvider G opts = Inr p \<and>
        (\<forall>env s. quiet env \<longrightarrow>
           (fst (goose_Up G p env s) = Inr () \<longleftrightarrow> fst (up_one migration_up (sdb s)) = Inr ()) \<and>
           sdb (snd (goose_Up G p env s)) = snd (up_one migration_up (sdb s)) \<and>
           appends (snd (goose_Up G p env s)) = appends s)))"

text \<open>A goose that does so.\<close>

definition plain_goose :: "unit goose" where
  "plain_goose =
     \<lparr>goose_NewStore = (\<lambda>name. if name = [] then Inl (DriverError 0) else Inr ()),
      goose_NewProvider = (\<lambda>opts. Inr ()),
      goose_Up = (\<lambda>_ env s. (pg_result (fst (up_one migration_up (sdb s))), s\<lparr>sdb := snd (up_one migration_up (sdb s))\<rparr>))\<rparr>"

lemma pg_result_Inr [simp]: "pg_result r = Inr a \<longleftrightarrow> r = Inr a"
  by (cases r) simp_all

lemma plain_goose_applies: "goose_applies plain_goose"
  by (simp add: goose_applies_def plain_goose_def)

lemma goose_applies_Migrate:
  assumes "goose_applies G" "quiet env"
  shows "fst (Migrate G env s) = Inr () \<longleftrightarrow> fst (up_one migration_up (sdb s)) = Inr ()"
    and "sdb (snd (Migrate G env s)) = snd (up_one migration_up (sdb s))"
    and "appends (snd (Migrate G env s)) = appends s"
proof -
  let ?opts = "[WithStore versionTable, WithDisableGlobalRegistry True, WithNopLogger]"
  from assms(1) obtain p where p: "goose_NewProvider G ?opts = Inr p"
    "\<forall>env s. quiet env \<longrightarrow> (fst (goose_Up G p env s) = Inr () \<longleftrightarrow> fst (up_one migration_up (sdb s)) = Inr ()) \<and>
       sdb (snd (goose_Up G p env s)) = snd (up_one migration_up (sdb s)) \<and> appends (snd (goose_Up G p env s)) = appends s"
    unfolding goose_applies_def by (metis list.set_intros(1))
  have "goose_NewStore G versionTable = Inr ()" using assms(1) by (simp add: goose_applies_def versionTable_def)
  then have "Migrate G env s = goose_Up G p env s" using p(1) by (simp add: Migrate_def Provider_def)
  then show "fst (Migrate G env s) = Inr () \<longleftrightarrow> fst (up_one migration_up (sdb s)) = Inr ()"
    "sdb (snd (Migrate G env s)) = snd (up_one migration_up (sdb s))" "appends (snd (Migrate G env s)) = appends s"
    using p(2) assms(2) by simp_all
qed

text \<open>A schema with no table of this package in it.\<close>

definition empty_schema :: "db \<Rightarrow> bool" where
  "empty_schema d \<longleftrightarrow> registry d = None \<and> version_table d = None \<and> (\<forall>t. tables d t = None)"

text \<open>The migration on a schema without tables, on one that records it, and on a registry nobody recorded.\<close>

lemma up_one_fresh:
  assumes "registry d = None" "version_table d = None"
  shows "up_one migration_up d = (Inr (), d\<lparr>registry := Some [], next_ordinal := 1, version_table := Some [0, 1]\<rparr>)"
  using assms by (simp add: up_one_def with_versions_def records_def migration_up_def)

lemma up_one_recorded: "records d \<Longrightarrow> up_one migration d = (Inr (), d)"
  by (auto simp: up_one_def with_versions_def records_def split: option.splits)

lemma up_one_unrecorded:
  assumes "registry d = Some rows" "\<not> records d"
  shows "up_one migration_up d = (Inl duplicate_table, with_versions d)"
  using assms by (auto simp: up_one_def with_versions_def records_def migration_up_def split: option.splits)

text \<open>No step of a store touches the version table.\<close>

lemma version_sql_update: "version_table (snd (sql_update p f d)) = version_table d"
  by (simp add: sql_update_def split: option.split)

lemma version_append: "version_table (snd (sql_append q lst lid e prev cols d)) = version_table d"
proof -
  let ?u = "sql_update (\<lambda>r. log_id r = lid \<and> epoch r = e \<and> last_seqno r = prev) (\<lambda>r. r\<lparr>last_seqno := lst\<rparr>) d"
  have "version_table (insert_rows c n rs x) = version_table x" for c n rs x by (simp add: insert_rows_def)
  moreover obtain res d' where u: "?u = (res, d')" by (cases ?u)
  moreover have "version_table d' = version_table d" using u version_sql_update by (metis snd_conv)
  ultimately show ?thesis unfolding sql_append_def u by (cases res) (simp_all add: Let_def u)
qed

lemma version_create_tables: "version_table (fold create_table ts d) = version_table d"
  by (induction ts arbitrary: d) (simp_all add: create_table_def split: option.split)

lemma version_step: "db_step d d' \<Longrightarrow> version_table d' = version_table d"
proof (induction rule: db_step.induct)
  case (step_append lid d r ep first ps)
  show ?case by (rule version_append)
next
  case (step_reclaim d lid m)
  show ?case by (simp add: reclaimed_def truncated_def Let_def split: option.split prod.split)
next
  case (step_create names d os w)
  then have "version_table w = version_table d" by (auto simp: sql_insert_logs_def split: option.splits prod.splits)
  then show ?case by (simp add: sql_create_rings_def version_create_tables)
qed (simp_all add: sql_fence_def sql_trim_def version_sql_update)

lemma version_steps: "db_steps d d' \<Longrightarrow> version_table d' = version_table d"
  by (induction rule: rtranclp_induct) (simp_all add: version_step)

lemma Open_quiet:
  assumes "quiet env"
  shows "Open env s = (if registry (sdb s) = None then (Inl (Sentinel ErrNotMigrated), tick s)
    else (Inr (), (tick s)\<lparr>appends := (\<lambda>_. None)\<rparr>))"
  using assms by (simp add: Open_def migrated_def query_row_def pg_call_quiet sql_to_regclass_def)

end
