(* ===== verification/Load_Config.thy ===== *)
theory Load_Config
  imports Go_Float Load_Sizes Load_Rate Schema
begin

text \<open>
  The load generator's configuration and preparation (\<open>cmd/pgnotch-load/main.go\<close>): what is
  derived from the flags, and how the schema and the logs are brought into existence. The
  values the \<open>flag\<close> package read are given; the clock, the environment of the calls and goose are
  arguments.
\<close>

section \<open>The configuration\<close>

record flags =
  f_sizes :: string
  f_dsn :: string
  f_schema :: string
  f_prefix :: string
  f_logs :: int
  f_rps :: float64
  f_batch :: int
  f_retain :: int
  f_epoch :: u64
  f_conns :: int
  f_timeout :: int
  f_report :: int
  f_duration :: int
  f_migrate :: bool

text \<open>What the flags are where the command line does not set them; \<open>dsn\<close> is \<open>$PGNOTCH_DSN\<close>.\<close>

definition flag_defaults :: "string \<Rightarrow> flags" where
  "flag_defaults dsn =
     \<lparr>f_sizes = ''1k:9,32k:1'', f_dsn = dsn, f_schema = ''pgnotch_load'', f_prefix = ''load'', f_logs = 4, f_rps = Fin 100,
      f_batch = 1, f_retain = 100000, f_epoch = 0, f_conns = 0, f_timeout = 10000000000, f_report = 5000000000,
      f_duration = 0, f_migrate = True\<rparr>"

record config =
  cfg_dsn :: string
  cfg_schema :: string
  cfg_prefix :: string
  cfg_logs :: int
  cfg_rps :: float64
  cfg_batch :: int
  cfg_sizes :: sizes
  cfg_retain :: int
  cfg_stride :: int
  cfg_epoch :: u64
  cfg_conns :: int
  cfg_timeout :: int
  cfg_catchup :: int
  cfg_report :: int
  cfg_duration :: int
  cfg_migrate :: bool
  cfg_interval :: int
  cfg_cache :: int

datatype flag_error =
    BadSizes sizes_error
  | NoDatabase
  | NoLogs
  | RateNotPositive
  | EmptyBatch
  | NegativeRetain
  | DeadlineNotPositive
  | TooFast

definition second :: int where
  "second = 1000000000"

text \<open>One writer's share of the rate as an interval; \<open>wild\<close> is what a conversion out of range gives.\<close>

definition rate_interval :: "(float64 \<Rightarrow> u64) \<Rightarrow> int \<Rightarrow> float64 \<Rightarrow> int" where
  "rate_interval wild n rps = float_to_int64 wild (fdiv (fmul (float_of_int second) (float_of_int n)) rps)"

fun map_error :: "('e \<Rightarrow> 'f) \<Rightarrow> 'e + 'a \<Rightarrow> 'f + 'a" where
  "map_error f (Inl e) = Inl (f e)"
| "map_error f (Inr a) = Inr a"

text \<open>The checks, in their order.\<close>

definition checkFlags :: "flags \<Rightarrow> flag_error option" where
  "checkFlags fl =
     (if f_dsn fl = [] then Some NoDatabase
      else if f_logs fl < 1 then Some NoLogs
      else if fle0 (f_rps fl) then Some RateNotPositive
      else if f_batch fl < 1 then Some EmptyBatch
      else if f_retain fl < 0 then Some NegativeRetain
      else if f_timeout fl \<le> 0 \<or> f_report fl \<le> 0 then Some DeadlineNotPositive
      else None)"

text \<open>\<open>parseFlags\<close> after the flags have been read, at the Unix time \<open>unix\<close>.\<close>

definition parseFlags :: "(float64 \<Rightarrow> u64) \<Rightarrow> int \<Rightarrow> flags \<Rightarrow> flag_error + config" where
  "parseFlags wild unix fl =
     bind_ok (map_error BadSizes (parseSizes (f_sizes fl))) (\<lambda>sz.
     case checkFlags fl of
       Some e \<Rightarrow> Inl e
     | None \<Rightarrow>
         let ivl = rate_interval wild (f_logs fl) (f_rps fl) in
         if ivl \<le> 0 then Inl TooFast
         else Inr \<lparr>cfg_dsn = f_dsn fl, cfg_schema = f_schema fl, cfg_prefix = f_prefix fl, cfg_logs = f_logs fl,
                   cfg_rps = f_rps fl, cfg_batch = f_batch fl, cfg_sizes = sz, cfg_retain = f_retain fl,
                   cfg_stride = max 1 (f_retain fl div 8),
                   cfg_epoch = (if f_epoch fl = 0 then uint64 unix else f_epoch fl),
                   cfg_conns = (if f_conns fl = 0 then int64 (uint64 (f_logs fl + 1)) else f_conns fl),
                   cfg_timeout = f_timeout fl, cfg_catchup = min (f_timeout fl) second, cfg_report = f_report fl,
                   cfg_duration = f_duration fl, cfg_migrate = f_migrate fl, cfg_interval = ivl, cfg_cache = 0\<rparr>)"

text \<open>The interval is the exact one to within a nanosecond and a part in \<open>2 ^ 51\<close>.\<close>

lemma rate_interval_near:
  assumes n: "0 < n" "n < 2 ^ 63" and r: "0 < r" and q: "q = of_int second * of_int n / r" "q \<le> 2 ^ 62"
    and some: "0 < rate_interval wild n (Fin r)"
  shows "\<bar>of_int (rate_interval wild n (Fin r)) - q\<bar> \<le> 1 + q / 2 ^ 51"
proof -
  let ?e = "pow2 (- 53)" and ?s = "of_int second :: rat"
  have one: "1 \<le> (of_int n :: rat)" "(of_int n :: rat) \<le> of_int (2 ^ 63)" using n by (simp_all only: of_int_1_le_iff of_int_le_iff)
  obtain f where f: "round64 (of_int n) = of_int n * f" "\<bar>f - 1\<bar> \<le> ?e"
    using one pow2_normal by (elim round64_factor [rotated]) simp
  define z where "z = of_int n * f"
  let ?x = "?s * z"
  have "1 * (3 / 4) \<le> z" "z \<le> of_int (2 ^ 63) * (5 / 4)"
    unfolding z_def using one near_one [OF f(2)] by (intro mult_mono; simp)+
  then have x: "1 \<le> ?x" "?x \<le> 2 ^ 100" by (simp_all add: second_def)
  obtain g where g: "round64 ?x = ?x * g" "\<bar>g - 1\<bar> \<le> ?e"
    using x(1) pow2_normal by (elim round64_factor [rotated]) simp
  have "?x * g \<le> 2 ^ 100 * (5 / 4)" "1 * (3 / 4) \<le> ?x * g" using x near_one [OF g(2)] by (intro mult_mono; simp)+
  then have xg: "\<bar>round64 ?x\<bar> < float_end" using float_end_ge [of 101] unfolding g(1) by simp
  have "float_of_int second = Fin ?s" by (rule float_of_int_small) (simp add: second_def)
  moreover have "float_of_int n = Fin z"
    using round64_u64(4) [of n] n f(1) by (simp add: float_of_int_def to_float_Fin z_def)
  moreover have "?x * g / r = q * (f * g)" by (simp add: q(1) z_def)
  ultimately have conv: "rate_interval wild n (Fin r) = float_to_int64 wild (to_float (q * (f * g)))"
    using xg r g(1) by (simp add: rate_interval_def to_float_Fin)
  have "0 \<le> q" unfolding q(1) using n(1) r by (simp add: second_def)
  then show ?thesis using q(2) near_one_mult [OF f(2) g(2)] some unfolding conv by (rule float_to_int64_near)
qed

text \<open>What every accepted configuration is.\<close>

definition config_ok :: "config \<Rightarrow> bool" where
  "config_ok cfg \<longleftrightarrow>
     1 \<le> cfg_logs cfg \<and> 1 \<le> cfg_batch cfg \<and> 0 \<le> cfg_retain cfg \<and> cfg_stride cfg = max 1 (cfg_retain cfg div 8) \<and>
     0 < cfg_interval cfg \<and> cfg_interval cfg \<le> bigint_max \<and>
     0 < cfg_catchup cfg \<and> cfg_catchup cfg \<le> second \<and> cfg_catchup cfg \<le> cfg_timeout cfg \<and>
     classes (cfg_sizes cfg) \<noteq> []"

lemma parseFlags_ok:
  assumes "parseFlags wild unix fl = Inr cfg"
  shows "config_ok cfg"
proof -
  from assms obtain sz where sz: "parseSizes (f_sizes fl) = Inr sz"
    by (cases "parseSizes (f_sizes fl)") (auto simp: parseFlags_def)
  have "rate_interval wild n r \<le> bigint_max" for n r unfolding rate_interval_def by (rule float_to_int64_range)
  with assms sz parseSizes_nonempty [OF sz] show ?thesis
    by (auto simp: parseFlags_def checkFlags_def config_ok_def Let_def second_def min_def not_le split: if_splits)
qed

text \<open>The defaults are accepted: four writers, forty milliseconds apart, trimming every 12,500 entries.\<close>

lemma defaults_accepted:
  assumes "dsn \<noteq> []"
  shows "\<exists>cfg. parseFlags wild unix (flag_defaults dsn) = Inr cfg \<and> cfg_interval cfg = 40000000 \<and> cfg_stride cfg = 12500 \<and>
    cfg_conns cfg = 5 \<and> cfg_epoch cfg = uint64 unix \<and> map sc_bytes (classes (cfg_sizes cfg)) = [1024, 32768]"
proof -
  have "parseSizes ''1k:9,32k:1'' =
      Inr \<lparr>classes = [\<lparr>sc_bytes = 1024, sc_weight = 9\<rparr>, \<lparr>sc_bytes = 32768, sc_weight = 1\<rparr>], cum = [9, 10], sz_total = 10\<rparr>"
    by code_simp
  moreover have "rate_interval wild 4 (Fin 100) = 40000000" by code_simp
  ultimately show ?thesis using assms by (simp add: parseFlags_def flag_defaults_def checkFlags_def Let_def)
qed

section \<open>The logs of a run\<close>

text \<open>\<open>%04d\<close> of a number that is not negative.\<close>

definition pad4 :: "nat \<Rightarrow> string" where
  "pad4 n = replicate (4 - length (show_nat n)) (CHR ''0'') @ show_nat n"

definition log_ids :: "config \<Rightarrow> LogID list" where
  "log_ids cfg = map (\<lambda>i. cfg_prefix cfg @ ''-'' @ pad4 i) [0..<nat (cfg_logs cfg)]"

text \<open>
  \<open>prepare\<close>. \<open>CREATE SCHEMA IF NOT EXISTS\<close> touches no table of the schema; \<open>Open\<close> gives the store.
\<close>

definition prepare :: "'p goose \<Rightarrow> env \<Rightarrow> config \<Rightarrow> sys \<Rightarrow> (goerr + LogID list) \<times> sys" where
  "prepare G env cfg s =
     then_do (if cfg_schema cfg \<noteq> [] then pg_call env sql_nop s else (Inr (), s)) (\<lambda>_ s1.
     then_do (if cfg_migrate cfg then Migrate G env s1 else (Inr (), s1)) (\<lambda>_ s2.
     then_do (Open env s2) (\<lambda>_ s3.
     then_do (CreateLogs env (log_ids cfg) s3) (\<lambda>_ s4. (Inr (log_ids cfg), s4)))))"

lemma read_nat_zeros: "read_nat (replicate k (CHR ''0'') @ ds) = read_nat ds"
proof -
  have "foldl (\<lambda>a c. 10 * a + digit_value c) 0 (replicate k (CHR ''0'')) = 0"
    by (induction k) (simp_all add: digit_value_def)
  then show ?thesis by (simp add: read_nat_def)
qed

lemma pad4_inject [simp]: "pad4 m = pad4 n \<longleftrightarrow> m = n"
  by (metis pad4_def read_nat_zeros read_show_nat)

text \<open>Every writer has a log of its own.\<close>

lemma log_ids_distinct: "distinct (log_ids cfg)"
  by (simp add: log_ids_def distinct_map inj_on_def)

lemma length_log_ids [simp]: "length (log_ids cfg) = nat (cfg_logs cfg)"
  by (simp add: log_ids_def)

end
