(* ===== verification/Load_Stats.thy ===== *)
theory Load_Stats
  imports Log_Ids Go_Float
begin

unbundle bit_operations_syntax

text \<open>
  The load generator's counters and latency histogram (\<open>cmd/pgnotch-load/stats.go\<close>). The
  counters are 64-bit words that wrap.
\<close>

section \<open>The buckets\<close>

definition subBits :: nat where
  "subBits = 2"

definition subCount :: nat where
  "subCount = 2 ^ subBits"

definition nBuckets :: nat where
  "nBuckets = 64 * subCount"

text \<open>\<open>bits.Len64\<close>: the number of bits that represent the value.\<close>

fun bit_len :: "nat \<Rightarrow> nat" where
  "bit_len n = (if n = 0 then 0 else Suc (bit_len (n div 2)))"

declare bit_len.simps [simp del]

definition Len64 :: "u64 \<Rightarrow> nat" where
  "Len64 w = bit_len (unat w)"

definition bucketOf :: "u64 \<Rightarrow> nat" where
  "bucketOf us =
     (if us < of_nat subCount then unat us
      else
        let octave = Len64 us - 1;
            sub = drop_bit (octave - subBits) us AND (of_nat subCount - 1)
        in (octave - subBits + 1) * subCount + unat sub)"

definition bucketBound :: "nat \<Rightarrow> u64" where
  "bucketBound i =
     (if i < subCount then of_nat i
      else
        let octave = i div subCount + subBits - 1;
            width = push_bit (octave - subBits) 1
        in (of_nat subCount + of_nat (i mod subCount)) * width + width - 1)"

section \<open>The histogram\<close>

definition Microseconds :: "int \<Rightarrow> int" where
  "Microseconds d = (if d < 0 then - ((- d) div 1000) else d div 1000)"

text \<open>The microseconds a duration is filed under.\<close>

definition micros :: "int \<Rightarrow> u64" where
  "micros d = uint64 (max (Microseconds d) 0)"

definition observe :: "int \<Rightarrow> u64 list \<Rightarrow> u64 list" where
  "observe d buckets = (let i = bucketOf (micros d) in buckets[i := buckets ! i + 1])"

definition empty_histogram :: "u64 list" where
  "empty_histogram = replicate nBuckets 0"

text \<open>The second loop of \<open>quantile\<close>, from bucket \<open>i\<close> on: the first bucket that takes the count to the target.\<close>

fun quantile_from :: "u64 \<Rightarrow> nat \<Rightarrow> u64 \<Rightarrow> u64 list \<Rightarrow> nat" where
  "quantile_from target i seen [] = nBuckets - 1"
| "quantile_from target i seen (n # ns) = (if target \<le> seen + n then i else quantile_from target (Suc i) (seen + n) ns)"

text \<open>
  \<open>quantile\<close>: the rank \<open>uint64(q*float64(total-1))\<close>, counted from 0, then the bucket. The product
  with a microsecond is a \<open>Duration\<close>'s, within 64 bits.
\<close>

definition quantile_rank :: "(float64 \<Rightarrow> u64) \<Rightarrow> float64 \<Rightarrow> u64 \<Rightarrow> u64" where
  "quantile_rank wild q n = float_to_uint64 wild (fmul q (float_of_int (uint n)))"

definition quantile :: "(float64 \<Rightarrow> u64) \<Rightarrow> u64 list \<Rightarrow> float64 \<Rightarrow> int" where
  "quantile wild buckets q =
     (let total = sum_list buckets in
      if total = 0 then 0
      else
        let target = quantile_rank wild q (total - 1) + 1 in
        int64 (bucketBound (quantile_from target 0 0 buckets) * 1000))"

section \<open>The counters\<close>

record counters =
  c_appends :: u64
  c_entries :: u64
  c_bytes :: u64
  c_rows :: u64
  c_cut :: u64
  c_acks :: u64
  c_gaps :: u64
  c_trims :: u64
  c_failed :: u64
  c_skipped :: u64
  c_lat :: "u64 list"
  c_last :: "goerr option"

definition no_counters :: counters where
  "no_counters = \<lparr>c_appends = 0, c_entries = 0, c_bytes = 0, c_rows = 0, c_cut = 0, c_acks = 0, c_gaps = 0,
     c_trims = 0, c_failed = 0, c_skipped = 0, c_lat = empty_histogram, c_last = None\<rparr>"

text \<open>The last error, kept as it is where the code keeps its text.\<close>

definition note_err :: "goerr \<Rightarrow> counters \<Rightarrow> counters" where
  "note_err err c = c\<lparr>c_failed := c_failed c + 1, c_last := Some err\<rparr>"

record totals = counters +
  at_time :: int

definition histogram_snapshot :: "u64 list \<Rightarrow> u64 list" where
  "histogram_snapshot buckets = map (\<lambda>i. buckets ! i) [0..<nBuckets]"

definition snapshot :: "int \<Rightarrow> counters \<Rightarrow> totals" where
  "snapshot now c = counters.extend (c\<lparr>c_lat := histogram_snapshot (c_lat c)\<rparr>) \<lparr>at_time = now\<rparr>"

lemma histogram_snapshot_same: "length buckets = nBuckets \<Longrightarrow> histogram_snapshot buckets = buckets"
  by (simp add: histogram_snapshot_def list_eq_iff_nth_eq)

text \<open>The window between two readings, from the earlier \<open>p\<close> to \<open>t\<close>.\<close>

definition sub :: "totals \<Rightarrow> totals \<Rightarrow> totals" where
  "sub t p =
     \<lparr>c_appends = c_appends t - c_appends p, c_entries = c_entries t - c_entries p, c_bytes = c_bytes t - c_bytes p,
      c_rows = c_rows t - c_rows p, c_cut = c_cut t - c_cut p, c_acks = c_acks t - c_acks p,
      c_gaps = c_gaps t - c_gaps p, c_trims = c_trims t - c_trims p, c_failed = c_failed t - c_failed p,
      c_skipped = c_skipped t - c_skipped p, c_lat = map2 (-) (c_lat t) (c_lat p), c_last = c_last t,
      at_time = at_time t\<rparr>"

text \<open>The windows \<open>report\<close> prints, each from the reading before it (\<open>main.go\<close>).\<close>

fun windows :: "totals \<Rightarrow> totals list \<Rightarrow> totals list" where
  "windows previous [] = []"
| "windows previous (current # later) = sub current previous # windows current later"

text \<open>A reader that misses a tick loses resolution and never a count: the windows add up.\<close>

lemma windows_add_up:
  assumes count: "f \<in> {c_appends, c_entries, c_bytes, c_rows, c_cut, c_acks, c_gaps, c_trims, c_failed, c_skipped}"
  shows "f p + sum_list (map f (windows p readings)) = f (last (p # readings))"
proof -
  have window: "f q + f (sub t q) = f t" for t q using count by (auto simp: sub_def)
  show ?thesis
  proof (induction readings arbitrary: p)
    case (Cons t readings)
    have "f p + sum_list (map f (windows p (t # readings))) = f t + sum_list (map f (windows t readings))"
      using window [of p t] by (simp add: add.assoc [symmetric])
    also have "\<dots> = f (last (t # readings))" by (rule Cons.IH)
    finally show ?case by simp
  qed simp
qed

section \<open>Which counts a bucket holds\<close>

text \<open>
  A count of four or more is \<open>m * 2 ^ k\<close> and something below \<open>2 ^ k\<close>, for one \<open>k\<close> and one \<open>m\<close> from 4
  to 7; its bucket is \<open>4 * k + m\<close>.
\<close>

definition in_bucket :: "nat \<Rightarrow> nat \<Rightarrow> nat \<Rightarrow> bool" where
  "in_bucket n k m \<longleftrightarrow> 4 \<le> m \<and> m \<le> 7 \<and> m * 2 ^ k \<le> n \<and> n < (m + 1) * 2 ^ k"

lemma bit_len_bounds: "0 < n \<Longrightarrow> 2 ^ (bit_len n - 1) \<le> n \<and> n < 2 ^ bit_len n \<and> 0 < bit_len n"
proof (induction n rule: bit_len.induct)
  case (1 n)
  show ?case
  proof (cases "n div 2 = 0")
    case True
    then have "n = 1" using "1.prems" by (simp add: div_eq_0_iff)
    moreover have "bit_len 1 = 1" by code_simp
    ultimately show ?thesis by simp
  next
    case False
    with "1.IH" "1.prems" have ih: "2 ^ (bit_len (n div 2) - 1) \<le> n div 2" "n div 2 < 2 ^ bit_len (n div 2)"
      "0 < bit_len (n div 2)" by simp_all
    obtain b where b: "bit_len (n div 2) = Suc b" using ih(3) by (cases "bit_len (n div 2)") simp_all
    have "bit_len n = Suc (Suc b)" using "1.prems" b by (simp add: bit_len.simps [of n])
    moreover have "2 * 2 ^ b \<le> n" "n < 4 * 2 ^ b" using ih(1,2) b by simp_all
    ultimately show ?thesis by simp
  qed
qed

lemma in_bucket_order:
  assumes n: "in_bucket n k m" and v: "in_bucket v k' m'"
  shows "v < (m + 1) * 2 ^ k \<longleftrightarrow> 4 * k' + m' \<le> 4 * k + m"
proof -
  have apart: "x < y" if x: "in_bucket x a b" and y: "in_bucket y a' b'" and lt: "a < a'" for x y a b a' b'
  proof -
    have "(b + 1) * 2 ^ a \<le> 4 * 2 ^ Suc a" using x by (simp add: in_bucket_def)
    also have "\<dots> \<le> 4 * 2 ^ a'" using lt by (intro mult_left_mono power_increasing) simp_all
    also have "\<dots> \<le> b' * 2 ^ a'" using y by (simp add: in_bucket_def)
    finally show ?thesis using x y by (simp add: in_bucket_def)
  qed
  consider (less) "k' < k" | (same) "k' = k" | (more) "k < k'" by linarith
  then show ?thesis
  proof cases
    case less
    from apart [OF v n less] have "v < (m + 1) * 2 ^ k" using n by (simp add: in_bucket_def)
    moreover have "4 * k' + m' \<le> 4 * k + m" using less n v by (simp add: in_bucket_def)
    ultimately show ?thesis by simp
  next
    case same
    show ?thesis
    proof (cases "m' \<le> m")
      case True
      then have "(m' + 1) * 2 ^ k \<le> (m + 1) * (2 ^ k :: nat)" by simp
      then have "v < (m + 1) * 2 ^ k" using same v unfolding in_bucket_def by (blast intro: less_le_trans)
      then show ?thesis using True same by simp
    next
      case False
      then have "(m + 1) * 2 ^ k \<le> m' * (2 ^ k :: nat)" by (intro mult_right_mono) simp_all
      then have "\<not> v < (m + 1) * 2 ^ k" using same v by (simp add: in_bucket_def)
      then show ?thesis using False same by simp
    qed
  next
    case more
    have "(m + 1) * 2 ^ k \<le> 4 * 2 ^ Suc k" using n by (simp add: in_bucket_def)
    also have "\<dots> \<le> 4 * 2 ^ k'" using more by (intro mult_left_mono power_increasing) simp_all
    also have "\<dots> \<le> m' * 2 ^ k'" using v by (simp add: in_bucket_def)
    finally have "\<not> v < (m + 1) * 2 ^ k" using v by (simp add: in_bucket_def)
    moreover have "4 * k + m < 4 * k' + m'" using more n v by (simp add: in_bucket_def)
    ultimately show ?thesis by simp
  qed
qed

lemma bucketOf_small:
  assumes "unat us < 4"
  shows "bucketOf us = unat us"
  using assms by (simp add: bucketOf_def subCount_def subBits_def word_less_nat_alt)

lemma bucketOf_big:
  assumes "4 \<le> unat us"
  obtains k m where "in_bucket (unat us) k m" "bucketOf us = 4 * k + m" "k \<le> 61"
proof -
  define k where "k = bit_len (unat us) - 3"
  let ?n = "unat us"
  let ?m = "?n div 2 ^ k"
  have b: "2 ^ (bit_len ?n - 1) \<le> ?n" "?n < 2 ^ bit_len ?n" using bit_len_bounds [of ?n] assms by simp_all
  have "\<not> bit_len ?n \<le> 2"
  proof
    assume "bit_len ?n \<le> 2"
    then have "2 ^ bit_len ?n \<le> (2 ^ 2 :: nat)" by (intro power_increasing) simp_all
    with b(2) assms show False by simp
  qed
  then have len: "bit_len ?n = k + 3" by (simp add: k_def)
  have "(2::nat) ^ (bit_len ?n - 1) < 2 ^ 64" using b(1) unsigned_less [of us, where 'a = nat] by simp
  then have "bit_len ?n - 1 < 64" by (rule power_less_imp_less_exp [rotated]) simp
  then have k: "k \<le> 61" using len by simp
  have "4 * 2 ^ k \<le> ?n" "?n < 8 * 2 ^ k" using b len by (simp_all add: power_add)
  then have m: "4 \<le> ?m" "?m < 8" by (simp_all add: less_eq_div_iff_mult_less_eq div_less_iff_less_mult)
  have "?m * 2 ^ k \<le> ?n" by simp
  moreover have "?n < (?m + 1) * 2 ^ k"
    using dividend_less_div_times [of "2 ^ k" ?n] by (simp add: algebra_simps)
  ultimately have ib: "in_bucket ?n k ?m" using m by (simp add: in_bucket_def)
  have "unat (drop_bit k us AND 3) = ?m mod 4"
  proof -
    have "drop_bit k us AND 3 = take_bit 2 (drop_bit k us)" by (simp add: take_bit_eq_mask mask_eq_exp_minus_1)
    then have "unat (drop_bit k us AND 3) = take_bit 2 (drop_bit k ?n)"
      by (simp only: unsigned_take_bit_eq unsigned_drop_bit_eq)
        (use k in \<open>simp add: take_bit_drop_bit min_def\<close>)
    then show ?thesis by (simp add: drop_bit_eq_div take_bit_eq_mod)
  qed
  moreover have "?m mod 4 = ?m - 4" using m by (simp add: mod_if)
  moreover have "\<not> us < 4" using assms by (simp add: word_less_nat_alt)
  ultimately have "bucketOf us = 4 * k + ?m"
    using m len by (simp add: bucketOf_def subCount_def subBits_def Len64_def Let_def)
  with ib k show ?thesis by (intro that)
qed

lemma bucketBound_big:
  assumes "4 \<le> m" "m \<le> 7" "k \<le> 61"
  shows "unat (bucketBound (4 * k + m)) = (m + 1) * 2 ^ k - 1"
proof -
  have i: "(4 * k + m) div 4 = k + 1" "(4 * k + m) mod 4 = m - 4" using assms by presburger+
  have "bucketBound (4 * k + m) = (of_nat 4 + of_nat (m - 4)) * 2 ^ k + 2 ^ k - 1"
    using assms i by (simp add: bucketBound_def subCount_def subBits_def Let_def push_bit_eq_mult)
  also have "\<dots> = of_nat ((m + 1) * 2 ^ k) - 1"
    using assms by (simp add: of_nat_diff algebra_simps)
  also have "\<dots> = of_nat ((m + 1) * 2 ^ k - 1)" by (subst of_nat_diff) (simp_all add: Suc_le_eq)
  finally have e: "bucketBound (4 * k + m) = of_nat ((m + 1) * 2 ^ k - 1)" .
  have "(m + 1) * 2 ^ k \<le> 8 * (2 ^ 61 :: nat)" using assms by (intro mult_mono power_increasing) simp_all
  then have "(m + 1) * 2 ^ k - 1 < (2 ^ 64 :: nat)" by (simp add: Suc_le_eq)
  then show ?thesis unfolding e by (simp add: unat_of_nat_u64)
qed

text \<open>Where a count lies against the end of a bucket, by its own bucket.\<close>

lemma bucketOf_le_small:
  assumes "unat us < 4"
  shows "v \<le> us \<longleftrightarrow> bucketOf v \<le> unat us"
proof (cases "unat v < 4")
  case True
  then show ?thesis by (simp add: bucketOf_small word_le_nat_alt)
next
  case False
  then have "4 \<le> unat v" by simp
  then obtain k m where "in_bucket (unat v) k m" "bucketOf v = 4 * k + m" by (rule bucketOf_big)
  then show ?thesis using False assms by (simp add: word_le_nat_alt in_bucket_def)
qed

lemma bucketOf_le_big:
  assumes "in_bucket n k m"
  shows "unat v < (m + 1) * 2 ^ k \<longleftrightarrow> bucketOf v \<le> 4 * k + m"
proof (cases "unat v < 4")
  case True
  have m: "4 \<le> m" using assms by (simp add: in_bucket_def)
  then have "4 * 1 \<le> (m + 1) * (2 ^ k :: nat)" by (intro mult_mono) simp_all
  then show ?thesis using True m by (simp add: bucketOf_small)
next
  case False
  then have "4 \<le> unat v" by simp
  then obtain k' m' where "in_bucket (unat v) k' m'" "bucketOf v = 4 * k' + m'" by (rule bucketOf_big)
  then show ?thesis using in_bucket_order [OF assms] by simp
qed

text \<open>
  A bucket's bound is the largest count in it: the counts up to the bound of a count's bucket
  are the ones in that bucket and below; and it is at most a quarter above the count.
\<close>

lemma bucket_bound:
  "v \<le> bucketBound (bucketOf us) \<longleftrightarrow> bucketOf v \<le> bucketOf us"
  "4 * unat (bucketBound (bucketOf us)) \<le> 5 * unat us"
  "bucketOf us < 252"
proof -
  have "(v \<le> bucketBound (bucketOf us) \<longleftrightarrow> bucketOf v \<le> bucketOf us) \<and>
    4 * unat (bucketBound (bucketOf us)) \<le> 5 * unat us \<and> bucketOf us < 252"
  proof (cases "unat us < 4")
    case True
    then have "bucketOf us = unat us" "bucketBound (unat us) = us"
      by (simp_all add: bucketOf_small bucketBound_def subCount_def subBits_def)
    with bucketOf_le_small [OF True] True show ?thesis by simp
  next
    case False
    then have "4 \<le> unat us" by simp
    then obtain k m where u: "in_bucket (unat us) k m" "bucketOf us = 4 * k + m" "k \<le> 61" by (rule bucketOf_big)
    then have m: "4 \<le> m" "m \<le> 7" "m * 2 ^ k \<le> unat us" by (simp_all add: in_bucket_def)
    note b = bucketBound_big [OF m(1,2) u(3)]
    have pos: "0 < (m + 1) * (2 ^ k :: nat)" by simp
    then have le: "v \<le> bucketBound (4 * k + m) \<longleftrightarrow> unat v < (m + 1) * 2 ^ k"
      unfolding word_le_nat_alt b by linarith
    moreover have "4 * ((m + 1) * 2 ^ k) \<le> 5 * (m * (2 ^ k :: nat))" using m(1) by (simp add: algebra_simps)
    then have "4 * ((m + 1) * 2 ^ k - 1) \<le> 5 * unat us" using m(3) by linarith
    ultimately show ?thesis using bucketOf_le_big [OF u(1)] u(2,3) m(2) b by simp
  qed
  then show "v \<le> bucketBound (bucketOf us) \<longleftrightarrow> bucketOf v \<le> bucketOf us"
    "4 * unat (bucketBound (bucketOf us)) \<le> 5 * unat us" "bucketOf us < 252" by simp_all
qed

lemma bucketOf_mono: "v \<le> us \<Longrightarrow> bucketOf v \<le> bucketOf us"
  using bucket_bound(1) [of v us] bucket_bound(1) [of us us] by (meson order.refl order_trans)

section \<open>What a quantile is\<close>

text \<open>The samples that are in buckets below \<open>j\<close>.\<close>

definition below :: "int list \<Rightarrow> nat \<Rightarrow> nat" where
  "below ds j = length (filter (\<lambda>d. bucketOf (micros d) < j) ds)"

definition observed :: "int list \<Rightarrow> u64 list" where
  "observed ds = fold observe ds empty_histogram"

lemma length_observe [simp]: "length (observe d h) = length h"
  by (simp add: observe_def Let_def)

lemma fold_observe_nth:
  assumes "length h = nBuckets" "i < nBuckets"
  shows "fold observe ds h ! i = h ! i + of_nat (length (filter (\<lambda>d. bucketOf (micros d) = i) ds))"
  using assms
proof (induction ds arbitrary: h)
  case (Cons d ds)
  then show ?case by (cases "bucketOf (micros d) = i") (simp_all add: observe_def Let_def)
qed simp

lemma length_observed [simp]: "length (observed ds) = nBuckets"
proof -
  have "length (fold observe ds h) = length h" for h by (induction ds arbitrary: h) simp_all
  then show ?thesis by (simp add: observed_def empty_histogram_def)
qed

lemma below_Suc: "below ds (Suc j) = below ds j + length (filter (\<lambda>d. bucketOf (micros d) = j) ds)"
  unfolding below_def by (induction ds) auto

lemma below_0 [simp]: "below ds 0 = 0"
  by (simp add: below_def)

lemma below_mono: "i \<le> j \<Longrightarrow> below ds i \<le> below ds j"
  by (rule lift_Suc_mono_le [of "below ds"]) (simp_all add: below_Suc)

lemma below_all: "below ds nBuckets = length ds"
proof -
  have "bucketOf us < nBuckets" for us using bucket_bound(3) [of us] by (simp add: nBuckets_def subCount_def subBits_def)
  then show ?thesis by (simp add: below_def)
qed

lemma observed_nth: "i < nBuckets \<Longrightarrow> observed ds ! i = of_nat (below ds (Suc i) - below ds i)"
  by (simp add: observed_def fold_observe_nth empty_histogram_def below_Suc)

lemma observed_total: "sum_list (observed ds) = of_nat (length ds)"
proof -
  have "sum_list (take j (observed ds)) = of_nat (below ds j)" if "j \<le> nBuckets" for j
    using that
  proof (induction j)
    case (Suc j)
    then have "take (Suc j) (observed ds) = take j (observed ds) @ [observed ds ! j]"
      by (intro take_Suc_conv_app_nth) simp
    with Suc show ?case by (simp add: observed_nth below_Suc)
  qed simp
  from this [of nBuckets] show ?thesis by (simp add: below_all)
qed

text \<open>The loop stops at the bucket that holds the target-th sample.\<close>

lemma quantile_from_bucket:
  assumes "i \<le> nBuckets" "below ds i < t" "t \<le> length ds" "length ds < 2 ^ 64"
    and "r = quantile_from (of_nat t) i (of_nat (below ds i)) (drop i (observed ds))"
  shows "below ds r < t \<and> t \<le> below ds (Suc r)"
  using assms
proof (induction "nBuckets - i" arbitrary: i)
  case 0
  then show ?case by (simp add: below_all)
next
  case (Suc n)
  then have i: "i < nBuckets" by simp
  then have d: "drop i (observed ds) = observed ds ! i # drop (Suc i) (observed ds)"
    by (simp add: Cons_nth_drop_Suc)
  have seen: "of_nat (below ds i) + observed ds ! i = (of_nat (below ds (Suc i)) :: u64)"
    using i by (simp add: observed_nth below_Suc)
  have "below ds (Suc i) \<le> length ds" using i below_mono [of "Suc i" nBuckets ds] by (simp add: below_all)
  then have le: "(of_nat t :: u64) \<le> of_nat (below ds (Suc i)) \<longleftrightarrow> t \<le> below ds (Suc i)"
    using Suc.prems(3,4) by (simp add: word_le_nat_alt unat_of_nat_u64)
  show ?case
  proof (cases "t \<le> below ds (Suc i)")
    case True
    then have "r = i" using Suc.prems(5) d seen le by simp
    with True Suc.prems(2) show ?thesis by simp
  next
    case False
    then have "r = quantile_from (of_nat t) (Suc i) (of_nat (below ds (Suc i))) (drop (Suc i) (observed ds))"
      using Suc.prems(5) d seen le by simp
    with False Suc.hyps(1) [of "Suc i"] Suc.hyps(2) i Suc.prems(3,4) show ?thesis by simp
  qed
qed

lemma sorted_rank:
  assumes "sorted bs" "k < length bs"
  shows "k < length (filter (\<lambda>b. b < (r :: nat)) bs) \<longleftrightarrow> bs ! k < r"
  using assms
proof (induction bs arbitrary: k)
  case (Cons b bs)
  show ?case
  proof (cases "b < r")
    case True
    with Cons show ?thesis by (cases k) simp_all
  next
    case False
    then have "filter (\<lambda>b. b < r) (b # bs) = []" using Cons.prems(1) by (auto simp: filter_empty_conv)
    moreover have "b \<le> (b # bs) ! k" using Cons.prems by (cases k) simp_all
    ultimately show ?thesis using False by simp
  qed
qed simp

lemma quantile_bucket:
  assumes k: "k < length ds" and len: "length ds < 2 ^ 64"
  shows "quantile_from (of_nat (Suc k)) 0 0 (observed ds) = bucketOf (sort (map micros ds) ! k)"
proof -
  define r where "r = quantile_from (of_nat (Suc k)) 0 0 (observed ds)"
  have r: "below ds r < Suc k" "Suc k \<le> below ds (Suc r)"
    using quantile_from_bucket [of 0 ds "Suc k" r] k len by (simp_all add: r_def)
  let ?bs = "map bucketOf (sort (map micros ds))"
  have count: "length (filter (\<lambda>b. b < j) ?bs) = below ds j" for j
  proof -
    have "mset ?bs = mset (map (bucketOf \<circ> micros) ds)" by (simp add: image_mset.compositionality comp_def)
    then have "length (filter (\<lambda>b. b < j) ?bs) = length (filter (\<lambda>b. b < j) (map (bucketOf \<circ> micros) ds))"
      by (metis mset_filter size_mset)
    then show ?thesis by (simp add: below_def filter_map comp_def)
  qed
  have "sorted ?bs" by (simp add: sorted_map sorted_wrt_mono_rel [of _ "(\<le>)"] bucketOf_mono)
  then have "k < below ds j \<longleftrightarrow> bucketOf (sort (map micros ds) ! k) < j" for j
    using sorted_rank [of ?bs k j] k unfolding count by simp
  from this [of r] this [of "Suc r"] r have "r = bucketOf (sort (map micros ds) ! k)" by simp
  then show ?thesis unfolding r_def .
qed

lemma quantile_bounds:
  assumes k: "k < length ds" and len: "length ds < 2 ^ 64" and rank: "quantile_rank wild q (of_nat (length ds) - 1) = of_nat k"
    and short: "\<forall>d \<in> set ds. d < 2 ^ 62"
  shows "1000 * uint (sort (map micros ds) ! k) \<le> quantile wild (observed ds) q"
    "4 * quantile wild (observed ds) q \<le> 5 * (1000 * uint (sort (map micros ds) ! k))"
proof -
  let ?x = "sort (map micros ds) ! k"
  let ?b = "bucketBound (bucketOf ?x)"
  have "?x \<in> set (sort (map micros ds))" using k by (intro nth_mem) simp
  then obtain d where d: "d \<in> set ds" "?x = micros d" by auto
  have "Microseconds d \<le> 2 ^ 62 div 1000" "d < 2 ^ 62"
    using short d(1) by (auto simp: Microseconds_def intro!: zdiv_mono1)
  then have x: "uint ?x \<le> 2 ^ 62 div 1000" by (simp add: d(2) micros_def uint_uint64)
  have xb: "uint ?x \<le> uint ?b" using bucket_bound(1) [of ?x ?x] by (simp add: word_le_def)
  have "int (4 * unat ?b) \<le> int (5 * unat ?x)" using bucket_bound(2) [of ?x] by (simp only: of_nat_le_iff)
  then have bx: "4 * uint ?b \<le> 5 * uint ?x" by simp
  have nz: "of_nat (length ds) \<noteq> (0 :: u64)"
  proof
    assume "of_nat (length ds) = (0 :: u64)"
    with unat_of_nat_u64 [OF len] have "length ds = 0" by (simp only: unat_0)
    with k show False by simp
  qed
  have "quantile wild (observed ds) q = int64 (?b * 1000)"
    using quantile_bucket [OF k len] nz by (simp add: quantile_def observed_total rank Let_def add.commute)
  moreover have "?b * 1000 = word_of_int (uint ?b * 1000)" by simp
  then have "uint (?b * 1000) = uint ?b * 1000" using bx x by (simp only: uint_word_of_int) simp
  ultimately have "quantile wild (observed ds) q = 1000 * uint ?b" using bx x by (simp add: int64_small)
  with xb bx show "1000 * uint ?x \<le> quantile wild (observed ds) q"
    "4 * quantile wild (observed ds) q \<le> 5 * (1000 * uint ?x)" by simp_all
qed

text \<open>The rank, for a \<open>q\<close> from 0 to 1 and as many samples as a \<open>float64\<close> counts exactly.\<close>

lemma quantile_rank_near:
  assumes x: "0 \<le> x" "x \<le> 1" and n: "0 < n" "n \<le> 2 ^ 53"
  obtains k where "k < n" "quantile_rank wild (Fin x) (of_nat n - 1) = of_nat k"
    "\<bar>of_nat k - x * (of_nat n - 1)\<bar> \<le> 3 / 2" "x = 1 \<longrightarrow> k = n - 1"
proof -
  let ?r = "x * of_int (int n - 1)"
  have n': "int n \<le> 2 ^ 53" using zle_int [of n "2 ^ 53"] n(2) by (simp only: of_nat_power of_nat_numeral)
  have r: "0 \<le> ?r" "?r \<le> of_int (int n - 1)" using x n mult_right_mono [of x 1 "of_int (int n - 1)"] by simp_all
  have "of_int (int n - 1) < (of_int (2 ^ 53) :: rat)" unfolding of_int_less_iff using n' by linarith
  then have small: "?r < 2 ^ 53" using r(2) by simp
  have le: "round64 ?r \<le> of_int (int n - 1)" using r n' by (intro round64_le_int) simp_all
  then have below: "round64 ?r < 2 ^ 53" using \<open>of_int (int n - 1) < of_int (2 ^ 53)\<close> by simp
  have nn: "0 \<le> round64 ?r" using r(1) by (rule round64_nonneg)
  let ?k = "\<lfloor>round64 ?r\<rfloor>"
  have k: "0 \<le> ?k" "?k < int n" using nn le by (simp, linarith)
  have "\<bar>int n - 1\<bar> \<le> 2 ^ 53" using n(1) n' by simp
  then have "fmul (Fin x) (float_of_int (int n - 1)) = Fin (round64 ?r)"
    using below nn float_end_ge [of 64] by (simp add: float_of_int_small to_float_Fin)
  moreover have "unat (of_nat n :: u64) = n" using n(2) by (intro unat_of_nat_u64) simp
  then have "uint (of_nat n :: u64) = int n" "of_nat n \<noteq> (0 :: u64)" using n(1) by (simp_all add: uint_nat) (metis less_irrefl unat_0)
  then have "uint (of_nat n - 1 :: u64) = int n - 1" by (simp add: uint_pred)
  ultimately have "quantile_rank wild (Fin x) (of_nat n - 1) = uint64 ?k"
    using nn k n' below by (simp add: quantile_rank_def float_to_uint64_def towards_zero_def)
  moreover have "uint64 ?k = of_nat (nat ?k)" using k by (simp add: uint64_def)
  moreover have "\<bar>of_nat (nat ?k) - ?r\<bar> \<le> 3 / 2"
  proof -
    have "of_int ?k \<le> round64 ?r" "round64 ?r < of_int ?k + 1" by linarith+
    then have "\<bar>of_int ?k - ?r\<bar> \<le> 3 / 2" using round64_error_small [OF r(1) small] by (simp only: abs_le_iff) linarith
    then show ?thesis using k(1) by (simp add: of_nat_nat)
  qed
  moreover have "nat ?k = n - 1" if "x = 1"
    using that round64_of_int [of "int n - 1"] n(1) n' by simp
  moreover have "nat ?k < n" using k by linarith
  ultimately show ?thesis by (intro that [of "nat ?k"]) auto
qed

end
