(* ===== verification/Quiet_Calls.thy ===== *)
theory Quiet_Calls
  imports Guarantee
begin

text \<open>
  What an operation leaves of the logs when nobody else writes and no call fails: the
  contracts, read as equations between the logs before and after.
\<close>

lemma quiet_create:
  assumes "quiet env" "good A s" "CreateLogs env ids s = (Inr (), s')" "ids \<noteq> []"
  shows "good (created ids A) s'"
  using quiet_rely [OF assms(1)] assms(2,3)
  by (cases rule: CreateLogs_cases) (use assms(1,4) in \<open>auto simp: quiet_meanwhile at_moment_def\<close>)

lemma quiet_fence:
  assumes "quiet env" "good A s" "Fence env lid ep s = (Inr (), s')" "A lid = Some l"
  shows "good (A(lid \<mapsto> l\<lparr>a_owner := int64 ep\<rparr>)) s'" "a_owner l \<le> int64 ep" "0 < int64 ep"
proof -
  have "good (A(lid \<mapsto> l\<lparr>a_owner := int64 ep\<rparr>)) s' \<and> a_owner l \<le> int64 ep \<and> 0 < int64 ep"
    using quiet_rely [OF assms(1)] assms(2,3)
    by (cases rule: Fence_cases) (use assms(1,4) in \<open>auto simp: quiet_meanwhile\<close>)
  then show "good (A(lid \<mapsto> l\<lparr>a_owner := int64 ep\<rparr>)) s'" "a_owner l \<le> int64 ep" "0 < int64 ep" by auto
qed

lemma quiet_append:
  assumes "quiet env" "good A s" "batch_fits first ps" "Append env lid ep first ps s = (Inr (), s')" "A lid = Some l"
  shows "good (A(lid \<mapsto> l\<lparr>a_hist := a_hist l @ map (Pair (int64 ep)) ps\<rparr>)) s'"
  using quiet_rely [OF assms(1)] assms(2-4)
  by (cases rule: Append_cases) (use assms(1,5) in \<open>auto simp: quiet_meanwhile wrote_def\<close>)

lemma quiet_trim:
  assumes "quiet env" "good A s" "Trim env lid upTo s = (Inr (), s')" "A lid = Some l" "upTo \<noteq> 0"
  shows "good (A(lid \<mapsto> trim_to upTo l)) s'"
proof -
  have "decodes env" using assms(1) by (simp add: quiet_def)
  from quiet_rely [OF assms(1)] this assms(2,3) show ?thesis
    by (cases rule: Trim_cases) (use assms(1,4,5) in \<open>auto simp: quiet_meanwhile\<close>)
qed

section \<open>A nil payload\<close>

text \<open>
  A batch with a nil payload, where the log would take it: the statement violates the column's
  constraint and nothing is written, though an empty payload is one an entry may have.
\<close>

lemma appendRefused_not_nil: "fst (appendRefused env lid ep first lst s) \<noteq> Inr ()"
  by (auto simp: appendRefused_def split: sum.split prod.split option.split)

lemma nil_payload_refused:
  assumes env: "quiet env" and s: "good A s" "A lid = Some l" and own: "a_owner l = int64 ep"
    and first: "uint first = int (length (a_hist l)) + 1" "batch_fits first (map (case_option [] id) ps)"
    and ok: "checkAppend lid ep first (length ps) = Inr lst" and nil: "None \<in> set ps"
  shows "fst (Append_slices env lid ep first ps s) = Inl (PgError not_null_violation)"
    "sdb (snd (Append_slices env lid ep first ps s)) = sdb s"
proof -
  let ?ps = "map (case_option [] id) ps"
  have res: "fst (Append env lid ep first ?ps s) = Inr ()"
    using Append_quiet [OF env s first(2), of ep lst] ok own first(1) by simp
  obtain known s1 where look: "appendFor env lid s = (known, s1)" by (cases "appendFor env lid s")
  consider (err) e where "known = Inl e" | (none) "known = Inr None" | (some) sql where "known = Inr (Some sql)"
    by (metis option.exhaust sum.exhaust)
  then obtain sql where sql: "known = Inr (Some sql)" by cases (use look res ok in \<open>simp_all add: Append_def\<close>)
  let ?stmt = "sql_append sql (int64 lst) lid (int64 ep) (int64 (first - 1)) (chunkArrays first ?ps)"
  obtain r d where r: "?stmt (sdb s1) = (r, d)" by (cases "?stmt (sdb s1)")
  have "\<exists>n. r = Inr n \<and> n \<noteq> 0"
    using res ok look sql r appendRefused_not_nil
    by (cases r) (auto simp: Append_def pg_call_quiet [OF env] split: if_splits)
  then obtain n where n: "r = Inr n" "n \<noteq> 0" by blast
  have "untouched env s s1"
    using quiet_rely [OF env] s(1) look by (cases rule: appendFor_cases) simp_all
  then have "sdb s1 = sdb s" by (rule quiet_untouched [OF env])
  with ok look sql r n nil show "fst (Append_slices env lid ep first ps s) = Inl (PgError not_null_violation)"
    "sdb (snd (Append_slices env lid ep first ps s)) = sdb s"
    by (simp_all add: Append_slices_def with_null_def pg_call_quiet [OF env] Let_def
        isUndefinedTable_def sqlStateIs_def not_null_violation_def undefined_table_def)
qed

end
