(* ===== verification/Load_Writer.thy ===== *)
theory Load_Writer
  imports Load_Config Load_Stats Quiet_Calls
begin

text \<open>
  The load generator's writer (\<open>cmd/pgnotch-load/writer.go\<close>) and the claims of \<open>drive\<close>
  (\<open>main.go\<close>): one log, written at consecutive seqnos, over the operations of \<open>store.go\<close>. What a
  slot meets, the clock, the random numbers, how long an append took, whether the run's
  context has ended, is given by a \<open>slot\<close>; a call's own deadline is one of the ways a call to
  the database fails.
\<close>

section \<open>The writer\<close>

record writer =
  w_store :: sys
  w_cfg :: "config"
  w_c :: counters
  w_corpus :: bytes
  w_id :: LogID
  w_epoch :: Epoch
  w_next :: Seqno
  w_trimmed :: Seqno

definition locate :: "env \<Rightarrow> writer \<Rightarrow> (goerr + unit) \<times> writer" where
  "locate env w =
     (case NextSeqno env (w_id w) (w_store w) of
        (Inl err, s) \<Rightarrow> (Inl err, w\<lparr>w_store := s\<rparr>)
      | (Inr nxt, s) \<Rightarrow> (Inr (), w\<lparr>w_store := s, w_next := nxt\<rparr>))"

definition claim :: "env \<Rightarrow> writer \<Rightarrow> (goerr + unit) \<times> writer" where
  "claim env w =
     (case Fence env (w_id w) (w_epoch w) (w_store w) of
        (Inl err, s) \<Rightarrow> (Inl err, w\<lparr>w_store := s\<rparr>)
      | (Inr _, s) \<Rightarrow> locate env (w\<lparr>w_store := s\<rparr>))"

definition note_w :: "goerr \<Rightarrow> writer \<Rightarrow> writer" where
  "note_w err w = w\<lparr>w_c := note_err err (w_c w)\<rparr>"

definition resync :: "env \<Rightarrow> writer \<Rightarrow> writer" where
  "resync env w = (case locate env w of (Inl err, w1) \<Rightarrow> note_w err w1 | (Inr _, w1) \<Rightarrow> w1)"

text \<open>What \<open>record\<close> counts of one payload and of a batch.\<close>

definition chunk_count :: "bytes \<Rightarrow> nat" where
  "chunk_count p = max 1 ((length p + MaxEntryChunk - 1) div MaxEntryChunk)"

definition record_batch :: "bytes list \<Rightarrow> counters \<Rightarrow> counters" where
  "record_batch batch c =
     c\<lparr>c_appends := c_appends c + 1,
       c_entries := c_entries c + of_nat (length batch),
       c_bytes := c_bytes c + of_nat (sum_list (map length batch)),
       c_rows := c_rows c + of_nat (sum_list (map chunk_count batch)),
       c_cut := c_cut c + of_nat (length (filter (\<lambda>p. 1 < chunk_count p) batch))\<rparr>"

text \<open>
  \<open>append\<close>: \<open>Inr True\<close> when the batch is done with, \<open>Inr False\<close> when it must go again. \<open>took\<close> is
  the latency and \<open>ended\<close> whether the run's context was over.
\<close>

definition append_batch :: "env \<Rightarrow> int \<Rightarrow> bool \<Rightarrow> bytes list \<Rightarrow> writer \<Rightarrow> (goerr + bool) \<times> writer" where
  "append_batch env took ended batch w =
     (let (r, s) = Append env (w_id w) (w_epoch w) (w_next w) batch (w_store w);
          w1 = w\<lparr>w_store := s, w_c := (w_c w)\<lparr>c_lat := observe took (c_lat (w_c w))\<rparr>\<rparr>
      in case r of
           Inr _ \<Rightarrow> (Inr True, w1\<lparr>w_c := record_batch batch (w_c w1), w_next := w_next w + of_nat (length batch)\<rparr>)
         | Inl err \<Rightarrow>
             if errors_Is err ErrFenced then (Inl err, w1)
             else if errors_Is err ErrAlreadyWritten
             then (Inr False, resync env (w1\<lparr>w_c := (w_c w1)\<lparr>c_acks := c_acks (w_c w1) + 1\<rparr>\<rparr>))
             else if errors_Is err ErrGap
             then (Inr False, resync env (w1\<lparr>w_c := (w_c w1)\<lparr>c_gaps := c_gaps (w_c w1) + 1\<rparr>\<rparr>))
             else if ended then (Inr False, w1)
             else (Inr False, note_w err w1))"

text \<open>\<open>trim\<close>, with the retained length and the stride as \<open>Seqno\<close>s.\<close>

definition trim_behind :: "env \<Rightarrow> writer \<Rightarrow> writer" where
  "trim_behind env w =
     (let retain = uint64 (cfg_retain (w_cfg w)); stride = uint64 (cfg_stride (w_cfg w));
          wrtn = w_next w - 1; upTo = wrtn - retain
      in if cfg_retain (w_cfg w) \<le> 0 then w
         else if wrtn \<le> retain then w
         else if upTo < w_trimmed w + stride then w
         else case Trim env (w_id w) upTo (w_store w) of
           (Inl err, s) \<Rightarrow> note_w err (w\<lparr>w_store := s\<rparr>)
         | (Inr _, s) \<Rightarrow> w\<lparr>w_store := s, w_trimmed := upTo, w_c := (w_c w)\<lparr>c_trims := c_trims (w_c w) + 1\<rparr>\<rparr>)"

section \<open>The run\<close>

text \<open>\<open>fill\<close>: a length, then an offset, for each entry; \<open>None\<close> where a draw panics.\<close>

fun fill :: "sizes \<Rightarrow> bytes \<Rightarrow> (nat \<times> nat) list \<Rightarrow> bytes list option" where
  "fill sz buf [] = Some []"
| "fill sz buf ((x, y) # xs) =
     (case draw sz x of
        None \<Rightarrow> None
      | Some n \<Rightarrow>
          (case payload buf y n of
             None \<Rightarrow> None
           | Some p \<Rightarrow> map_option (Cons p) (fill sz buf xs)))"

text \<open>What one slot meets; \<open>draws n\<close> are the numbers drawn for the entry \<open>n\<close> of the batch.\<close>

record slot =
  sl_now :: int
  sl_cancelled :: bool
  sl_draws :: "nat \<Rightarrow> nat \<times> nat"
  sl_took :: int
  sl_ended :: bool

datatype status = Going | Stopped | Failed goerr | Panicked

record run_state =
  r_pace :: pacer
  r_batch :: "bytes list"
  r_fresh :: bool
  r_w :: "writer"

definition start_run :: "int \<Rightarrow> writer \<Rightarrow> run_state" where
  "start_run start w =
     \<lparr>r_pace = newPacer start (cfg_interval (w_cfg w)) (cfg_catchup (w_cfg w)), r_batch = [], r_fresh = True, r_w = w\<rparr>"

text \<open>What a slot does once its batch is there.\<close>

definition send_batch :: "env \<Rightarrow> slot \<Rightarrow> bytes list \<Rightarrow> run_state \<Rightarrow> status \<times> run_state" where
  "send_batch env sl batch x =
     (case append_batch env (sl_took sl) (sl_ended sl) batch (r_w x) of
        (Inl err, w) \<Rightarrow> (Failed err, x\<lparr>r_batch := batch, r_w := w\<rparr>)
      | (Inr finished, w) \<Rightarrow>
          (Going, x\<lparr>r_batch := batch, r_fresh := finished, r_w := (if finished then trim_behind env w else w)\<rparr>))"

text \<open>The slots given up on are counted before anything else.\<close>

definition skip_slots :: "int \<Rightarrow> writer \<Rightarrow> writer" where
  "skip_slots k w = w\<lparr>w_c := (w_c w)\<lparr>c_skipped := c_skipped (w_c w) + uint64 k\<rparr>\<rparr>"

text \<open>One turn of the loop of \<open>run\<close>.\<close>

definition run_slot :: "env \<Rightarrow> slot \<Rightarrow> run_state \<Rightarrow> status \<times> run_state" where
  "run_slot env sl x =
     (case pacer_wait (sl_now sl) (sl_cancelled sl) (r_pace x) of
        None \<Rightarrow> (Panicked, x)
      | Some (_, skipped, stopped, pace') \<Rightarrow>
          let w = r_w x; x1 = x\<lparr>r_pace := pace', r_w := skip_slots skipped w\<rparr>
          in if stopped then (Stopped, x1)
             else
               (case (if r_fresh x
                      then fill (cfg_sizes (w_cfg w)) (w_corpus w) (map (sl_draws sl) [0..<nat (cfg_batch (w_cfg w))])
                      else Some (r_batch x)) of
                  None \<Rightarrow> (Panicked, x1)
                | Some batch \<Rightarrow> send_batch env sl batch x1))"

fun run_slots :: "env \<Rightarrow> slot list \<Rightarrow> run_state \<Rightarrow> status \<times> run_state" where
  "run_slots env [] x = (Going, x)"
| "run_slots env (sl # sls) x =
     (case run_slot env sl x of
        (Going, x1) \<Rightarrow> run_slots env sls x1
      | (st, x1) \<Rightarrow> (st, x1))"

text \<open>
  The claims of \<open>drive\<close>: a writer for each id, claimed one after the other over the shared
  store, before any of them runs. The first that cannot be claimed ends the run.
\<close>

definition new_writer :: "config \<Rightarrow> bytes \<Rightarrow> LogID \<Rightarrow> sys \<Rightarrow> writer" where
  "new_writer cfg buf lid s =
     \<lparr>w_store = s, w_cfg = cfg, w_c = no_counters, w_corpus = buf, w_id = lid, w_epoch = cfg_epoch cfg,
      w_next = 0, w_trimmed = 0\<rparr>"

fun claim_all :: "env \<Rightarrow> config \<Rightarrow> bytes \<Rightarrow> LogID list \<Rightarrow> sys \<Rightarrow> (goerr + writer list) \<times> sys" where
  "claim_all env cfg buf [] s = (Inr [], s)"
| "claim_all env cfg buf (lid # ids) s =
     (case claim env (new_writer cfg buf lid s) of
        (Inl err, w) \<Rightarrow> (Inl err, w_store w)
      | (Inr _, w) \<Rightarrow>
          then_do (claim_all env cfg buf ids (w_store w)) (\<lambda>ws s'. (Inr (w # ws), s')))"

text \<open>When each writer's schedule starts: a share of the interval apart.\<close>

definition writer_starts :: "int \<Rightarrow> int \<Rightarrow> nat \<Rightarrow> int list" where
  "writer_starts start ivl n = map (\<lambda>i. start + int i * (ivl sdiv int n)) [0..<n]"

lemma writer_starts_within:
  assumes "0 < ivl" "t \<in> set (writer_starts start ivl n)"
  shows "start \<le> t \<and> t < start + ivl"
proof -
  from assms(2) obtain i where i: "i < n" "t = start + int i * (ivl sdiv int n)" by (auto simp: writer_starts_def)
  note q = sdiv_times_le [of ivl "int n"]
  have "int i * (ivl sdiv int n) \<le> ivl sdiv int n * int n - ivl sdiv int n"
    using i(1) q(2) assms(1) mult_right_mono [of "int i" "int n - 1" "ivl sdiv int n"] by (simp add: algebra_simps)
  moreover have "ivl sdiv int n * int n - ivl sdiv int n < ivl"
    using q i(1) assms(1) by (cases "ivl sdiv int n = 0") auto
  ultimately show ?thesis using i q(2) assms(1) by simp
qed

text \<open>What \<open>record\<close> counts are the rows the append sends.\<close>

lemma chunk_count_rowsOf: "chunk_count = rowsOf"
  by (simp add: fun_eq_iff chunk_count_def rowsOf_def)

lemma unnest_rows: "length (unnest e (chunkArrays first ps)) = sum_list (map rowsOf ps)"
  by (simp add: unnest_chunkArrays length_concat_enumerate)

section \<open>What the writer relies on of the store\<close>

text \<open>
  A log as the writer sees it: in a usable environment, after a call, the log holds at least
  as many entries as before, and so does every other log of the store; a successful append
  leaves it ending with the batch, a gap is only answered where the log ends below the batch,
  and the next seqno is the one after the entries held.
\<close>

locale append_log =
  fixes usable :: "'e \<Rightarrow> bool"
    and holds :: "LogID \<Rightarrow> nat \<Rightarrow> 's \<Rightarrow> bool"
    and append_to :: "'e \<Rightarrow> LogID \<Rightarrow> Epoch \<Rightarrow> Seqno \<Rightarrow> bytes list \<Rightarrow> 's \<Rightarrow> (goerr + unit) \<times> 's"
    and next_of :: "'e \<Rightarrow> LogID \<Rightarrow> 's \<Rightarrow> (goerr + Seqno) \<times> 's"
    and trim_at :: "'e \<Rightarrow> LogID \<Rightarrow> Seqno \<Rightarrow> 's \<Rightarrow> (goerr + unit) \<times> 's"
  assumes append_law: "usable e \<Longrightarrow> holds lid n s \<Longrightarrow> batch_fits first ps \<Longrightarrow> append_to e lid ep first ps s = (res, s') \<Longrightarrow>
      \<exists>m \<ge> n. holds lid m s' \<and> (res = Inr () \<longrightarrow> uint first + int (length ps) = int m + 1) \<and>
        (res = Inl (Sentinel ErrGap) \<longrightarrow> int m + 1 < uint first)"
    and next_law: "usable e \<Longrightarrow> holds lid n s \<Longrightarrow> next_of e lid s = (ans, s') \<Longrightarrow>
      \<exists>m \<ge> n. holds lid m s' \<and> (\<forall>q. ans = Inr q \<longrightarrow> uint q = int m + 1)"
    and append_any: "usable e \<Longrightarrow> holds lid' n s \<Longrightarrow> batch_fits first ps \<Longrightarrow> append_to e lid ep first ps s = (res, s') \<Longrightarrow>
      \<exists>m \<ge> n. holds lid' m s'"
    and next_any: "usable e \<Longrightarrow> holds lid' n s \<Longrightarrow> next_of e lid s = (ans, s') \<Longrightarrow> \<exists>m \<ge> n. holds lid' m s'"
    and trim_any: "usable e \<Longrightarrow> holds lid' n s \<Longrightarrow> trim_at e lid upTo s = (res, s') \<Longrightarrow> \<exists>m \<ge> n. holds lid' m s'"
begin

text \<open>Between two states of the store no log has lost entries.\<close>

definition later :: "'s \<Rightarrow> 's \<Rightarrow> bool" where
  "later s s' \<longleftrightarrow> (\<forall>lid n. holds lid n s \<longrightarrow> (\<exists>m \<ge> n. holds lid m s'))"

lemma later_refl [simp]: "later s s"
  by (auto simp: later_def)

lemma later_trans [trans]: "later a b \<Longrightarrow> later b c \<Longrightarrow> later a c"
  unfolding later_def by (meson order_trans)

lemma append_later: "usable e \<Longrightarrow> batch_fits first ps \<Longrightarrow> append_to e lid ep first ps s = (res, s') \<Longrightarrow> later s s'"
  using append_any by (auto simp: later_def)

lemma next_later: "usable e \<Longrightarrow> next_of e lid s = (ans, s') \<Longrightarrow> later s s'"
  using next_any by (auto simp: later_def)

lemma trim_later: "usable e \<Longrightarrow> trim_at e lid upTo s = (res, s') \<Longrightarrow> later s s'"
  using trim_any by (auto simp: later_def)

text \<open>A position is one the log has reached: no later than one past its entries.\<close>

definition reached :: "LogID \<Rightarrow> Seqno \<Rightarrow> 's \<Rightarrow> bool" where
  "reached lid q s \<longleftrightarrow> (\<exists>n. holds lid n s \<and> uint q \<le> int n + 1)"

lemma reached_later: "later s s' \<Longrightarrow> reached lid q s \<Longrightarrow> reached lid q s'"
  unfolding later_def reached_def by (meson add_mono_thms_linordered_semiring(3) of_nat_mono order_trans)

lemma append_no_gap:
  assumes "usable e" "reached lid first s" "batch_fits first ps" "append_to e lid ep first ps s = (res, s')"
  shows "res \<noteq> Inl (Sentinel ErrGap)"
proof -
  from assms(2) obtain n where n: "holds lid n s" "uint first \<le> int n + 1" by (auto simp: reached_def)
  from append_law [OF assms(1) n(1) assms(3,4)] n(2) show ?thesis by auto
qed

lemma append_reached:
  assumes "usable e" "reached lid q s" "batch_fits first ps" "append_to e lid ep first ps s = (res, s')"
  shows "reached lid q s'" "res = Inr () \<Longrightarrow> reached lid (first + of_nat (length ps)) s'"
proof -
  from assms(2) obtain n where n: "holds lid n s" "uint q \<le> int n + 1" by (auto simp: reached_def)
  from append_law [OF assms(1) n(1) assms(3,4)] obtain m where m: "n \<le> m" "holds lid m s'"
    "res = Inr () \<longrightarrow> uint first + int (length ps) = int m + 1" by auto
  then show "reached lid q s'" using n(2) by (auto simp: reached_def)
  have "uint (first + of_nat (length ps)) = uint first + int (length ps)"
    using assms(3) by (intro uint_add_nat) (simp add: batch_fits_def)
  then show "reached lid (first + of_nat (length ps)) s'" if "res = Inr ()"
    using m that by (auto simp: reached_def)
qed

lemma next_reached:
  assumes "usable e" "reached lid q s" "next_of e lid s = (res, s')"
  shows "reached lid q s'" "res = Inr q' \<Longrightarrow> reached lid q' s'"
proof -
  from assms(2) obtain n where n: "holds lid n s" "uint q \<le> int n + 1" by (auto simp: reached_def)
  from next_law [OF assms(1) n(1) assms(3)] obtain m where "n \<le> m" "holds lid m s'"
    "\<forall>q. res = Inr q \<longrightarrow> uint q = int m + 1" by auto
  then show "reached lid q s'" "res = Inr q' \<Longrightarrow> reached lid q' s'" using n(2) by (auto simp: reached_def)
qed

lemma trim_reached: "usable e \<Longrightarrow> reached lid q s \<Longrightarrow> trim_at e lid upTo s = (res, s') \<Longrightarrow> reached lid q s'"
  using trim_later reached_later by blast

end

section \<open>The store provides it\<close>

definition holds_log :: "LogID \<Rightarrow> nat \<Rightarrow> sys \<Rightarrow> bool" where
  "holds_log lid n s \<longleftrightarrow> (\<exists>A l. good A s \<and> A lid = Some l \<and> length (a_hist l) = n)"

definition usable_env :: "env \<Rightarrow> bool" where
  "usable_env env \<longleftrightarrow> rely env \<and> decodes env"

lemma holds_later:
  assumes "meanwhile env A A'" "A lid = Some l" "good A' s'"
  shows "\<exists>m \<ge> length (a_hist l). holds_log lid m s'"
proof -
  from assms(1,2) obtain l' where "A' lid = Some l'" "log_le l l'" by (rule meanwhile_later)
  then have "length (a_hist l) \<le> length (a_hist l')" "holds_log lid (length (a_hist l')) s'"
    using assms(3) by (auto simp: holds_log_def log_le_def)
  then show ?thesis by blast
qed

lemma holds_log_append:
  assumes env: "usable_env env" and n: "holds_log lid n s" and fits: "batch_fits first ps"
    and call: "Append env lid ep first ps s = (res, s')"
  shows "\<exists>m \<ge> n. holds_log lid m s' \<and> (res = Inr () \<longrightarrow> uint first + int (length ps) = int m + 1) \<and>
    (res = Inl (Sentinel ErrGap) \<longrightarrow> int m + 1 < uint first)"
proof -
  from env have rely: "rely env" by (simp add: usable_env_def)
  from n obtain A l where A: "good A s" "A lid = Some l" "length (a_hist l) = n" by (auto simp: holds_log_def)
  from rely A(1) fits call show ?thesis
  proof (cases rule: Append_cases)
    case (malformed err)
    have "err \<noteq> Sentinel ErrGap" using malformed(1) checkLogID_not_sentinel
      by (auto simp: checkAppend_def split: option.splits if_splits)
    with malformed n show ?thesis by auto
  next
    case (unknown A')
    then show ?thesis using holds_later [OF unknown(3) A(2) unknown(4)] A(3) by auto
  next
    case written
    then obtain A1 l1 where w: "meanwhile env A A1" "A1 lid = Some l1" "uint first = int (length (a_hist l1)) + 1"
      "good (A1(lid \<mapsto> l1\<lparr>a_hist := a_hist l1 @ map (Pair (int64 ep)) ps\<rparr>)) s'" by (auto simp: wrote_def)
    from w(1) A(2) obtain l1' where "A1 lid = Some l1'" "log_le l l1'" by (rule meanwhile_later)
    with w(2) A(3) have "n \<le> length (a_hist l1)" by (auto simp: log_le_def)
    moreover have "holds_log lid (length (a_hist l1) + length ps) s'"
      unfolding holds_log_def using w(4) by fastforce
    ultimately show ?thesis using w(3) written(2) by (intro exI [of _ "length (a_hist l1) + length ps"]) auto
  next
    case (refused A1 l1 A2 l2)
    have m: "meanwhile env A A2" using refused(1,4) by (rule meanwhile_trans)
    from m A(2) obtain l2' where "A2 lid = Some l2'" "log_le l l2'" by (rule meanwhile_later)
    with refused(5) A(3) have le: "n \<le> length (a_hist l2)" by (auto simp: log_le_def)
    have "holds_log lid (length (a_hist l2)) s'" using refused(5,6) by (auto simp: holds_log_def)
    moreover have "int (length (a_hist l2)) + 1 < uint first" if "res = Inl (Sentinel ErrGap)"
      using that refused(8) refusal_of_eq [OF refused(6,5,9,10)] by (auto split: if_splits)
    ultimately show ?thesis using le refused(8) by auto
  next
    case (failed A' err)
    then show ?thesis using holds_later [OF failed(3) A(2) failed(4)] A(3) by auto
  qed
qed

lemma holds_log_next:
  assumes env: "usable_env env" and n: "holds_log lid n s" and call: "NextSeqno env lid s = (res, s')"
  shows "\<exists>m \<ge> n. holds_log lid m s' \<and> (\<forall>q. res = Inr q \<longrightarrow> uint q = int m + 1)"
proof -
  from env have e: "rely env" "decodes env" by (simp_all add: usable_env_def)
  from n obtain A l where A: "good A s" "A lid = Some l" "length (a_hist l) = n" by (auto simp: holds_log_def)
  from e A(1) call show ?thesis
  proof (cases rule: NextSeqno_cases)
    case (found A' l')
    from found(1) A(2) obtain l2 where "A' lid = Some l2" "log_le l l2" by (rule meanwhile_later)
    with found(4) A(3) have le: "n \<le> length (a_hist l')" by (auto simp: log_le_def)
    have "int (length (a_hist l')) < bigint_max" using good_log(3) [OF found(2,4)] .
    then have "uint (uint64 (int (length (a_hist l')) + 1)) = int (length (a_hist l')) + 1"
      by (intro uint_uint64) simp_all
    moreover have "holds_log lid (length (a_hist l')) s'" using found(2,4) by (auto simp: holds_log_def)
    ultimately show ?thesis using le found(5) by auto
  next
    case (malformed err)
    then show ?thesis using n by auto
  next
    case (missing A')
    then show ?thesis using holds_later [OF missing(1) A(2) missing(2)] A(3) by auto
  next
    case (failed A' err)
    then show ?thesis using holds_later [OF failed(3) A(2) failed(4)] A(3) by auto
  qed
qed

text \<open>Whatever call a store makes, no log loses entries.\<close>

lemma holds_log_call:
  assumes env: "usable_env env" and n: "holds_log lid n s" and fits: "call_fits c"
  shows "\<exists>m \<ge> n. holds_log lid m (run_call env c s)"
proof -
  from env have e: "rely env" "decodes env" by (simp_all add: usable_env_def)
  from n obtain A l where A: "good A s" "A lid = Some l" "length (a_hist l) = n" by (auto simp: holds_log_def)
  from call_guarantee [OF e A(1) fits] obtain A' where A': "logs_steps A A'" "good A' (run_call env c s)"
    using good_later [OF A(1)] by blast
  from A'(1) A(2) obtain l' where "A' lid = Some l'" "log_le l l'" by (rule logs_steps_later)
  with A'(2) A(3) show ?thesis by (intro exI [of _ "length (a_hist l')"]) (auto simp: holds_log_def log_le_def)
qed

interpretation store: append_log usable_env holds_log Append NextSeqno Trim
proof
  show "\<exists>m \<ge> n. holds_log lid' m s'" if "usable_env e" "holds_log lid' n s" "batch_fits first ps"
    "Append e lid ep first ps s = (res, s')" for e lid' n s first ps lid ep res s'
    using holds_log_call [OF that(1,2), of "Append_call lid ep first ps"] that(3,4) by simp
  show "\<exists>m \<ge> n. holds_log lid' m s'" if "usable_env e" "holds_log lid' n s" "NextSeqno e lid s = (ans, s')"
    for e lid' n s lid ans s' using holds_log_call [OF that(1,2), of "Next_call lid"] that(3) by simp
  show "\<exists>m \<ge> n. holds_log lid' m s'" if "usable_env e" "holds_log lid' n s" "Trim e lid upTo s = (res, s')"
    for e lid' n s lid upTo res s' using holds_log_call [OF that(1,2), of "Trim_call lid upTo"] that(3) by simp
qed (fact holds_log_append holds_log_next)+

section \<open>A writer keeps its position\<close>

definition on_log :: "writer \<Rightarrow> bool" where
  "on_log w \<longleftrightarrow> store.reached (w_id w) (w_next w) (w_store w)"

text \<open>What no operation of a writer changes: which log it is, and that it never counts a gap.\<close>

definition same_writer :: "writer \<Rightarrow> writer \<Rightarrow> bool" where
  "same_writer w w' \<longleftrightarrow>
     w_id w' = w_id w \<and> w_cfg w' = w_cfg w \<and> w_epoch w' = w_epoch w \<and> w_corpus w' = w_corpus w \<and>
     c_gaps (w_c w') = c_gaps (w_c w)"

lemma same_writer_refl [simp]: "same_writer w w"
  by (simp add: same_writer_def)

lemma same_writer_trans [trans]: "same_writer a b \<Longrightarrow> same_writer b c \<Longrightarrow> same_writer a c"
  by (simp add: same_writer_def)

lemma locate_keeps:
  assumes env: "usable_env env" and at: "on_log w" and call: "locate env w = (res, w')"
  shows "on_log w' \<and> same_writer w w'"
proof -
  obtain r s where n: "NextSeqno env (w_id w) (w_store w) = (r, s)" by (cases "NextSeqno env (w_id w) (w_store w)")
  note k = store.next_reached [OF env at [unfolded on_log_def] n]
  show ?thesis
  proof (cases r)
    case (Inl err)
    with call n k(1) show ?thesis by (auto simp: locate_def on_log_def same_writer_def)
  next
    case (Inr q)
    with call n k(2) [OF Inr] show ?thesis by (auto simp: locate_def on_log_def same_writer_def)
  qed
qed

lemma resync_keeps:
  assumes "usable_env env" "on_log w"
  shows "on_log (resync env w) \<and> same_writer w (resync env w)"
proof -
  obtain r w1 where l: "locate env w = (r, w1)" by (cases "locate env w")
  with locate_keeps [OF assms l] show ?thesis
    by (cases r) (auto simp: resync_def note_w_def note_err_def on_log_def same_writer_def)
qed

lemma claim_on_log:
  assumes env: "usable_env env" and s: "good A (w_store w)" and call: "claim env w = (Inr (), w')"
  shows "on_log w' \<and> same_writer w w'"
proof -
  from env have rely: "rely env" by (simp add: usable_env_def)
  from call obtain s1 where f: "Fence env (w_id w) (w_epoch w) (w_store w) = (Inr (), s1)"
    and l: "locate env (w\<lparr>w_store := s1\<rparr>) = (Inr (), w')"
    by (auto simp: claim_def split: prod.splits sum.splits)
  from rely s f obtain A1 l1 where "good A1 s1" "A1 (w_id w) = Some l1" by (rule Fence_success)
  then have "holds_log (w_id w) (length (a_hist l1)) s1" by (auto simp: holds_log_def)
  then have "store.reached (w_id w) 0 s1" by (auto simp: store.reached_def)
  moreover obtain q s2 where n: "NextSeqno env (w_id w) s1 = (Inr q, s2)" "w' = w\<lparr>w_store := s2, w_next := q\<rparr>"
    using l by (auto simp: locate_def split: prod.splits sum.splits)
  ultimately show ?thesis using store.next_reached(2) [OF env _ n(1)] n(2) by (simp add: on_log_def same_writer_def)
qed

lemma claim_counters: "claim env w = (res, w') \<Longrightarrow> w_c w' = w_c w"
  by (auto simp: claim_def locate_def split: prod.splits sum.splits)

lemma append_batch_keeps:
  assumes env: "usable_env env" and at: "on_log w" and fits: "batch_fits (w_next w) batch"
    and call: "append_batch env took ended batch w = (res, w')"
  shows "on_log w' \<and> same_writer w w'"
proof -
  obtain r s where a: "Append env (w_id w) (w_epoch w) (w_next w) batch (w_store w) = (r, s)"
    by (cases "Append env (w_id w) (w_epoch w) (w_next w) batch (w_store w)")
  note at' = at [unfolded on_log_def]
  note no_gap = store.append_no_gap [OF env at' fits a] and k = store.append_reached [OF env at' fits a]
  let ?w1 = "w\<lparr>w_store := s, w_c := (w_c w)\<lparr>c_lat := observe took (c_lat (w_c w))\<rparr>\<rparr>"
  let ?ack = "?w1\<lparr>w_c := (w_c ?w1)\<lparr>c_acks := c_acks (w_c ?w1) + 1\<rparr>\<rparr>"
  show ?thesis
  proof (cases r)
    case (Inr u)
    with call a k(2) show ?thesis
      by (auto simp: append_batch_def on_log_def same_writer_def record_batch_def)
  next
    case (Inl err)
    have "on_log ?ack \<and> same_writer w ?ack" using k(1) by (simp add: on_log_def same_writer_def)
    with resync_keeps [OF env, of ?ack] have "on_log (resync env ?ack) \<and> same_writer w (resync env ?ack)"
      using same_writer_trans by blast
    moreover have "on_log ?w1 \<and> same_writer w ?w1" "on_log (note_w err ?w1) \<and> same_writer w (note_w err ?w1)"
      using k(1) by (simp_all add: on_log_def same_writer_def note_w_def note_err_def)
    moreover have "w' = ?w1 \<or> w' = note_w err ?w1 \<or> w' = resync env ?ack"
      using Inl call a no_gap by (auto simp: append_batch_def Let_def errors_Is_def split: if_splits)
    ultimately show ?thesis by blast
  qed
qed

lemma trim_behind_keeps:
  assumes env: "usable_env env" and at: "on_log w"
  shows "on_log (trim_behind env w) \<and> same_writer w (trim_behind env w)"
proof -
  let ?u = "w_next w - 1 - uint64 (cfg_retain (w_cfg w))"
  obtain r s where t: "Trim env (w_id w) ?u (w_store w) = (r, s)" by (cases "Trim env (w_id w) ?u (w_store w)")
  from store.trim_reached [OF env at [unfolded on_log_def] t] have "store.reached (w_id w) (w_next w) s" .
  with at t show ?thesis
    by (cases r) (auto simp: trim_behind_def Let_def on_log_def same_writer_def note_w_def note_err_def)
qed

text \<open>A run whose batches stay below the largest seqno a \<open>bigint\<close> holds.\<close>

fun slots_fit :: "env \<Rightarrow> slot list \<Rightarrow> run_state \<Rightarrow> bool" where
  "slots_fit env [] x = True"
| "slots_fit env (sl # sls) x =
     (uint (w_next (r_w x)) + max (cfg_batch (w_cfg (r_w x))) (int (length (r_batch x))) \<le> bigint_max \<and>
      (case run_slot env sl x of (Going, x1) \<Rightarrow> slots_fit env sls x1 | _ \<Rightarrow> True))"

lemma fill_length: "fill sz buf xs = Some batch \<Longrightarrow> length batch = length xs"
  by (induction sz buf xs arbitrary: batch rule: fill.induct) (auto split: option.splits)

lemma send_batch_keeps:
  assumes env: "usable_env env" and at: "on_log (r_w x)" and fits: "batch_fits (w_next (r_w x)) batch"
    and run: "send_batch env sl batch x = (st, x')"
  shows "on_log (r_w x') \<and> same_writer (r_w x) (r_w x')"
proof -
  obtain r w where a: "append_batch env (sl_took sl) (sl_ended sl) batch (r_w x) = (r, w)"
    by (cases "append_batch env (sl_took sl) (sl_ended sl) batch (r_w x)")
  note k = append_batch_keeps [OF env at fits a]
  then have "on_log (trim_behind env w) \<and> same_writer (r_w x) (trim_behind env w)"
    using trim_behind_keeps [OF env, of w] same_writer_trans by blast
  with k a run show ?thesis by (cases r) (auto simp: send_batch_def split: if_splits)
qed

lemma skip_slots_simps [simp]:
  "w_store (skip_slots k w) = w_store w" "w_next (skip_slots k w) = w_next w" "w_id (skip_slots k w) = w_id w"
  "w_epoch (skip_slots k w) = w_epoch w" "w_cfg (skip_slots k w) = w_cfg w" "w_corpus (skip_slots k w) = w_corpus w"
  "w_trimmed (skip_slots k w) = w_trimmed w"
  by (simp_all add: skip_slots_def)

lemma skip_slots_keeps: "on_log (skip_slots k w) = on_log w" "same_writer w (skip_slots k w)"
  by (simp_all add: skip_slots_def on_log_def same_writer_def)

lemma run_slot_cases:
  assumes "run_slot env sl x = (st, x')"
  obtains (panicked) "st = Panicked" "x' = x"
  | (stopped) p k where "st = Stopped \<or> st = Panicked" "x' = x\<lparr>r_pace := p, r_w := skip_slots k (r_w x)\<rparr>"
      "interval p = interval (r_pace x)"
  | (sent) p k batch where "send_batch env sl batch (x\<lparr>r_pace := p, r_w := skip_slots k (r_w x)\<rparr>) = (st, x')"
      "if r_fresh x then fill (cfg_sizes (w_cfg (r_w x))) (w_corpus (r_w x))
          (map (sl_draws sl) [0..<nat (cfg_batch (w_cfg (r_w x)))]) = Some batch
       else batch = r_batch x" "interval p = interval (r_pace x)"
proof (cases "pacer_wait (sl_now sl) (sl_cancelled sl) (r_pace x)")
  case None
  then show ?thesis using assms by (intro panicked) (simp_all add: run_slot_def)
next
  case (Some q)
  obtain slept k c p where q: "q = (slept, k, c, p)" by (cases q)
  have p: "interval p = interval (r_pace x)" using Some q by (auto simp: pacer_wait_def split: option.splits)
  let ?f = "if r_fresh x then fill (cfg_sizes (w_cfg (r_w x))) (w_corpus (r_w x))
      (map (sl_draws sl) [0..<nat (cfg_batch (w_cfg (r_w x)))]) else Some (r_batch x)"
  have run: "run_slot env sl x = (if c then (Stopped, x\<lparr>r_pace := p, r_w := skip_slots k (r_w x)\<rparr>)
    else case ?f of None \<Rightarrow> (Panicked, x\<lparr>r_pace := p, r_w := skip_slots k (r_w x)\<rparr>)
      | Some batch \<Rightarrow> send_batch env sl batch (x\<lparr>r_pace := p, r_w := skip_slots k (r_w x)\<rparr>))"
    by (simp only: run_slot_def Some q option.case prod.case Let_def)
  show ?thesis
  proof (cases "c \<or> ?f = None")
    case True
    then show ?thesis using run assms p by (intro stopped [where p = p and k = k]) (auto split: if_splits)
  next
    case False
    then obtain batch where "?f = Some batch" "\<not> c" by auto
    then show ?thesis using run assms p by (intro sent [where batch = batch and p = p and k = k]) (auto split: if_splits)
  qed
qed

lemma run_slot_keeps:
  assumes env: "usable_env env" and at: "on_log (r_w x)" and run: "run_slot env sl x = (st, x')"
    and fits: "uint (w_next (r_w x)) + max (cfg_batch (w_cfg (r_w x))) (int (length (r_batch x))) \<le> bigint_max"
  shows "on_log (r_w x') \<and> same_writer (r_w x) (r_w x')"
  using run
proof (cases rule: run_slot_cases)
  case (sent p k batch)
  have "length batch = nat (cfg_batch (w_cfg (r_w x))) \<or> length batch = length (r_batch x)"
    using sent(2) by (auto dest: fill_length split: if_splits)
  then have "batch_fits (w_next (r_w x)) batch" using fits by (auto simp: batch_fits_def)
  then have "on_log (r_w x')" "same_writer (skip_slots k (r_w x)) (r_w x')"
    using send_batch_keeps [OF env _ _ sent(1)] at by (simp_all add: skip_slots_keeps(1))
  then show ?thesis using same_writer_trans [OF skip_slots_keeps(2)] by blast
qed (use at in \<open>simp_all add: skip_slots_keeps\<close>)

lemma run_slots_keeps:
  assumes "usable_env env" "on_log (r_w x)" "slots_fit env sls x" "run_slots env sls x = (st, x')"
  shows "on_log (r_w x') \<and> same_writer (r_w x) (r_w x')"
  using assms
proof (induction sls arbitrary: x)
  case Nil
  then show ?case by simp
next
  case (Cons sl sls)
  obtain st1 x1 where r: "run_slot env sl x = (st1, x1)" by (cases "run_slot env sl x")
  have k: "on_log (r_w x1) \<and> same_writer (r_w x) (r_w x1)"
    using run_slot_keeps [OF Cons.prems(1,2) r] Cons.prems(3) by simp
  show ?case
  proof (cases "st1 = Going")
    case True
    with Cons.IH [of x1] Cons.prems k r show ?thesis by (auto intro: same_writer_trans)
  next
    case False
    with Cons.prems(4) r k show ?thesis by (cases st1) auto
  qed
qed

end
