(* ===== verification/Load_Report.thy ===== *)
theory Load_Report
  imports Load_Writer
begin

text \<open>
  What the load generator prints: a report line and its numbers (\<open>line\<close>, \<open>humanBytes\<close>,
  \<open>shortDuration\<close> of \<open>cmd/pgnotch-load/stats.go\<close>), a distribution (\<open>String\<close> of \<open>sizes.go\<close>) and the plan of a
  run (\<open>plan\<close> of \<open>main.go\<close>). The text of an error is an argument.
\<close>

section \<open>Verbs\<close>

text \<open>\<open>%8d\<close>, \<open>%6s\<close>: spaces up to a width counted in runes. The text printed is valid UTF-8, where a rune is a byte that does not continue one.\<close>

definition rune_count :: "string \<Rightarrow> nat" where
  "rune_count s = length (filter (\<lambda>c. \<not> (128 \<le> (of_char c :: nat) \<and> (of_char c :: nat) < 192)) s)"

definition pad_left :: "nat \<Rightarrow> string \<Rightarrow> string" where
  "pad_left w s = replicate (w - rune_count s) (CHR '' '') @ s"

definition show_u64 :: "u64 \<Rightarrow> string" where
  "show_u64 w = show_nat (unat w)"

section \<open>Bytes and durations\<close>

definition float_of_u64 :: "u64 \<Rightarrow> float64" where
  "float_of_u64 w = float_of_int (uint w)"

definition humanBytes :: "u64 \<Rightarrow> string" where
  "humanBytes n =
     (if 2 ^ 30 \<le> n then show_f1 (fdiv (float_of_u64 n) (Fin (2 ^ 30))) @ '' GiB''
      else if 2 ^ 20 \<le> n then show_f1 (fdiv (float_of_u64 n) (Fin (2 ^ 20))) @ '' MiB''
      else if 2 ^ 10 \<le> n then show_f1 (fdiv (float_of_u64 n) (Fin (2 ^ 10))) @ '' KiB''
      else show_u64 n @ '' B'')"

text \<open>\<open>Duration.Seconds\<close>, \<open>Duration.Truncate(time.Second)\<close>, and \<open>Duration.String\<close> of whole seconds.\<close>

definition Seconds :: "int \<Rightarrow> float64" where
  "Seconds d = fadd (float_of_int (d sdiv second)) (fdiv (float_of_int (d smod second)) (float_of_int second))"

definition TruncateSecond :: "int \<Rightarrow> int" where
  "TruncateSecond d = d - d smod second"

definition show_seconds :: "int \<Rightarrow> string" where
  "show_seconds d =
     (let u = nat \<bar>d sdiv second\<bar>; m = u div 60; h = m div 60
      in (if d < 0 then ''-'' else []) @
         (if 0 < h then show_nat h @ ''h'' else []) @ (if 0 < m then show_nat (m mod 60) @ ''m'' else []) @
         show_nat (u mod 60) @ ''s'')"

definition micro :: string where
  "micro = [CHR 0xC2, CHR 0xB5]"

definition shortDuration :: "int \<Rightarrow> string" where
  "shortDuration d =
     (if second \<le> d then show_f1 (Seconds d) @ ''s''
      else if 1000000 \<le> d then show_f1 (fdiv (float_of_int d) (float_of_int 1000000)) @ ''ms''
      else show_int (Microseconds d) @ micro @ ''s'')"

section \<open>A report line\<close>

definition last_text :: "(goerr \<Rightarrow> string) \<Rightarrow> totals \<Rightarrow> string" where
  "last_text error_text t = (case c_last t of None \<Rightarrow> [] | Some err \<Rightarrow> error_text err)"

definition line :: "(float64 \<Rightarrow> u64) \<Rightarrow> (goerr \<Rightarrow> string) \<Rightarrow> totals \<Rightarrow> int \<Rightarrow> int \<Rightarrow> string" where
  "line wild error_text t elapsed window =
     (let secs = Seconds window; shown = (\<lambda>q. pad_left 6 (shortDuration (quantile wild (c_lat t) q))) in
      ''['' @ pad_left 6 (show_seconds (TruncateSecond elapsed)) @ ''] '' @ pad_left 8 (show_u64 (c_appends t)) @
      '' appends '' @ pad_left 8 (show_f1 (fdiv (float_of_u64 (c_appends t)) secs)) @ ''/s | '' @
      pad_left 8 (show_u64 (c_entries t)) @ '' entries | '' @ pad_left 9 (humanBytes (c_bytes t)) @ '' '' @
      pad_left 9 (humanBytes (float_to_uint64 wild (fdiv (float_of_u64 (c_bytes t)) secs))) @ ''/s | '' @
      pad_left 8 (show_u64 (c_rows t)) @ '' rows '' @ pad_left 6 (show_u64 (c_cut t)) @ '' cut'' @
      '' | p50 '' @ shown (Fin (1 / 2)) @ '' p99 '' @ shown (Fin (round64 (99 / 100))) @ '' max '' @ shown (Fin 1) @
      (if c_acks t + c_gaps t + c_failed t + c_skipped t + c_trims t \<noteq> 0
       then '' | trims '' @ show_u64 (c_trims t) @ '' acks '' @ show_u64 (c_acks t) @ '' gaps '' @ show_u64 (c_gaps t) @
            '' errors '' @ show_u64 (c_failed t) @ '' skipped '' @ show_u64 (c_skipped t)
       else []) @
      (if 0 < c_failed t \<and> last_text error_text t \<noteq> []
       then [CHR 0x0A] @ ''          last error: '' @ last_text error_text t
       else []))"

text \<open>
  The lines \<open>report\<close> prints, one for each tick: the reading taken and how long the run has lasted when the line
  is written. Each covers the window since the reading before it.
\<close>

fun report_lines :: "(float64 \<Rightarrow> u64) \<Rightarrow> (goerr \<Rightarrow> string) \<Rightarrow> totals \<Rightarrow> (totals \<times> int) list \<Rightarrow> string list" where
  "report_lines wild error_text previous [] = []"
| "report_lines wild error_text previous ((current, elapsed) # ticks) =
     line wild error_text (sub current previous) elapsed (time_sub (at_time current) (at_time previous)) #
     report_lines wild error_text current ticks"

text \<open>What is printed when the run is over: a rule, and a line for all of it.\<close>

definition rule :: string where
  "rule = concat (replicate 60 [CHR 0xE2, CHR 0x94, CHR 0x80])"

definition total_lines :: "(float64 \<Rightarrow> u64) \<Rightarrow> (goerr \<Rightarrow> string) \<Rightarrow> totals \<Rightarrow> int \<Rightarrow> int \<Rightarrow> string list" where
  "total_lines wild error_text t elapsed window = [rule, line wild error_text t elapsed window]"

section \<open>The plan of a run\<close>

definition times_sign :: string where
  "times_sign = [CHR 0xC3, CHR 0x97]"

fun join :: "string \<Rightarrow> string list \<Rightarrow> string" where
  "join sep [] = []"
| "join sep [x] = x"
| "join sep (x # xs) = x @ sep @ join sep xs"

definition sizes_String :: "sizes \<Rightarrow> string" where
  "sizes_String s =
     join '' '' (map (\<lambda>c. humanBytes (uint64 (sc_bytes c)) @ times_sign @ show_int (sc_weight c)) (classes s))"

definition nl :: string where
  "nl = [CHR 0x0A]"

text \<open>The warning a configuration earns: the statement cache is off, or holds fewer statements than there are logs.\<close>

definition plan_warning :: "nat \<Rightarrow> config \<Rightarrow> string" where
  "plan_warning n cfg =
     (if cfg_cache cfg \<le> 0 then ''warning: the DSN turns the statement cache off, so every append re-prepares'' @ nl
      else if cfg_cache cfg < int n
      then ''warning: '' @ show_nat n @ '' logs is over the DSN's '' @ show_int (cfg_cache cfg) @
           '' prepared statements, so appends will re-prepare'' @ nl
      else [])"

definition TrimRight :: "char \<Rightarrow> string \<Rightarrow> string" where
  "TrimRight c s = rev (dropWhile (\<lambda>x. x = c) (rev s))"

definition plan :: "(float64 \<Rightarrow> u64) \<Rightarrow> config \<Rightarrow> writer list \<Rightarrow> string" where
  "plan wild cfg ws =
     (let n = length ws; rows = fmul (cfg_rps cfg) (float_of_int (cfg_batch cfg)) in
      TrimRight (CHR 0x0A)
       (show_nat n @ '' logs at epoch '' @ show_u64 (cfg_epoch cfg) @ '', '' @ show_g (cfg_rps cfg) @ '' appends/s '' @
        times_sign @ '' '' @ show_int (cfg_batch cfg) @ '' entries = '' @ show_g rows @ '' entries/s, ~'' @
        humanBytes (float_to_uint64 wild (fmul rows (mean (cfg_sizes cfg)))) @ ''/s'' @ nl @
        ''sizes '' @ sizes_String (cfg_sizes cfg) @ '', mean '' @
        humanBytes (float_to_uint64 wild (mean (cfg_sizes cfg))) @ '', '' @
        show_f0 (fmul (Fin 100) (chunked (cfg_sizes cfg))) @ ''% over the '' @ show_nat MaxEntryChunk @ ''-byte chunk'' @ nl @
        (if 0 < cfg_retain cfg
         then ''each log keeps '' @ show_int (cfg_retain cfg) @ '' entries, trimmed every '' @ show_int (cfg_stride cfg) @ nl
         else ''nothing is trimmed: -retain 0, so the tables grow for as long as this runs'' @ nl) @
        concat (map (\<lambda>w. w_id w @ '' continues at seqno '' @ show_u64 (w_next w) @ nl)
          (filter (\<lambda>w. FirstSeqno < w_next w) ws)) @
        plan_warning n cfg))"

section \<open>How near a printed number is\<close>

text \<open>The quotient of a byte count's value and a power of two is exact, and near the quotient of the numbers.\<close>

lemma u64_over_pow:
  assumes n: "2 ^ k \<le> uint n" "k \<le> 30" and fits: "k = 30 \<or> uint n < 2 ^ (k + 10)"
  obtains x where "fdiv (float_of_u64 n) (Fin (2 ^ k)) = Fin x" "1 \<le> x" "k = 30 \<or> x \<le> 1024"
    "\<bar>x - of_int (uint n) / 2 ^ k\<bar> \<le> 1 / 10000"
proof -
  let ?n = "of_int (uint n) :: rat" and ?m = "round64 (of_int (uint n))" and ?p = "2 ^ k :: rat"
  have "(1 :: int) \<le> 2 ^ k" by simp
  then have pos: "0 < uint n" "uint n < 2 ^ 64" using n(1) uint_lt2p [of n] by (linarith, simp)
  note m = round64_u64 [OF pos]
  have p: "1 \<le> ?p" "?p \<le> 2 ^ 30" "pow2 (int k) = ?p"
    using power_increasing [OF n(2), of "2 :: rat"] by (simp_all add: pow2_def)
  have "of_int (2 ^ k) \<le> ?n" using n(1) by (simp only: of_int_le_iff)
  then have ge: "?p \<le> ?m" using m(2,3) p(2) by (cases "uint n \<le> 2 ^ 53") simp_all
  then have one: "1 \<le> ?m / ?p" using p(1) by simp
  have "1 \<le> ?n" using pos(1) by (simp only: of_int_1_le_iff)
  then have exact: "round64 (?m / ?p) = ?m / ?p" using round64_scaled [of ?n "int k"] p(3) n(2) by simp
  have "?m / ?p \<le> ?m" using ge p(1) by (simp add: divide_le_eq mult_le_cancel_left1)
  then have "\<bar>round64 (?m / ?p)\<bar> < float_end" using m(4) one unfolding exact by linarith
  then have "fdiv (float_of_u64 n) (Fin ?p) = Fin (?m / ?p)"
    using m(4) p(1) exact by (simp add: float_of_u64_def float_of_int_def to_float_Fin)
  moreover have "k = 30 \<or> ?m / ?p \<le> 1024 \<and> ?m = ?n"
  proof (cases "k = 30")
    case False
    then have "uint n < 2 ^ (k + 10)" using fits by simp
    moreover have "(2 :: int) ^ (k + 10) \<le> 2 ^ 53" using n(2) by (intro power_increasing) simp_all
    ultimately have "?m = ?n" "?n \<le> of_int (2 ^ (k + 10))" using m(2) by (simp, simp only: of_int_le_iff)
    then show ?thesis by (simp add: divide_le_eq power_add)
  qed simp
  moreover have "\<bar>?m / ?p - ?n / ?p\<bar> \<le> 1 / 10000" if "k = 30"
    using m(1) that by (simp add: diff_divide_distrib [symmetric] abs_divide divide_le_eq)
  ultimately show ?thesis using one by (intro that [of "?m / ?p"]) auto
qed

lemma show_scaled:
  assumes "2 ^ k \<le> uint n" "k \<le> 30" "k = 30 \<or> uint n < 2 ^ (k + 10)"
  obtains t where "show_f1 (fdiv (float_of_u64 n) (Fin (2 ^ k))) = show_tenths t" "10 \<le> t" "k = 30 \<or> t \<le> 10240"
    "\<bar>rat_of_nat t / 10 - rat_of_int (uint n) / 2 ^ k\<bar> \<le> 501 / 10000"
proof -
  from assms obtain x where x: "fdiv (float_of_u64 n) (Fin (2 ^ k)) = Fin x" "1 \<le> x" "k = 30 \<or> x \<le> 1024"
    "\<bar>x - of_int (uint n) / 2 ^ k\<bar> \<le> 1 / 10000" by (rule u64_over_pow)
  let ?t = "half_even (x * 10)"
  have lo: "10 \<le> ?t" using x(2) by (intro half_even_ge) simp
  have "k = 30 \<or> ?t \<le> 10240" using x(3) half_even_le [of "x * 10" 10240] by auto
  moreover have "\<bar>of_int ?t / 10 - x\<bar> \<le> 1 / 20" using half_even_error [of "x * 10"] by linarith
  then have "\<bar>rat_of_int ?t / 10 - rat_of_int (uint n) / 2 ^ k\<bar> \<le> 501 / 10000" using x(4) by linarith
  ultimately show ?thesis
    using x(1,2) lo by (intro that [of "nat ?t"]) (auto simp: show_f1_def)
qed

lemma humanBytes_near:
  "uint n < 1024 \<and> humanBytes n = show_nat (unat n) @ '' B'' \<or>
   (\<exists>t k u. (k, u) \<in> {(10, '' KiB''), (20, '' MiB''), (30, '' GiB'')} \<and> humanBytes n = show_tenths t @ u \<and>
      10 \<le> t \<and> (k = 30 \<or> t \<le> 10240) \<and> \<bar>rat_of_nat t / 10 - rat_of_int (uint n) / 2 ^ k\<bar> \<le> 501 / 10000)"
proof -
  have le: "2 ^ 10 \<le> n \<longleftrightarrow> 2 ^ 10 \<le> uint n" "2 ^ 20 \<le> n \<longleftrightarrow> 2 ^ 20 \<le> uint n" "2 ^ 30 \<le> n \<longleftrightarrow> 2 ^ 30 \<le> uint n"
    by (simp_all add: word_le_def)
  have near: ?thesis if u: "humanBytes n = show_f1 (fdiv (float_of_u64 n) (Fin (2 ^ k))) @ u"
      "(k, u) \<in> {(10, '' KiB''), (20, '' MiB''), (30, '' GiB'')}" and n: "2 ^ k \<le> uint n" "k = 30 \<or> uint n < 2 ^ (k + 10)"
    for k :: nat and u
  proof -
    have "k \<le> 30" using u(2) by auto
    from n(1) this n(2) obtain t where "show_f1 (fdiv (float_of_u64 n) (Fin (2 ^ k))) = show_tenths t" "10 \<le> t" "k = 30 \<or> t \<le> 10240"
      "\<bar>rat_of_nat t / 10 - rat_of_int (uint n) / 2 ^ k\<bar> \<le> 501 / 10000" by (rule show_scaled)
    with u show ?thesis by (intro disjI2 exI [of _ t] exI [of _ k] exI [of _ u]) simp
  qed
  consider (B) "uint n < 2 ^ 10" | (K) "2 ^ 10 \<le> uint n" "uint n < 2 ^ 20"
    | (M) "2 ^ 20 \<le> uint n" "uint n < 2 ^ 30" | (G) "2 ^ 30 \<le> uint n"
    by (cases "uint n < 2 ^ 10"; cases "uint n < 2 ^ 20"; cases "uint n < 2 ^ 30") simp_all
  then show ?thesis
  proof cases
    case B
    then show ?thesis using le by (simp add: humanBytes_def show_u64_def)
  next
    case K
    then show ?thesis using le by (intro near [of 10 "'' KiB''"]) (simp_all add: humanBytes_def)
  next
    case M
    then show ?thesis using le by (intro near [of 20 "'' MiB''"]) (simp_all add: humanBytes_def)
  next
    case G
    then show ?thesis using le by (intro near [of 30 "'' GiB''"]) (simp_all add: humanBytes_def)
  qed
qed

section \<open>What the lines cover\<close>

text \<open>The lines of a report are those of the windows between its readings.\<close>

lemma report_lines_windows:
  "report_lines wild error_text p ticks =
     map (\<lambda>(w, (t, elapsed), q). line wild error_text w elapsed (time_sub (at_time t) (at_time q)))
       (zip (windows p (map fst ticks)) (zip ticks (p # map fst ticks)))"
  by (induction ticks arbitrary: p) auto

text \<open>A rune is one place of a column, in every text that is printed.\<close>

lemma rune_count_append [simp]: "rune_count (s @ t) = rune_count s + rune_count t"
  by (simp add: rune_count_def)

lemma rune_count_pad: "rune_count (pad_left w s) = max w (rune_count s)"
proof -
  have "rune_count (replicate k (CHR '' '')) = k" for k by (simp add: rune_count_def)
  then show ?thesis by (simp add: pad_left_def)
qed

end
