(* ===== verification/Load_Run.thy ===== *)
theory Load_Run
  imports Load_Writer
begin

text \<open>
  A run of the load generator when nobody else writes to its log and no call fails: every slot
  writes its batch, the log is what was there and the batches in order, and what it keeps is
  bounded. Also what \<open>fill\<close> draws, and what \<open>prepare\<close> leaves for the run.
\<close>

section \<open>Drawing a batch\<close>

lemma fill_total:
  assumes ok: "sizes_ok sz" "classes sz \<noteq> []" and buf: "int (length buf) = corpus_size (largest sz)"
  shows "\<exists>batch. fill sz buf xs = Some batch \<and>
    (\<forall>p \<in> set batch. \<exists>c \<in> set (classes sz). int (length p) = sc_bytes c)"
proof (induction xs)
  case (Cons a xs)
  obtain x y where a: "a = (x, y)" by (cases a)
  from ok obtain c where c: "c \<in> set (classes sz)" "draw sz x = Some (sc_bytes c)" by (rule draw_class)
  have "0 \<le> sc_bytes c" using ok(1) c(1) by (auto simp: sizes_ok_def list_all_iff)
  with buf c(1) obtain p where "payload buf y (sc_bytes c) = Some p" "int (length p) = sc_bytes c"
    by (rule payload_class)
  with Cons a c show ?case by auto
qed simp

lemma fill_readable:
  assumes "sizes_ok sz" "\<forall>p \<in> set batch. \<exists>c \<in> set (classes sz). int (length p) = sc_bytes c" "p \<in> set batch"
  shows "readable p"
proof -
  from assms(2,3) obtain c where "c \<in> set (classes sz)" "int (length p) = sc_bytes c" by blast
  with assms(1) have "int (length p) \<le> maxPayload" by (auto simp: sizes_ok_def list_all_iff)
  then show ?thesis by (simp add: maxPayload_def readable_iff)
qed

section \<open>A writer that is caught up\<close>

text \<open>The log \<open>l\<close> is the writer's, it stands right past its end, and it knows no more trimmed than is.\<close>

definition caught_up :: "logs \<Rightarrow> alog \<Rightarrow> writer \<Rightarrow> bool" where
  "caught_up A l w \<longleftrightarrow>
     good A (w_store w) \<and> A (w_id w) = Some l \<and> a_owner l = int64 (w_epoch w) \<and> w_epoch w \<noteq> 0 \<and>
     checkLogID (w_id w) = None \<and> uint (w_next w) = int (length (a_hist l)) + 1 \<and> uint (w_trimmed w) \<le> int (a_trim l)"

lemma caught_up_skip [simp]: "caught_up A l (skip_slots k w) = caught_up A l w"
  by (simp add: caught_up_def)

lemma claim_quiet:
  assumes env: "quiet env" and s: "good A s" "A lid = Some l" and id: "checkLogID lid = None"
    and ep: "a_owner l \<le> int64 (cfg_epoch cfg)" "0 < int64 (cfg_epoch cfg)"
  obtains w where "claim env (new_writer cfg buf lid s) = (Inr (), w)" "same_writer (new_writer cfg buf lid s) w"
    "caught_up (A(lid \<mapsto> l\<lparr>a_owner := int64 (cfg_epoch cfg)\<rparr>)) (l\<lparr>a_owner := int64 (cfg_epoch cfg)\<rparr>) w"
proof -
  let ?ep = "cfg_epoch cfg" and ?l = "l\<lparr>a_owner := int64 (cfg_epoch cfg)\<rparr>"
  have nz: "?ep \<noteq> 0" using ep(2) by (auto simp: int64_def)
  obtain s1 where f: "Fence env lid ?ep s = (Inr (), s1)"
    using Fence_quiet [OF env s(1), of lid ?ep] id nz ep s(2)
    by (cases "Fence env lid ?ep s") (auto simp: checkFence_def)
  note g = quiet_fence(1) [OF env s(1) f s(2)]
  have dec: "decodes env" using env by (simp add: quiet_def)
  obtain r s2 where n: "NextSeqno env lid s1 = (r, s2)" by (cases "NextSeqno env lid s1")
  have "r = Inr (uint64 (int (length (a_hist l)) + 1)) \<and> good (A(lid \<mapsto> ?l)) s2"
    using quiet_rely [OF env] dec g n
    by (cases rule: NextSeqno_cases) (use id in \<open>auto simp: quiet_meanwhile [OF env] quiet_faultless [OF env]\<close>)
  moreover have "int (length (a_hist l)) < bigint_max" using good_log(3) [OF s] .
  ultimately show ?thesis
    using f n id nz
    by (intro that [of "(new_writer cfg buf lid s)\<lparr>w_store := s2, w_next := uint64 (int (length (a_hist l)) + 1)\<rparr>"])
      (simp_all add: claim_def locate_def new_writer_def caught_up_def same_writer_def uint_uint64)
qed

lemma append_batch_quiet:
  assumes env: "quiet env" and at: "caught_up A l w" and batch: "batch \<noteq> []" "batch_fits (w_next w) batch"
    and l': "l' = l\<lparr>a_hist := a_hist l @ map (Pair (int64 (w_epoch w))) batch\<rparr>"
  obtains w' where "append_batch env took ended batch w = (Inr True, w')"
    "caught_up (A(w_id w \<mapsto> l')) l' w'" "same_writer w w'" "c_appends (w_c w') = c_appends (w_c w) + 1"
    "w_trimmed w' = w_trimmed w"
proof -
  have g: "good A (w_store w)" "A (w_id w) = Some l" "a_owner l = int64 (w_epoch w)" "w_epoch w \<noteq> 0"
    "checkLogID (w_id w) = None" "uint (w_next w) = int (length (a_hist l)) + 1"
    using at by (simp_all add: caught_up_def)
  have nz: "w_next w \<noteq> 0" using g(6) by auto
  have "uint (w_next w) + int (length batch) \<le> bigint_max" using batch(2) by (simp add: batch_fits_def)
  then have next': "uint (w_next w + of_nat (length batch)) = uint (w_next w) + int (length batch)"
    by (rule uint_add_nat)
  have "\<exists>lst. checkAppend (w_id w) (w_epoch w) (w_next w) (length batch) = Inr lst"
    using g(4,5) nz batch(1) by (simp add: checkAppend_Inr_iff checkLogID_None_iff)
  then obtain lst where "checkAppend (w_id w) (w_epoch w) (w_next w) (length batch) = Inr lst" by blast
  then have "fst (Append env (w_id w) (w_epoch w) (w_next w) batch (w_store w)) = Inr ()"
    using Append_quiet [OF env g(1,2) batch(2), of "w_epoch w" lst] g(3,6) by simp
  then obtain s where a: "Append env (w_id w) (w_epoch w) (w_next w) batch (w_store w) = (Inr (), s)"
    by (cases "Append env (w_id w) (w_epoch w) (w_next w) batch (w_store w)") simp
  have "good (A(w_id w \<mapsto> l')) s" using quiet_append [OF env g(1) batch(2) a g(2)] by (simp add: l')
  with a at next' show ?thesis
    by (intro that) (simp add: append_batch_def, simp_all add: caught_up_def same_writer_def record_batch_def l')
qed

section \<open>Trimming behind\<close>

text \<open>The watermark a trim of a log leaves, given what the writer keeps: enough, and not much more.\<close>

definition keeps_enough :: "config \<Rightarrow> alog \<Rightarrow> alog \<Rightarrow> bool" where
  "keeps_enough cfg l l' \<longleftrightarrow>
     int (a_trim l') \<le> max (int (a_trim l)) (int (length (a_hist l')) - cfg_retain cfg) \<and>
     (0 < cfg_retain cfg \<longrightarrow> int (length (a_hist l')) - int (a_trim l') < cfg_retain cfg + cfg_stride cfg)"

text \<open>When a trim is due, in the numbers its words stand for.\<close>

lemma trim_behind_when:
  fixes w :: writer and l :: alog
  defines "n \<equiv> int (length (a_hist l))" and "k \<equiv> cfg_retain (w_cfg w)" and "st \<equiv> cfg_stride (w_cfg w)"
  assumes at: "caught_up A l w" and cfg: "config_ok (w_cfg w)" "cfg_retain (w_cfg w) \<le> bigint_max"
  shows "trim_behind env w = (if k \<le> 0 \<or> n - k < uint (w_trimmed w) + st then w
      else case Trim env (w_id w) (uint64 (n - k)) (w_store w) of
         (Inl err, s) \<Rightarrow> note_w err (w\<lparr>w_store := s\<rparr>)
       | (Inr _, s) \<Rightarrow> w\<lparr>w_store := s, w_trimmed := uint64 (n - k), w_c := (w_c w)\<lparr>c_trims := c_trims (w_c w) + 1\<rparr>\<rparr>)"
proof -
  have g: "uint (w_next w) = n + 1" "uint (w_trimmed w) \<le> n" "n < bigint_max"
    using at good_log(3,4) [of A "w_store w" "w_id w" l] by (auto simp: caught_up_def n_def)
  have k: "0 \<le> k" "uint (uint64 k) = k" and st: "0 < st" "st \<le> 1152921504606846976"
    using cfg by (auto simp: config_ok_def uint_uint64 max_def k_def st_def)
  have wr: "uint (w_next w - 1) = n" using g(1) by (subst uint_pred) (auto simp: n_def)
  have "w_next w - 1 = uint64 n" using wr by (metis uint64_def word_of_int_uint)
  then have u: "w_next w - 1 - uint64 k = uint64 (n - k)" by (simp add: uint64_def)
  have "w_trimmed w + uint64 st = uint64 (uint (w_trimmed w) + st)" by (simp add: uint64_def)
  then have sum: "uint (w_trimmed w + uint64 st) = uint (w_trimmed w) + st"
    using g st uint_ge_0 [of "w_trimmed w"] by (simp only:) (subst uint_uint64_full, simp_all)
  have "uint (uint64 (n - k)) = n - k" if "k < n" using that g(3) k(1) by (simp add: uint_uint64)
  moreover have "n - k < uint (w_trimmed w) + st" if "n \<le> k" using that st(1) uint_ge_0 [of "w_trimmed w"] by linarith
  ultimately show ?thesis
    unfolding trim_behind_def Let_def k_def [symmetric] st_def [symmetric] u word_le_def word_less_def wr k(2) sum
    by (simp add: not_le)
qed

lemma trim_behind_quiet:
  assumes env: "quiet env" and at: "caught_up A l w" and cfg: "config_ok (w_cfg w)" "cfg_retain (w_cfg w) \<le> bigint_max"
  obtains t where "a_trim l \<le> t" "keeps_enough (w_cfg w) l (l\<lparr>a_trim := t\<rparr>)"
    "caught_up (A(w_id w \<mapsto> l\<lparr>a_trim := t\<rparr>)) (l\<lparr>a_trim := t\<rparr>) (trim_behind env w)"
    "same_writer w (trim_behind env w)" "c_appends (w_c (trim_behind env w)) = c_appends (w_c w)"
proof -
  let ?n = "int (length (a_hist l))" and ?k = "cfg_retain (w_cfg w)" and ?st = "cfg_stride (w_cfg w)"
  let ?u = "uint64 (?n - ?k)"
  have g: "good A (w_store w)" "A (w_id w) = Some l" "uint (w_trimmed w) \<le> int (a_trim l)"
    "checkLogID (w_id w) = None" using at by (simp_all add: caught_up_def)
  note b = good_log(3,4) [OF g(1,2)]
  have st: "0 < ?st" "0 \<le> ?k" using cfg by (auto simp: config_ok_def)
  note due = trim_behind_when [OF at cfg]
  show thesis
  proof (cases "?k \<le> 0 \<or> ?n - ?k < uint (w_trimmed w) + ?st")
    case True
    then show ?thesis using due at g(2,3)
      by (intro that [of "a_trim l"]) (auto simp: keeps_enough_def fun_upd_idem same_writer_def)
  next
    case False
    then have pos: "0 < ?n - ?k" using st(1) uint_ge_0 [of "w_trimmed w"] by linarith
    have "?n - ?k \<le> bigint_max" using st(2) b(1) by linarith
    then have u: "uint ?u = ?n - ?k" "int64 ?u = ?n - ?k" using pos by (simp_all add: uint_uint64 int64_small)
    then have nz: "?u \<noteq> 0" using pos by auto
    obtain r where r: "find_log (w_id w) (sdb (w_store w)) = Some r"
      using g(1,2) by (auto simp: good_def elim: db_rel_obtain)
    have "checkTrim (w_id w) ?u = Inr True" using nz g(4) by (simp add: checkTrim_def FirstSeqno_def u64_one_le)
    then have "fst (Trim env (w_id w) ?u (w_store w)) = Inr ()" using Trim_quiet_db [OF env g(1) r] by simp
    then obtain s where t: "Trim env (w_id w) ?u (w_store w) = (Inr (), s)"
      by (cases "Trim env (w_id w) ?u (w_store w)") simp
    let ?t = "max (a_trim l) (nat (?n - ?k))"
    have "trim_to ?u l = l\<lparr>a_trim := ?t\<rparr>" using u(2) st(2) by (simp add: trim_to_def)
    then have "good (A(w_id w \<mapsto> l\<lparr>a_trim := ?t\<rparr>)) s" using quiet_trim [OF env g(1) t g(2) nz] by simp
    then show ?thesis
      using at False st u pos t due b(2)
      by (intro that [of ?t]) (auto simp: keeps_enough_def caught_up_def same_writer_def)
  qed
qed

section \<open>A quiet run\<close>

text \<open>A run between slots, with nothing left to send again.\<close>

definition between_slots :: "logs \<Rightarrow> alog \<Rightarrow> run_state \<Rightarrow> bool" where
  "between_slots A l x \<longleftrightarrow>
     caught_up A l (r_w x) \<and> r_fresh x \<and> 0 < interval (r_pace x) \<and>
     config_ok (w_cfg (r_w x)) \<and> cfg_retain (w_cfg (r_w x)) \<le> bigint_max \<and> sizes_ok (cfg_sizes (w_cfg (r_w x))) \<and>
     int (length (w_corpus (r_w x))) = corpus_size (largest (cfg_sizes (w_cfg (r_w x))))"

text \<open>What a slot adds to a log: one batch of its epoch's, whole and readable.\<close>

definition adds_batches :: "writer \<Rightarrow> nat \<Rightarrow> alog \<Rightarrow> alog \<Rightarrow> bool" where
  "adds_batches w n l l' \<longleftrightarrow>
     (\<exists>ps. a_hist l' = a_hist l @ map (Pair (int64 (w_epoch w))) ps \<and>
        length ps = n * nat (cfg_batch (w_cfg w)) \<and> (\<forall>p \<in> set ps. readable p)) \<and>
     a_owner l' = a_owner l \<and> a_trim l \<le> a_trim l'"

lemma adds_batches_trans:
  assumes "adds_batches w m a b" "adds_batches w n b c"
  shows "adds_batches w (m + n) a c"
proof -
  from assms obtain ps qs where "a_hist b = a_hist a @ map (Pair (int64 (w_epoch w))) ps"
    "length ps = m * nat (cfg_batch (w_cfg w))" "\<forall>p \<in> set ps. readable p"
    "a_hist c = a_hist b @ map (Pair (int64 (w_epoch w))) qs"
    "length qs = n * nat (cfg_batch (w_cfg w))" "\<forall>p \<in> set qs. readable p" by (auto simp: adds_batches_def)
  with assms show ?thesis
    unfolding adds_batches_def by (intro conjI exI [of _ "ps @ qs"]) (auto simp: add_mult_distrib)
qed

lemma run_slot_quiet:
  assumes env: "quiet env" and x: "between_slots A l x" and sl: "\<not> sl_cancelled sl"
    and fits: "uint (w_next (r_w x)) + cfg_batch (w_cfg (r_w x)) \<le> bigint_max"
  obtains x' A' l' where "run_slot env sl x = (Going, x')" "between_slots A' l' x'" "same_writer (r_w x) (r_w x')"
    "adds_batches (r_w x) 1 l l'" "keeps_enough (w_cfg (r_w x)) l l'"
    "c_appends (w_c (r_w x')) = c_appends (w_c (r_w x)) + 1"
proof -
  let ?w = "r_w x" and ?cfg = "w_cfg (r_w x)"
  have c: "config_ok ?cfg" "sizes_ok (cfg_sizes ?cfg)" "cfg_retain ?cfg \<le> bigint_max" "classes (cfg_sizes ?cfg) \<noteq> []"
    "1 \<le> cfg_batch ?cfg" using x by (auto simp: between_slots_def config_ok_def)
  from schedule_total [of "interval (r_pace x)" "due (r_pace x)" "sl_now sl" "catchup (r_pace x)"] x obtain slept k p where
    p: "pacer_wait (sl_now sl) False (r_pace x) = Some (slept, k, False, p)" "interval p = interval (r_pace x)"
    by (auto simp: pacer_wait_def between_slots_def)
  from fill_total [OF c(2,4), of "w_corpus ?w" "map (sl_draws sl) [0..<nat (cfg_batch ?cfg)]"] x obtain batch where
    b: "fill (cfg_sizes ?cfg) (w_corpus ?w) (map (sl_draws sl) [0..<nat (cfg_batch ?cfg)]) = Some batch"
    and cl: "\<forall>p \<in> set batch. \<exists>c \<in> set (classes (cfg_sizes ?cfg)). int (length p) = sc_bytes c"
    by (auto simp: between_slots_def)
  have len: "length batch = nat (cfg_batch ?cfg)" using fill_length [OF b] by simp
  let ?w1 = "skip_slots k ?w" and ?l1 = "l\<lparr>a_hist := a_hist l @ map (Pair (int64 (w_epoch ?w))) batch\<rparr>"
  have "caught_up A l ?w1" "batch \<noteq> []" "batch_fits (w_next ?w1) batch"
    using x len c(5) fits by (auto simp: between_slots_def batch_fits_def)
  from append_batch_quiet [OF env this, of ?l1 "sl_took sl" "sl_ended sl"] obtain w2 where
    w2: "append_batch env (sl_took sl) (sl_ended sl) batch ?w1 = (Inr True, w2)"
      "caught_up (A(w_id ?w \<mapsto> ?l1)) ?l1 w2" "same_writer ?w1 w2" "c_appends (w_c w2) = c_appends (w_c ?w1) + 1"
    by auto
  have same2: "same_writer ?w w2" using skip_slots_keeps(2) w2(3) by (rule same_writer_trans)
  then have cfg2: "w_cfg w2 = ?cfg" by (simp add: same_writer_def)
  have retain2: "config_ok (w_cfg w2)" "cfg_retain (w_cfg w2) \<le> bigint_max" using c cfg2 by simp_all
  from trim_behind_quiet [OF env w2(2) retain2] obtain t where
    t: "a_trim ?l1 \<le> t" "keeps_enough ?cfg ?l1 (?l1\<lparr>a_trim := t\<rparr>)"
      "caught_up ((A(w_id ?w \<mapsto> ?l1))(w_id w2 \<mapsto> ?l1\<lparr>a_trim := t\<rparr>)) (?l1\<lparr>a_trim := t\<rparr>) (trim_behind env w2)"
      "same_writer w2 (trim_behind env w2)" "c_appends (w_c (trim_behind env w2)) = c_appends (w_c w2)"
    unfolding cfg2 by blast
  let ?x' = "x\<lparr>r_pace := p, r_batch := batch, r_fresh := True, r_w := trim_behind env w2\<rparr>"
  have same: "same_writer ?w (trim_behind env w2)" using same2 t(4) by (rule same_writer_trans)
  have run: "run_slot env sl x = (Going, ?x')"
    using x sl p b w2(1) by (simp add: run_slot_def between_slots_def send_batch_def Let_def)
  show ?thesis
  proof (rule that [OF run])
    show "between_slots ((A(w_id ?w \<mapsto> ?l1))(w_id w2 \<mapsto> ?l1\<lparr>a_trim := t\<rparr>)) (?l1\<lparr>a_trim := t\<rparr>) ?x'"
      using x t(3) same p(2) by (simp add: between_slots_def same_writer_def)
    show "adds_batches ?w 1 l (?l1\<lparr>a_trim := t\<rparr>)"
      unfolding adds_batches_def using t(1) len fill_readable [OF c(2) cl]
      by (intro conjI exI [of _ batch]) auto
    show "keeps_enough ?cfg l (?l1\<lparr>a_trim := t\<rparr>)" using t(2) by (simp add: keeps_enough_def)
    show "c_appends (w_c (r_w ?x')) = c_appends (w_c ?w) + 1" using t(5) w2(4) by (simp add: skip_slots_def)
  qed (use same in simp)
qed

lemma run_slots_quiet:
  assumes env: "quiet env" and x: "between_slots A l x" and sls: "list_all (\<lambda>sl. \<not> sl_cancelled sl) sls" "sls \<noteq> []"
    and fits: "uint (w_next (r_w x)) + int (length sls) * cfg_batch (w_cfg (r_w x)) \<le> bigint_max"
  shows "\<exists>x' A' l'. run_slots env sls x = (Going, x') \<and> between_slots A' l' x' \<and> same_writer (r_w x) (r_w x') \<and>
    adds_batches (r_w x) (length sls) l l' \<and> keeps_enough (w_cfg (r_w x)) l l' \<and>
    c_appends (w_c (r_w x')) = c_appends (w_c (r_w x)) + of_nat (length sls)"
  using x sls fits
proof (induction sls arbitrary: A l x)
  case (Cons sl sls)
  let ?b = "cfg_batch (w_cfg (r_w x))"
  have b: "1 \<le> ?b" using Cons.prems(1) by (auto simp: between_slots_def config_ok_def)
  have "0 \<le> int (length sls) * ?b" using b by simp
  then have "uint (w_next (r_w x)) + ?b \<le> bigint_max" "\<not> sl_cancelled sl"
    using Cons.prems(2,4) by (simp_all add: algebra_simps)
  with env Cons.prems(1) obtain x1 A1 l1 where x1: "run_slot env sl x = (Going, x1)" "between_slots A1 l1 x1"
    "same_writer (r_w x) (r_w x1)" "adds_batches (r_w x) 1 l l1" "keeps_enough (w_cfg (r_w x)) l l1"
    "c_appends (w_c (r_w x1)) = c_appends (w_c (r_w x)) + 1"
    using run_slot_quiet [of env A l x sl] by blast
  show ?case
  proof (cases "sls = []")
    case True
    with x1 show ?thesis by auto
  next
    case False
    have "uint (w_next (r_w x1)) = uint (w_next (r_w x)) + ?b"
      using Cons.prems(1) x1(2,4) b by (auto simp: between_slots_def caught_up_def adds_batches_def)
    then have fits1: "uint (w_next (r_w x1)) + int (length sls) * cfg_batch (w_cfg (r_w x1)) \<le> bigint_max"
      using Cons.prems(4) x1(3) by (simp add: same_writer_def algebra_simps)
    from Cons.IH [OF x1(2) _ False fits1] Cons.prems(2) obtain x' A' l' where
      r: "run_slots env sls x1 = (Going, x')" "between_slots A' l' x'" "same_writer (r_w x1) (r_w x')"
        "adds_batches (r_w x1) (length sls) l1 l'" "keeps_enough (w_cfg (r_w x1)) l1 l'"
        "c_appends (w_c (r_w x')) = c_appends (w_c (r_w x1)) + of_nat (length sls)" by auto
    have same: "w_cfg (r_w x1) = w_cfg (r_w x)" "w_epoch (r_w x1) = w_epoch (r_w x)"
      using x1(3) by (simp_all add: same_writer_def)
    have "adds_batches (r_w x) (length sls) l1 l'" using r(4) by (simp add: adds_batches_def same)
    with x1(4) have "adds_batches (r_w x) (1 + length sls) l l'" by (rule adds_batches_trans)
    moreover have "length (a_hist l1) \<le> length (a_hist l')" using r(4) by (auto simp: adds_batches_def)
    then have "keeps_enough (w_cfg (r_w x)) l l'" using x1(5) r(5) by (auto simp: keeps_enough_def same)
    moreover have "same_writer (r_w x) (r_w x')" using x1(3) r(3) by (rule same_writer_trans)
    ultimately show ?thesis using x1(1,6) r(1,2,6) by (auto simp: algebra_simps)
  qed
qed simp

section \<open>Starting up\<close>

text \<open>The logs with some of them taken over, and nothing else of them changed.\<close>

definition taken :: "LogID list \<Rightarrow> int \<Rightarrow> logs \<Rightarrow> logs" where
  "taken ids e A = (\<lambda>lid. if lid \<in> set ids then map_option (\<lambda>l. l\<lparr>a_owner := e\<rparr>) (A lid) else A lid)"

lemma taken_Nil [simp]: "taken [] e A = A"
  by (simp add: taken_def)

lemma taken_Cons: "A lid = Some l \<Longrightarrow> taken ids e (A(lid \<mapsto> l\<lparr>a_owner := e\<rparr>)) = taken (lid # ids) e A"
  by (auto simp: taken_def fun_eq_iff)

lemma claim_all_quiet:
  assumes "quiet env" "good A s" "distinct ids" "0 < int64 (cfg_epoch cfg)"
    and "\<forall>lid \<in> set ids. checkLogID lid = None \<and> (\<exists>l. A lid = Some l \<and> a_owner l \<le> int64 (cfg_epoch cfg))"
  shows "\<exists>ws s'. claim_all env cfg buf ids s = (Inr ws, s') \<and> good (taken ids (int64 (cfg_epoch cfg)) A) s' \<and>
    map w_id ws = ids \<and>
    (\<forall>w \<in> set ws. \<forall>l. A (w_id w) = Some l \<longrightarrow> uint (w_next w) = int (length (a_hist l)) + 1)"
  using assms
proof (induction ids arbitrary: A s)
  case (Cons lid ids)
  let ?e = "int64 (cfg_epoch cfg)"
  from Cons.prems(5) obtain l where l: "checkLogID lid = None" "A lid = Some l" "a_owner l \<le> ?e" by auto
  from claim_quiet [OF Cons.prems(1,2) l(2,1,3) Cons.prems(4), of buf] obtain w where
    w: "claim env (new_writer cfg buf lid s) = (Inr (), w)" "same_writer (new_writer cfg buf lid s) w"
      "caught_up (A(lid \<mapsto> l\<lparr>a_owner := ?e\<rparr>)) (l\<lparr>a_owner := ?e\<rparr>) w" .
  have id: "w_id w = lid" using w(2) by (simp add: same_writer_def new_writer_def)
  have "\<exists>ws s'. claim_all env cfg buf ids (w_store w) = (Inr ws, s') \<and>
      good (taken ids ?e (A(lid \<mapsto> l\<lparr>a_owner := ?e\<rparr>))) s' \<and> map w_id ws = ids \<and>
      (\<forall>w' \<in> set ws. \<forall>l'. (A(lid \<mapsto> l\<lparr>a_owner := ?e\<rparr>)) (w_id w') = Some l' \<longrightarrow>
        uint (w_next w') = int (length (a_hist l')) + 1)"
  proof (rule Cons.IH [OF Cons.prems(1) _ _ Cons.prems(4)])
    show "good (A(lid \<mapsto> l\<lparr>a_owner := ?e\<rparr>)) (w_store w)" using w(3) unfolding caught_up_def by blast
  qed (use Cons.prems(3,5) in auto)
  then obtain ws s' where ws: "claim_all env cfg buf ids (w_store w) = (Inr ws, s')"
    "good (taken (lid # ids) ?e A) s'" "map w_id ws = ids"
    and nxt: "\<And>w' l'. w' \<in> set ws \<Longrightarrow> (A(lid \<mapsto> l\<lparr>a_owner := ?e\<rparr>)) (w_id w') = Some l' \<Longrightarrow>
      uint (w_next w') = int (length (a_hist l')) + 1"
    using taken_Cons [of A lid l ids ?e] l(2) by auto
  have "w_id w' \<noteq> lid" if "w' \<in> set ws" for w' using that ws(3) Cons.prems(3) by auto
  then have "uint (w_next w') = int (length (a_hist l')) + 1" if "w' \<in> set ws" "A (w_id w') = Some l'" for w' l'
    using nxt [of w' l'] that by simp
  moreover have "uint (w_next w) = int (length (a_hist l)) + 1" using w(3) by (simp add: caught_up_def)
  ultimately show ?case using w(1) ws id l(2) by auto
qed simp

lemma check_ids_None: "check_ids ids = None \<Longrightarrow> lid \<in> set ids \<Longrightarrow> checkLogID lid = None"
  by (induction ids) (auto split: option.splits)

lemma CreateLogs_quiet:
  assumes "quiet env" "good A s" "check_ids ids = None" "ids \<noteq> []"
  obtains s' where "CreateLogs env ids s = (Inr (), s')" "good (created ids A) s'"
proof -
  obtain r s' where c: "CreateLogs env ids s = (r, s')" by (cases "CreateLogs env ids s")
  from quiet_rely [OF assms(1)] assms(2) c have "r = Inr ()"
    by (cases rule: CreateLogs_cases) (use assms quiet_faultless in \<open>auto\<close>)
  with c quiet_create [OF assms(1,2) _ assms(4)] show ?thesis by (intro that [of s']) simp_all
qed

lemma prepare_quiet:
  assumes env: "quiet env" and goose: "goose_applies G" and cfg: "cfg_migrate cfg" "1 \<le> cfg_logs cfg"
    and ids: "check_ids (log_ids cfg) = None"
    and s: "empty_schema (sdb s) \<and> A = Map.empty \<or> good A s \<and> records (sdb s)"
  obtains s' where "prepare G env cfg s = (Inr (log_ids cfg), s')" "good (created (log_ids cfg) A) s'"
proof -
  let ?s1 = "if cfg_schema cfg \<noteq> [] then tick s else s"
  have nop: "(if cfg_schema cfg \<noteq> [] then pg_call env sql_nop s else (Inr (), s)) = (Inr (), ?s1)"
    by (simp add: pg_call_quiet [OF env] sql_nop_def)
  have up: "fst (up_one migration_up (sdb ?s1)) = Inr () \<and> db_rel A (snd (up_one migration_up (sdb ?s1)))"
    using s by (auto simp: empty_schema_def up_one_fresh up_one_recorded good_def intro: db_rel_initial [unfolded initial_def])
  obtain s2 where m: "Migrate G env ?s1 = (Inr (), s2)" "sdb s2 = snd (up_one migration_up (sdb ?s1))"
    using goose_applies_Migrate [OF goose env, of ?s1] up by (cases "Migrate G env ?s1") auto
  let ?s3 = "(tick s2)\<lparr>appends := (\<lambda>_. None)\<rparr>"
  have "db_rel A (sdb s2)" "registry (sdb s2) \<noteq> None" using up m(2) by (auto simp: db_rel_def)
  then have "good A ?s3" "Open env s2 = (Inr (), ?s3)"
    by (simp_all add: good_def cache_ok_def Open_quiet [OF env])
  moreover have "log_ids cfg \<noteq> []" using cfg(2) by (simp add: log_ids_def)
  ultimately obtain s4 where "CreateLogs env (log_ids cfg) ?s3 = (Inr (), s4)" "good (created (log_ids cfg) A) s4"
    using CreateLogs_quiet [OF env _ ids] by metis
  with nop m(1) cfg(1) \<open>Open env s2 = (Inr (), ?s3)\<close> show ?thesis by (intro that [of s4]) (simp_all add: prepare_def)
qed

end
