(* ===== verification/Load_Drive.thy ===== *)
theory Load_Drive
  imports Load_Report Load_Run
begin

text \<open>
  The load generator as a whole (\<open>cmd/pgnotch-load/main.go\<close>): opening the pool, the start of \<open>drive\<close>, its writers
  running side by side over one store and one set of counters, and how the run ends. pgx and
  the system's random source are arguments. A turn of one writer's loop is one step; between the
  calls of a turn the environment stands for every other session, the other writers included, and
  what they add to the shared cache of a store is for their own logs.
\<close>

section \<open>The pool\<close>

record pool_config =
  StatementCacheCapacity :: int
  MaxConns :: int
  MinConns :: int
  search_path :: "string option"

record pgx =
  ParseConfig :: "string \<Rightarrow> goerr + pool_config"
  NewWithConfig :: "pool_config \<Rightarrow> goerr option"

definition int32 :: "int \<Rightarrow> int" where
  "int32 n = sint (word_of_int n :: 32 word)"

definition openPool :: "pgx \<Rightarrow> env \<Rightarrow> config \<Rightarrow> sys \<Rightarrow> (goerr + pool_config \<times> config) \<times> sys" where
  "openPool P env cfg s =
     (case ParseConfig P (cfg_dsn cfg) of
        Inl err \<Rightarrow> (Inl err, s)
      | Inr given \<Rightarrow>
          let cfg1 = cfg\<lparr>cfg_cache := StatementCacheCapacity given\<rparr>;
              pc = given\<lparr>MaxConns := int32 (cfg_conns cfg), MinConns := int32 (cfg_conns cfg)\<rparr>;
              pc1 = (if cfg_schema cfg \<noteq> [] then pc\<lparr>search_path := Some (cfg_schema cfg)\<rparr> else pc)
          in case NewWithConfig P pc1 of
               Some err \<Rightarrow> (Inl err, s)
             | None \<Rightarrow> then_do (pg_call env sql_nop s) (\<lambda>_ s1. (Inr (pc1, cfg1), s1)))"

text \<open>The pool size is cut to 32 bits: one past \<open>2 ^ 32\<close> is taken as what is left of it.\<close>

lemma conns_truncated:
  assumes "cfg_conns cfg = 2 ^ 32 + n" "0 \<le> n" "n < 2 ^ 31" "openPool P env cfg s = (Inr (pc, cfg'), s')"
  shows "MaxConns pc = n" "MinConns pc = n"
proof -
  have "(word_of_int (2 ^ 32 + n) :: 32 word) = word_of_int n" by (simp add: word_of_int_eq_iff take_bit_eq_mod)
  moreover have "sint (word_of_int n :: 32 word) = n"
    using assms(2,3) by (simp add: signed_take_bit_int_eq_self_iff sint_sbintrunc')
  ultimately have "int32 (2 ^ 32 + n) = n" unfolding int32_def by (rule ssubst)
  with assms(1,4) show "MaxConns pc = n" "MinConns pc = n"
    by (auto simp: openPool_def Let_def then_do_Inr split: sum.splits option.splits if_splits)
qed

definition newCorpus :: "(nat \<Rightarrow> goerr + bytes) \<Rightarrow> int \<Rightarrow> goerr + bytes" where
  "newCorpus random l = random (nat (corpus_size l))"

section \<open>The writers side by side\<close>

record drive_state =
  d_store :: sys
  d_c :: counters
  d_tasks :: "(status \<times> run_state) list"
  d_failures :: "goerr list"
  d_ended :: bool

definition start_drive :: "int \<Rightarrow> config \<Rightarrow> writer list \<Rightarrow> sys \<Rightarrow> drive_state" where
  "start_drive start cfg ws s =
     \<lparr>d_store = s, d_c = no_counters,
      d_tasks = map (\<lambda>(t, w). (Going, start_run t w)) (zip (writer_starts start (cfg_interval cfg) (length ws)) ws),
      d_failures = [], d_ended = False\<rparr>"

text \<open>A writer with the store and the counters all writers share.\<close>

definition shared :: "drive_state \<Rightarrow> run_state \<Rightarrow> run_state" where
  "shared d x = x\<lparr>r_w := (r_w x)\<lparr>w_store := d_store d, w_c := d_c d\<rparr>\<rparr>"

fun failures_of :: "status \<Rightarrow> goerr list" where
  "failures_of (Failed err) = [err]"
| "failures_of _ = []"

text \<open>A turn of writer \<open>i\<close>; a failure goes into the channel and ends the context.\<close>

definition drive_slot :: "env \<Rightarrow> nat \<Rightarrow> slot \<Rightarrow> drive_state \<Rightarrow> drive_state" where
  "drive_slot env i sl d =
     (if i < length (d_tasks d) \<and> fst (d_tasks d ! i) = Going
      then let (st, x) = run_slot env sl (shared d (snd (d_tasks d ! i)))
           in d\<lparr>d_store := w_store (r_w x), d_c := w_c (r_w x), d_tasks := (d_tasks d)[i := (st, x)],
                d_failures := d_failures d @ failures_of st, d_ended := d_ended d \<or> failures_of st \<noteq> []\<rparr>
      else d)"

text \<open>
  What may happen next: a turn of a writer, or the end of the context, by a signal or the run's
  own deadline. A turn is cancelled only when the context has ended; and one that goes on
  although it has ended slept first, and its timer and the context's end were both there for
  the select to choose from.
\<close>

definition sleeps :: "slot \<Rightarrow> run_state \<Rightarrow> bool" where
  "sleeps sl x =
     (case pacer_wait (sl_now sl) (sl_cancelled sl) (r_pace x) of None \<Rightarrow> False | Some (slept, _) \<Rightarrow> 0 < slept)"

inductive drive_step :: "env \<Rightarrow> drive_state \<Rightarrow> drive_state \<Rightarrow> bool" for env where
  step_slot: "i < length (d_tasks d) \<Longrightarrow> (sl_cancelled sl \<longrightarrow> d_ended d) \<Longrightarrow>
    (d_ended d \<longrightarrow> sl_cancelled sl \<or> sleeps sl (snd (d_tasks d ! i))) \<Longrightarrow> drive_step env d (drive_slot env i sl d)"
| step_stop: "drive_step env d (d\<lparr>d_ended := True\<rparr>)"

inductive_cases drive_stepE: "drive_step env d d'"

text \<open>
  What \<open>drive\<close> returns once every writer has: the first failure, or nil. Before that, and when a
  writer has panicked and taken the process with it, it returns nothing.
\<close>

definition drive_result :: "drive_state \<Rightarrow> goerr option option" where
  "drive_result d =
     (if list_all (\<lambda>(st, x). st \<noteq> Going \<and> st \<noteq> Panicked) (d_tasks d)
      then Some (case d_failures d of [] \<Rightarrow> None | err # _ \<Rightarrow> Some err)
      else None)"

text \<open>The start of a run: the pool, the schema and logs, the corpus, the claims; then the plan is printed and the writers start.\<close>

definition start_load ::
  "pgx \<Rightarrow> 'p goose \<Rightarrow> (nat \<Rightarrow> goerr + bytes) \<Rightarrow> (float64 \<Rightarrow> u64) \<Rightarrow> int \<Rightarrow> env \<Rightarrow> config \<Rightarrow> sys \<Rightarrow>
    (goerr + string \<times> drive_state) \<times> sys" where
  "start_load P G random wild start env cfg0 s =
     then_do (openPool P env cfg0 s) (\<lambda>(pc, cfg) s1.
     then_do (prepare G env cfg s1) (\<lambda>ids s2.
     then_do (newCorpus random (largest (cfg_sizes cfg)), s2) (\<lambda>buf s2.
     then_do (claim_all env cfg buf ids s2) (\<lambda>ws s3.
       (Inr (plan wild cfg ws, start_drive start cfg ws s3), s3)))))"

text \<open>
  \<open>run\<close> up to there, from what the \<open>flag\<close> package made of the arguments, its error (or \<open>ErrHelp\<close>) or the flags;
  and the status \<open>main\<close> exits with.
\<close>

datatype load_error = ErrHelp | FlagsUnread | FlagsRefused flag_error | LoadFailed goerr

definition run_load ::
  "pgx \<Rightarrow> 'p goose \<Rightarrow> (nat \<Rightarrow> goerr + bytes) \<Rightarrow> (float64 \<Rightarrow> u64) \<Rightarrow> int \<Rightarrow> int \<Rightarrow> env \<Rightarrow> load_error + flags \<Rightarrow> sys \<Rightarrow>
    (load_error + string \<times> drive_state) \<times> sys" where
  "run_load P G random wild unix start env arguments s =
     (case bind_ok arguments (\<lambda>fl. map_error FlagsRefused (parseFlags wild unix fl)) of
        Inl err \<Rightarrow> (Inl err, s)
      | Inr cfg \<Rightarrow> (case start_load P G random wild start env cfg s of (r, s1) \<Rightarrow> (map_error LoadFailed r, s1)))"

definition main_status :: "load_error option \<Rightarrow> int" where
  "main_status err = (if err = None \<or> err = Some ErrHelp then 0 else 1)"

section \<open>Turns\<close>

fun drive_turns :: "env \<Rightarrow> (nat \<times> slot) list \<Rightarrow> drive_state \<Rightarrow> drive_state" where
  "drive_turns env [] d = d"
| "drive_turns env ((i, sl) # ts) d = drive_turns env ts (drive_slot env i sl d)"

text \<open>A turn that finds the context over makes no call: the writer returns.\<close>

lemma run_slot_cancelled:
  assumes "sl_cancelled sl" "0 < interval (r_pace x)"
  obtains x' where "run_slot env sl x = (Stopped, x')" "w_store (r_w x') = w_store (r_w x)"
proof -
  obtain slept next' k where sch: "schedule (due (r_pace x)) (sl_now sl) (interval (r_pace x)) (catchup (r_pace x)) = Some (slept, next', k)"
    using schedule_total [OF assms(2)] by blast
  with assms(1) have "run_slot env sl x = (Stopped, x\<lparr>r_pace := (r_pace x)\<lparr>due := next'\<rparr>, r_w := skip_slots k (r_w x)\<rparr>)"
    by (simp add: run_slot_def pacer_wait_def Let_def)
  then show ?thesis by (rule that) simp
qed

text \<open>What no turn changes of a writer: its log, its epoch, its configuration, its corpus, the interval it keeps.\<close>

definition fixed_of :: "writer \<Rightarrow> LogID \<times> Epoch \<times> config \<times> bytes" where
  "fixed_of w = (w_id w, w_epoch w, w_cfg w, w_corpus w)"

lemma resync_fixed: "fixed_of (resync env w) = fixed_of w"
  by (auto simp: resync_def locate_def note_w_def fixed_of_def split: prod.split sum.split)

lemma append_batch_fixed:
  assumes "append_batch env took ended batch w = (res, w')"
  shows "fixed_of w' = fixed_of w"
proof -
  obtain r s where a: "Append env (w_id w) (w_epoch w) (w_next w) batch (w_store w) = (r, s)"
    by (cases "Append env (w_id w) (w_epoch w) (w_next w) batch (w_store w)")
  have upd: "fixed_of (w\<lparr>w_store := t, w_c := c\<rparr>) = fixed_of w" for t c by (simp add: fixed_of_def)
  show ?thesis
  proof (cases r)
    case (Inr u)
    with assms a show ?thesis by (auto simp: append_batch_def fixed_of_def)
  next
    case (Inl err)
    with assms a show ?thesis
      by (auto simp: append_batch_def Let_def resync_fixed note_w_def split: if_splits) (simp_all add: fixed_of_def)
  qed
qed

lemma trim_behind_fixed: "fixed_of (trim_behind env w) = fixed_of w"
  by (auto simp: trim_behind_def Let_def note_w_def fixed_of_def split: prod.split sum.split)

lemma run_slot_fixed:
  assumes "run_slot env sl x = (st, x')"
  shows "fixed_of (r_w x') = fixed_of (r_w x)" "interval (r_pace x') = interval (r_pace x)"
proof -
  have skip: "fixed_of (skip_slots k w) = fixed_of w" for k w by (simp add: fixed_of_def)
  have send: "fixed_of (r_w x') = fixed_of (r_w y)" "r_pace x' = r_pace y" if "send_batch env sl batch y = (st, x')" for batch y
    using that trim_behind_fixed append_batch_fixed
    by (auto simp: send_batch_def split: prod.splits sum.splits if_splits)
  from assms have "fixed_of (r_w x') = fixed_of (r_w x) \<and> interval (r_pace x') = interval (r_pace x)"
    by (cases rule: run_slot_cases) (auto simp: skip dest: send)
  then show "fixed_of (r_w x') = fixed_of (r_w x)" "interval (r_pace x') = interval (r_pace x)" by simp_all
qed

text \<open>Of a turn: it fails only with \<open>ErrFenced\<close>, and it does not panic where lengths can be drawn and cut.\<close>

lemma run_slot_fails:
  assumes "run_slot env sl x = (Failed err, x')"
  shows "errors_Is err ErrFenced"
proof -
  have "errors_Is e ErrFenced" if "append_batch env took ended batch w = (Inl e, w')" for e took ended batch w w'
    using that by (auto simp: append_batch_def Let_def split: prod.splits sum.splits if_splits)
  then have send: "errors_Is err ErrFenced" if "send_batch env sl batch y = (Failed err, x')" for batch y
    using that by (auto simp: send_batch_def split: prod.splits sum.splits if_splits)
  from assms show ?thesis by (cases rule: run_slot_cases) (auto dest: send)
qed

definition draws_ok :: "run_state \<Rightarrow> bool" where
  "draws_ok x \<longleftrightarrow>
     0 < interval (r_pace x) \<and> sizes_ok (cfg_sizes (w_cfg (r_w x))) \<and> classes (cfg_sizes (w_cfg (r_w x))) \<noteq> [] \<and>
     int (length (w_corpus (r_w x))) = corpus_size (largest (cfg_sizes (w_cfg (r_w x))))"

lemma run_slot_no_panic:
  assumes ok: "draws_ok x" and run: "run_slot env sl x = (st, x')"
  shows "st \<noteq> Panicked" "draws_ok x'"
proof -
  let ?draws = "map (sl_draws sl) [0..<nat (cfg_batch (w_cfg (r_w x)))]"
  obtain slept next' k where "schedule (due (r_pace x)) (sl_now sl) (interval (r_pace x)) (catchup (r_pace x)) = Some (slept, next', k)"
    using schedule_total ok by (force simp: draws_ok_def)
  moreover obtain batch where "fill (cfg_sizes (w_cfg (r_w x))) (w_corpus (r_w x)) ?draws = Some batch"
    using fill_total [of "cfg_sizes (w_cfg (r_w x))" "w_corpus (r_w x)" ?draws] ok by (auto simp: draws_ok_def)
  moreover have "fst (send_batch env sl b y) \<noteq> Panicked" for b y by (simp add: send_batch_def split: prod.split sum.split)
  ultimately have "fst (run_slot env sl x) \<noteq> Panicked" by (simp add: run_slot_def pacer_wait_def Let_def)
  with run show "st \<noteq> Panicked" by simp
  show "draws_ok x'" using ok run_slot_fixed [OF run] by (simp add: draws_ok_def fixed_of_def)
qed

section \<open>What holds throughout a run\<close>

lemma shared_simps [simp]:
  "r_pace (shared d x) = r_pace x" "r_batch (shared d x) = r_batch x" "r_fresh (shared d x) = r_fresh x"
  "w_store (r_w (shared d x)) = d_store d" "w_c (r_w (shared d x)) = d_c d" "w_id (r_w (shared d x)) = w_id (r_w x)"
  "w_next (r_w (shared d x)) = w_next (r_w x)" "w_cfg (r_w (shared d x)) = w_cfg (r_w x)"
  "w_corpus (r_w (shared d x)) = w_corpus (r_w x)" "w_epoch (r_w (shared d x)) = w_epoch (r_w x)"
  by (simp_all add: shared_def)

lemma draws_ok_shared [simp]: "draws_ok (shared d x) = draws_ok x"
  by (simp add: draws_ok_def)

text \<open>A turn, by what the writer did with it.\<close>

lemma drive_slot_cases:
  obtains (idle) "drive_slot env i sl d = d"
  | (turn) x st x' where "i < length (d_tasks d)" "d_tasks d ! i = (Going, x)" "run_slot env sl (shared d x) = (st, x')"
      "drive_slot env i sl d = d\<lparr>d_store := w_store (r_w x'), d_c := w_c (r_w x'), d_tasks := (d_tasks d)[i := (st, x')],
         d_failures := d_failures d @ failures_of st, d_ended := d_ended d \<or> failures_of st \<noteq> []\<rparr>"
proof (cases "i < length (d_tasks d) \<and> fst (d_tasks d ! i) = Going")
  case True
  obtain st x' where r: "run_slot env sl (shared d (snd (d_tasks d ! i))) = (st, x')"
    by (cases "run_slot env sl (shared d (snd (d_tasks d ! i)))")
  have "d_tasks d ! i = (Going, snd (d_tasks d ! i))" using True by (simp add: prod_eq_iff)
  then show ?thesis using True r by (intro turn [of "snd (d_tasks d ! i)" st x']) (simp_all add: drive_slot_def)
next
  case False
  then show ?thesis by (intro idle) (auto simp: drive_slot_def)
qed

text \<open>
  The channel never holds more than one failure a writer, so no send blocks; every failure is that
  the log was lost to another epoch; and a failure ends the context.
\<close>

definition failures_ok :: "drive_state \<Rightarrow> bool" where
  "failures_ok d \<longleftrightarrow>
     length (d_failures d) = length (filter (\<lambda>(st, x). failures_of st \<noteq> []) (d_tasks d)) \<and>
     list_all (\<lambda>err. errors_Is err ErrFenced) (d_failures d) \<and> (d_failures d = [] \<or> d_ended d)"

lemma filter_update_length:
  assumes "i < length xs" "\<not> P (xs ! i)"
  shows "length (filter P (xs[i := y])) = length (filter P xs) + (if P y then 1 else 0)"
proof -
  have "xs = take i xs @ xs ! i # drop (Suc i) xs" using assms(1) by (rule id_take_nth_drop)
  then have "length (filter P xs) = length (filter P (take i xs)) + length (filter P (drop (Suc i) xs))"
    using assms(2) by (metis filter.simps(2) filter_append length_append)
  then show ?thesis using assms(1) by (simp add: upd_conv_take_nth_drop)
qed

lemma failures_ok_step:
  assumes "drive_step env d d'" "failures_ok d"
  shows "failures_ok d'"
  using assms
proof (cases rule: drive_step.cases)
  case (step_slot i sl)
  have "failures_ok (drive_slot env i sl d)"
  proof (cases rule: drive_slot_cases [of env i sl d])
    case (turn x st x')
    have "length (filter (\<lambda>(st, x). failures_of st \<noteq> []) ((d_tasks d)[i := (st, x')])) =
        length (filter (\<lambda>(st, x). failures_of st \<noteq> []) (d_tasks d)) + length (failures_of st)"
      using filter_update_length [OF turn(1), of "\<lambda>(st, x). failures_of st \<noteq> []" "(st, x')"] turn(2)
      by (cases st) simp_all
    moreover have "list_all (\<lambda>err. errors_Is err ErrFenced) (failures_of st)"
      using run_slot_fails turn(3) by (cases st) auto
    ultimately show ?thesis using assms(2) turn(4) by (auto simp: failures_ok_def)
  qed (use assms(2) in simp)
  with step_slot show ?thesis by simp
qed (auto simp: failures_ok_def)

section \<open>How a run ends\<close>

text \<open>Every writer can draw, and none has panicked.\<close>

definition tasks_ok :: "drive_state \<Rightarrow> bool" where
  "tasks_ok d \<longleftrightarrow> list_all (\<lambda>(st, x). st \<noteq> Panicked \<and> draws_ok x) (d_tasks d)"

lemma tasks_ok_slot:
  assumes "tasks_ok d"
  shows "tasks_ok (drive_slot env i sl d)"
proof (cases rule: drive_slot_cases [of env i sl d])
  case (turn x st x')
  have "draws_ok x" using assms turn(1,2) by (force simp: tasks_ok_def list_all_length)
  then have "st \<noteq> Panicked \<and> draws_ok x'" using run_slot_no_panic [OF _ turn(3)] by simp
  then show ?thesis using assms turn(1,4) by (auto simp: tasks_ok_def list_all_length nth_list_update)
qed (use assms in simp)

lemma tasks_ok_step: "drive_step env d d' \<Longrightarrow> tasks_ok d \<Longrightarrow> tasks_ok d'"
  by (erule drive_stepE) (auto simp: tasks_ok_slot, simp add: tasks_ok_def)

lemma drive_step_length: "drive_step env d d' \<Longrightarrow> length (d_tasks d') = length (d_tasks d)"
  by (erule drive_stepE) (auto simp: drive_slot_def split: prod.split)

lemma drive_run_keeps:
  assumes "(drive_step env)\<^sup>*\<^sup>* d d'"
  shows "length (d_tasks d') = length (d_tasks d)" "tasks_ok d \<Longrightarrow> tasks_ok d'" "failures_ok d \<Longrightarrow> failures_ok d'"
  using assms by (induction rule: rtranclp_induct) (auto simp: drive_step_length tasks_ok_step failures_ok_step)

text \<open>A turn that finds the context over ends its writer, and leaves the store and the failures as they are.\<close>

lemma drive_slot_cancelled:
  assumes ok: "tasks_ok d" and sl: "sl_cancelled sl"
  shows "d_store (drive_slot env i sl d) = d_store d" "d_failures (drive_slot env i sl d) = d_failures d"
    "map fst (d_tasks (drive_slot env i sl d)) =
       (if i < length (d_tasks d) \<and> fst (d_tasks d ! i) = Going then (map fst (d_tasks d))[i := Stopped] else map fst (d_tasks d))"
    "d_ended (drive_slot env i sl d) = d_ended d"
proof -
  have "d_store (drive_slot env i sl d) = d_store d \<and> d_failures (drive_slot env i sl d) = d_failures d \<and>
    map fst (d_tasks (drive_slot env i sl d)) =
       (if i < length (d_tasks d) \<and> fst (d_tasks d ! i) = Going then (map fst (d_tasks d))[i := Stopped] else map fst (d_tasks d)) \<and>
    d_ended (drive_slot env i sl d) = d_ended d"
  proof (cases "i < length (d_tasks d) \<and> fst (d_tasks d ! i) = Going")
    case True
    let ?x = "snd (d_tasks d ! i)"
    have "draws_ok ?x" using ok True by (auto simp: tasks_ok_def list_all_length split_beta)
    then have "0 < interval (r_pace (shared d ?x))" by (simp add: draws_ok_def)
    with sl obtain x' where "run_slot env sl (shared d ?x) = (Stopped, x')" "w_store (r_w x') = d_store d"
      by (rule run_slot_cancelled) simp
    with True show ?thesis by (simp add: drive_slot_def map_update)
  qed (auto simp: drive_slot_def)
  then show "d_store (drive_slot env i sl d) = d_store d" "d_failures (drive_slot env i sl d) = d_failures d"
    "map fst (d_tasks (drive_slot env i sl d)) =
       (if i < length (d_tasks d) \<and> fst (d_tasks d ! i) = Going then (map fst (d_tasks d))[i := Stopped] else map fst (d_tasks d))"
    "d_ended (drive_slot env i sl d) = d_ended d" by simp_all
qed

lemma drive_turns_cancelled:
  assumes "tasks_ok d" "list_all (sl_cancelled \<circ> snd) ts"
  shows "d_store (drive_turns env ts d) = d_store d \<and> d_failures (drive_turns env ts d) = d_failures d \<and>
    length (d_tasks (drive_turns env ts d)) = length (d_tasks d) \<and> tasks_ok (drive_turns env ts d) \<and>
    (\<forall>i < length (d_tasks d). fst (d_tasks (drive_turns env ts d) ! i) =
       (if fst (d_tasks d ! i) = Going \<and> i \<in> fst ` set ts then Stopped else fst (d_tasks d ! i)))"
  using assms
proof (induction ts arbitrary: d)
  case (Cons t ts)
  obtain i sl where t: "t = (i, sl)" by (cases t)
  have sl: "sl_cancelled sl" using Cons.prems(2) t by simp
  note one = drive_slot_cancelled [OF Cons.prems(1) sl, of env i]
  let ?d = "drive_slot env i sl d"
  have len: "length (d_tasks ?d) = length (d_tasks d)" using arg_cong [OF one(3), of length] by (auto split: if_splits)
  have st: "fst (d_tasks ?d ! j) = (if j = i \<and> fst (d_tasks d ! j) = Going then Stopped else fst (d_tasks d ! j))"
    if "j < length (d_tasks d)" for j
    using arg_cong [OF one(3), of "\<lambda>xs. xs ! j"] that len by (auto simp: nth_list_update split: if_splits)
  show ?case using Cons.IH [of ?d] tasks_ok_slot [OF Cons.prems(1)] Cons.prems(2) one(1,2) len st t by (auto split: if_splits)
qed simp

lemma drive_turns_ended:
  assumes "tasks_ok d" "list_all (sl_cancelled \<circ> snd) ts" "{..<length (d_tasks d)} \<subseteq> fst ` set ts"
  shows "drive_result (drive_turns env ts d) = Some (case d_failures d of [] \<Rightarrow> None | err # _ \<Rightarrow> Some err)"
    "d_store (drive_turns env ts d) = d_store d"
proof -
  note all = drive_turns_cancelled [OF assms(1,2), of env]
  have "fst (d_tasks d ! i) \<noteq> Panicked" if "i < length (d_tasks d)" for i
    using assms(1) that by (auto simp: tasks_ok_def list_all_length split_beta)
  with all assms(3) have "list_all (\<lambda>(st, x). st \<noteq> Going \<and> st \<noteq> Panicked) (d_tasks (drive_turns env ts d))"
    by (fastforce simp: list_all_length split_beta)
  with all show "drive_result (drive_turns env ts d) = Some (case d_failures d of [] \<Rightarrow> None | err # _ \<Rightarrow> Some err)"
    "d_store (drive_turns env ts d) = d_store d" by (simp_all add: drive_result_def)
qed

text \<open>Those turns are steps of a run whose context is over.\<close>

lemma drive_turns_steps:
  assumes "tasks_ok d" "list_all (sl_cancelled \<circ> snd) ts" "fst ` set ts \<subseteq> {..<length (d_tasks d)}" "d_ended d"
  shows "(drive_step env)\<^sup>*\<^sup>* d (drive_turns env ts d)"
  using assms
proof (induction ts arbitrary: d)
  case (Cons t ts)
  obtain i sl where t: "t = (i, sl)" by (cases t)
  have sl: "sl_cancelled sl" "i < length (d_tasks d)" using Cons.prems(2,3) t by auto
  note one = drive_slot_cancelled [OF Cons.prems(1) sl(1), of env i]
  have len: "length (d_tasks (drive_slot env i sl d)) = length (d_tasks d)"
    using arg_cong [OF one(3), of length] by (auto split: if_splits)
  have "drive_step env d (drive_slot env i sl d)" using sl Cons.prems(4) by (intro step_slot) auto
  moreover have "(drive_step env)\<^sup>*\<^sup>* (drive_slot env i sl d) (drive_turns env ts (drive_slot env i sl d))"
    using Cons.IH [OF tasks_ok_slot [OF Cons.prems(1)]] Cons.prems(2-4) one(4) len t by simp
  ultimately show ?case using t by (simp add: converse_rtranclp_into_rtranclp)
qed simp

text \<open>The writers of a run, after their claims.\<close>

lemma claim_fixed: "claim env w = (res, w') \<Longrightarrow> fixed_of w' = fixed_of w"
  by (auto simp: claim_def locate_def fixed_of_def split: prod.splits sum.splits)

lemma claim_all_fixed:
  assumes "claim_all env cfg buf ids s = (Inr ws, s')"
  shows "map fixed_of ws = map (\<lambda>lid. (lid, cfg_epoch cfg, cfg, buf)) ids"
  using assms
proof (induction ids arbitrary: s ws)
  case (Cons lid ids)
  obtain r w where c: "claim env (new_writer cfg buf lid s) = (r, w)" by (cases "claim env (new_writer cfg buf lid s)")
  with Cons.prems obtain ws1 where ws: "claim_all env cfg buf ids (w_store w) = (Inr ws1, s')" "ws = w # ws1"
    by (cases r) (auto simp: then_do_Inr)
  with Cons.IH claim_fixed [OF c] show ?case by (simp add: fixed_of_def new_writer_def)
qed simp

lemma start_drive_tasks: "length (d_tasks (start_drive start cfg ws s)) = length ws"
    "(st, x) \<in> set (d_tasks (start_drive start cfg ws s)) \<Longrightarrow> st = Going \<and> (\<exists>t. \<exists>w \<in> set ws. x = start_run t w)"
  by (auto simp: start_drive_def writer_starts_def dest: set_zip_rightD)

lemma start_tasks_ok:
  assumes "claim_all env cfg buf ids s = (Inr ws, s')" "config_ok cfg" "sizes_ok (cfg_sizes cfg)"
    and "int (length buf) = corpus_size (largest (cfg_sizes cfg))"
  shows "tasks_ok (start_drive start cfg ws s')"
proof -
  have "w_cfg w = cfg \<and> w_corpus w = buf" if "w \<in> set ws" for w
    using claim_all_fixed [OF assms(1)] that by (auto simp: fixed_of_def in_set_conv_nth list_eq_iff_nth_eq)
  then have "draws_ok (start_run t w)" if "w \<in> set ws" for t w
    using that assms(2-4) by (simp add: draws_ok_def start_run_def newPacer_def config_ok_def)
  then show ?thesis using start_drive_tasks(2) unfolding tasks_ok_def list_all_iff by fastforce
qed

section \<open>No writer loses its place\<close>

lemma call_later:
  assumes "usable_env env" "call_fits c"
  shows "store.later s (run_call env c s)"
  using holds_log_call [OF assms(1) _ assms(2)] by (auto simp: store.later_def)

lemma locate_later: "usable_env env \<Longrightarrow> store.later (w_store w) (w_store (snd (locate env w)))"
  using store.next_later [of env "w_id w" "w_store w"] by (auto simp: locate_def split: prod.split sum.split)

lemma resync_later: "usable_env env \<Longrightarrow> store.later (w_store w) (w_store (resync env w))"
  using locate_later [of env w] by (auto simp: resync_def note_w_def split: prod.split sum.split)

lemma append_batch_later:
  assumes env: "usable_env env" and fits: "batch_fits (w_next w) batch"
    and call: "append_batch env took ended batch w = (res, w')"
  shows "store.later (w_store w) (w_store w')"
proof -
  obtain r s where a: "Append env (w_id w) (w_epoch w) (w_next w) batch (w_store w) = (r, s)"
    by (cases "Append env (w_id w) (w_epoch w) (w_next w) batch (w_store w)")
  from store.append_later [OF env fits a] have l: "store.later (w_store w) s" .
  have "store.later s (w_store (resync env (w\<lparr>w_store := s, w_c := c\<rparr>)))" for c
    using resync_later [OF env, of "w\<lparr>w_store := s, w_c := c\<rparr>"] by simp
  then have "store.later (w_store w) (w_store (resync env (w\<lparr>w_store := s, w_c := c\<rparr>)))" for c
    using l store.later_trans by blast
  with l show ?thesis
    using call a by (cases r) (auto simp: append_batch_def Let_def note_w_def split: if_splits)
qed

lemma trim_behind_later: "usable_env env \<Longrightarrow> store.later (w_store w) (w_store (trim_behind env w))"
  using store.trim_later [of env "w_id w" _ "w_store w"]
  by (auto simp: trim_behind_def Let_def note_w_def split: prod.split sum.split)

text \<open>The batches of a turn stay below the largest seqno a \<open>bigint\<close> holds.\<close>

definition turn_fits :: "run_state \<Rightarrow> bool" where
  "turn_fits x \<longleftrightarrow> uint (w_next (r_w x)) + max (cfg_batch (w_cfg (r_w x))) (int (length (r_batch x))) \<le> bigint_max"

lemma run_slot_later:
  assumes env: "usable_env env" and run: "run_slot env sl x = (st, x')" and fits: "turn_fits x"
  shows "store.later (w_store (r_w x)) (w_store (r_w x'))"
  using run
proof (cases rule: run_slot_cases)
  case (sent p k batch)
  let ?y = "x\<lparr>r_pace := p, r_w := skip_slots k (r_w x)\<rparr>"
  have "length batch = nat (cfg_batch (w_cfg (r_w x))) \<or> length batch = length (r_batch x)"
    using sent(2) by (auto dest: fill_length split: if_splits)
  then have fit: "batch_fits (w_next (r_w ?y)) batch" using fits by (auto simp: batch_fits_def turn_fits_def)
  obtain r w where a: "append_batch env (sl_took sl) (sl_ended sl) batch (r_w ?y) = (r, w)"
    by (cases "append_batch env (sl_took sl) (sl_ended sl) batch (r_w ?y)")
  have "store.later (w_store (r_w x)) (w_store w)" using append_batch_later [OF env fit a] by simp
  moreover from this have "store.later (w_store (r_w x)) (w_store (trim_behind env w))"
    using trim_behind_later [OF env, of w] store.later_trans by blast
  ultimately show ?thesis using sent(1) a by (cases r) (auto simp: send_batch_def split: if_splits)
qed simp_all

definition places_ok :: "drive_state \<Rightarrow> bool" where
  "places_ok d \<longleftrightarrow>
     c_gaps (d_c d) = 0 \<and> (\<forall>(st, x) \<in> set (d_tasks d). store.reached (w_id (r_w x)) (w_next (r_w x)) (d_store d))"

definition drive_fits :: "drive_state \<Rightarrow> bool" where
  "drive_fits d \<longleftrightarrow> list_all (\<lambda>(st, x). turn_fits x) (d_tasks d)"

lemma places_ok_slot:
  assumes env: "usable_env env" and fits: "drive_fits d" and ok: "places_ok d"
  shows "places_ok (drive_slot env i sl d)"
proof (cases rule: drive_slot_cases [of env i sl d])
  case (turn x st x')
  have mem: "(Going, x) \<in> set (d_tasks d)" using turn(1,2) by (metis nth_mem)
  then have "turn_fits x" "store.reached (w_id (r_w x)) (w_next (r_w x)) (d_store d)"
    using fits ok by (auto simp: drive_fits_def places_ok_def list_all_iff)
  then have here: "turn_fits (shared d x)" "on_log (r_w (shared d x))" by (simp_all add: turn_fits_def on_log_def)
  have later: "store.later (d_store d) (w_store (r_w x'))" using run_slot_later [OF env turn(3) here(1)] by simp
  have k: "on_log (r_w x') \<and> same_writer (r_w (shared d x)) (r_w x')"
    using run_slot_keeps [OF env here(2) turn(3)] here(1) by (simp add: turn_fits_def)
  have "store.reached (w_id (r_w y)) (w_next (r_w y)) (w_store (r_w x'))" if "(su, y) \<in> set ((d_tasks d)[i := (st, x')])" for su y
  proof -
    from that have "(su, y) = (st, x') \<or> (su, y) \<in> set (d_tasks d)" using set_update_subset_insert by fastforce
    then show ?thesis using k ok later store.reached_later by (auto simp: on_log_def places_ok_def)
  qed
  moreover have "c_gaps (w_c (r_w x')) = 0" using k ok by (simp add: same_writer_def places_ok_def)
  ultimately show ?thesis using turn(4) by (auto simp: places_ok_def)
qed (use ok in simp)

lemma places_ok_step: "usable_env env \<Longrightarrow> drive_fits d \<Longrightarrow> drive_step env d d' \<Longrightarrow> places_ok d \<Longrightarrow> places_ok d'"
  by (erule drive_stepE) (auto simp: places_ok_slot, simp add: places_ok_def)

text \<open>After the claims every writer stands in its place.\<close>

lemma claim_later:
  assumes env: "usable_env env" and call: "claim env w = (res, w')"
  shows "store.later (w_store w) (w_store w')"
proof -
  obtain r s1 where f: "Fence env (w_id w) (w_epoch w) (w_store w) = (r, s1)"
    by (cases "Fence env (w_id w) (w_epoch w) (w_store w)")
  have "store.later (w_store w) s1" using call_later [OF env, of "Fence_call (w_id w) (w_epoch w)" "w_store w"] f by simp
  moreover have "store.later s1 (w_store (snd (locate env (w\<lparr>w_store := s1\<rparr>))))"
    using locate_later [OF env, of "w\<lparr>w_store := s1\<rparr>"] by simp
  ultimately show ?thesis using call f store.later_trans by (cases r) (auto simp: claim_def)
qed

lemma claim_all_reached:
  assumes "usable_env env" "good A s" "claim_all env cfg buf ids s = (Inr ws, s')"
  shows "store.later s s' \<and> (\<forall>w \<in> set ws. store.reached (w_id w) (w_next w) s')"
  using assms
proof (induction ids arbitrary: A s ws)
  case (Cons lid ids)
  let ?w = "new_writer cfg buf lid s"
  obtain r w where c: "claim env ?w = (r, w)" by (cases "claim env ?w")
  with Cons.prems(3) obtain ws1 where ws: "claim_all env cfg buf ids (w_store w) = (Inr ws1, s')" "ws = w # ws1" "r = Inr ()"
    by (cases r) (auto simp: then_do_Inr)
  have s: "w_store ?w = s" by (simp add: new_writer_def)
  have on: "on_log w" using claim_on_log [OF Cons.prems(1), of A ?w w] c ws(3) Cons.prems(2) s by simp
  then obtain A1 where "good A1 (w_store w)" by (auto simp: on_log_def store.reached_def holds_log_def)
  from Cons.IH [OF Cons.prems(1) this ws(1)]
  have rest: "store.later (w_store w) s'" "\<forall>w \<in> set ws1. store.reached (w_id w) (w_next w) s'" by simp_all
  have "store.later s (w_store w)" using claim_later [OF Cons.prems(1) c] s by simp
  then have "store.later s s'" using rest(1) by (rule store.later_trans)
  moreover have "store.reached (w_id w) (w_next w) s'"
    using store.reached_later [OF rest(1) on [unfolded on_log_def]] .
  ultimately show ?case using rest(2) by (simp add: ws(2))
qed simp

lemma start_places_ok:
  assumes "usable_env env" "good A s" "claim_all env cfg buf ids s = (Inr ws, s')"
  shows "places_ok (start_drive start cfg ws s')"
proof -
  have "store.reached (w_id (r_w x)) (w_next (r_w x)) s'" if "(st, x) \<in> set (d_tasks (start_drive start cfg ws s'))" for st x
    using start_drive_tasks(2) [OF that] claim_all_reached [OF assms] by (auto simp: start_run_def)
  then show ?thesis by (auto simp: places_ok_def) (simp_all add: start_drive_def no_counters_def)
qed

section \<open>A run that starts\<close>

text \<open>
  What is asked of pgx and of the random source: pgx accepts the DSN and builds a pool of at least one
  connection; the bytes come, as many as asked for.
\<close>

definition pgx_opens :: "pgx \<Rightarrow> config \<Rightarrow> bool" where
  "pgx_opens P cfg \<longleftrightarrow>
     (\<exists>given. ParseConfig P (cfg_dsn cfg) = Inr given) \<and> (\<forall>pc. 1 \<le> MaxConns pc \<longrightarrow> NewWithConfig P pc = None)"

definition random_fills :: "(nat \<Rightarrow> goerr + bytes) \<Rightarrow> bool" where
  "random_fills random \<longleftrightarrow> (\<forall>n. \<exists>buf. random n = Inr buf \<and> length buf = n)"

lemma int32_small: "0 \<le> n \<Longrightarrow> n < 2 ^ 31 \<Longrightarrow> int32 n = n"
  by (simp add: int32_def signed_take_bit_int_eq_self_iff sint_sbintrunc')

lemma openPool_quiet:
  assumes "quiet env" "pgx_opens P cfg" "1 \<le> cfg_conns cfg" "cfg_conns cfg < 2 ^ 31"
  obtains pc n where "openPool P env cfg s = (Inr (pc, cfg\<lparr>cfg_cache := n\<rparr>), tick s)"
proof -
  from assms(2) obtain given where "ParseConfig P (cfg_dsn cfg) = Inr given" "\<forall>pc. 1 \<le> MaxConns pc \<longrightarrow> NewWithConfig P pc = None"
    by (auto simp: pgx_opens_def)
  then show ?thesis using int32_small [of "cfg_conns cfg"] assms(3,4)
    by (intro that) (simp add: openPool_def Let_def pg_call_quiet [OF assms(1)] sql_nop_def)
qed

lemma cache_simps [simp]:
  "log_ids (cfg\<lparr>cfg_cache := n\<rparr>) = log_ids cfg" "config_ok (cfg\<lparr>cfg_cache := n\<rparr>) = config_ok cfg"
  by (simp_all add: log_ids_def config_ok_def)

lemma start_load_quiet:
  assumes env: "quiet env" "pgx_opens P cfg" "random_fills random" "goose_applies G"
    and cfg: "config_ok cfg" "cfg_migrate cfg" "check_ids (log_ids cfg) = None" "0 < int64 (cfg_epoch cfg)"
      "1 \<le> cfg_conns cfg" "cfg_conns cfg < 2 ^ 31"
    and s: "empty_schema (sdb s) \<and> A = Map.empty \<or> good A s \<and> records (sdb s)"
    and own: "\<forall>lid \<in> set (log_ids cfg). \<forall>l. A lid = Some l \<longrightarrow> a_owner l \<le> int64 (cfg_epoch cfg)"
  shows "\<exists>n buf ws s'. start_load P G random wild start env cfg s =
      (Inr (plan wild (cfg\<lparr>cfg_cache := n\<rparr>) ws, start_drive start (cfg\<lparr>cfg_cache := n\<rparr>) ws s'), s') \<and>
    map fixed_of ws = map (\<lambda>lid. (lid, cfg_epoch cfg, cfg\<lparr>cfg_cache := n\<rparr>, buf)) (log_ids cfg) \<and>
    int (length buf) = corpus_size (largest (cfg_sizes cfg)) \<and>
    good (taken (log_ids cfg) (int64 (cfg_epoch cfg)) (created (log_ids cfg) A)) s' \<and>
    (\<forall>w \<in> set ws. \<forall>l. created (log_ids cfg) A (w_id w) = Some l \<longrightarrow> uint (w_next w) = int (length (a_hist l)) + 1)"
proof -
  from env(1,2) cfg(5,6) obtain pc n where pool: "openPool P env cfg s = (Inr (pc, cfg\<lparr>cfg_cache := n\<rparr>), tick s)"
    by (rule openPool_quiet)
  let ?cfg = "cfg\<lparr>cfg_cache := n\<rparr>" and ?e = "int64 (cfg_epoch cfg)"
  obtain s1 where prep: "prepare G env ?cfg (tick s) = (Inr (log_ids cfg), s1)" "good (created (log_ids cfg) A) s1"
    using prepare_quiet [OF env(1,4), of ?cfg "tick s" A] cfg(1-3) s by (auto simp: config_ok_def)
  have "0 \<le> corpus_size (largest (cfg_sizes cfg))" by (simp add: corpus_size_def)
  then obtain buf where buf: "newCorpus random (largest (cfg_sizes cfg)) = Inr buf" "int (length buf) = corpus_size (largest (cfg_sizes cfg))"
    using env(3) unfolding random_fills_def newCorpus_def by (metis int_nat_eq)
  have "\<forall>lid \<in> set (log_ids cfg). checkLogID lid = None \<and> (\<exists>l. created (log_ids cfg) A lid = Some l \<and> a_owner l \<le> ?e)"
    using check_ids_None [OF cfg(3)] cfg(4) own by (fastforce simp: created_def new_log_def)
  then obtain ws s' where ws: "claim_all env ?cfg buf (log_ids cfg) s1 = (Inr ws, s')"
    "good (taken (log_ids cfg) ?e (created (log_ids cfg) A)) s'"
    "\<forall>w \<in> set ws. \<forall>l. created (log_ids cfg) A (w_id w) = Some l \<longrightarrow> uint (w_next w) = int (length (a_hist l)) + 1"
    using claim_all_quiet [where cfg = ?cfg and buf = buf, OF env(1) prep(2) log_ids_distinct [of cfg]] cfg(4) by auto
  have "start_load P G random wild start env cfg s = (Inr (plan wild ?cfg ws, start_drive start ?cfg ws s'), s')"
    using pool prep(1) buf(1) ws(1) by (simp add: start_load_def)
  with ws(2,3) buf(2) claim_all_fixed [OF ws(1)] show ?thesis by (intro exI [of _ n] exI [of _ buf] exI [of _ ws] exI [of _ s']) simp
qed

text \<open>
  However a run starts, with whatever failing and whoever else writing: if it does, every writer can draw,
  because the corpus has the size its largest class asks for.
\<close>

lemma start_load_draws:
  assumes "start_load P G random wild start env cfg s = (Inr (msg, d), s')"
    and cfg: "config_ok cfg" "sizes_ok (cfg_sizes cfg)" and random: "\<forall>n buf. random n = Inr buf \<longrightarrow> length buf = n"
  shows "tasks_ok d"
proof -
  from assms(1) obtain pc cfg1 s1 ids s2 buf s3 ws where o: "openPool P env cfg s = (Inr (pc, cfg1), s1)"
    and b: "newCorpus random (largest (cfg_sizes cfg1)) = Inr buf"
    and c: "claim_all env cfg1 buf ids s2 = (Inr ws, s3)" and d: "d = start_drive start cfg1 ws s3"
    by (auto simp: start_load_def then_do_Inr)
  from o obtain n where cfg1: "cfg1 = cfg\<lparr>cfg_cache := n\<rparr>"
    by (auto simp: openPool_def Let_def then_do_Inr split: sum.splits option.splits)
  have "0 \<le> corpus_size (largest (cfg_sizes cfg))" by (simp add: corpus_size_def)
  moreover have "length buf = nat (corpus_size (largest (cfg_sizes cfg1)))" using b random unfolding newCorpus_def by blast
  ultimately have "int (length buf) = corpus_size (largest (cfg_sizes cfg1))" using cfg1 by simp
  then show ?thesis unfolding d using start_tasks_ok [OF c] cfg cfg1 by simp
qed

end
