(* ===== verification/Samples.thy ===== *)
theory Samples
  imports Schema Quiet_Calls
begin

text \<open>
  A small run of a store, evaluated: a migrated schema, a log created in it, fenced, written to
  and trimmed, each state with the abstract logs it represents. The properties are applied to
  these states.
\<close>

section \<open>A run\<close>

definition sample_new :: sys where
  "sample_new =
     \<lparr>sdb = \<lparr>registry = Some [], next_ordinal = 1, tables = (\<lambda>_. None), version_table = Some [0, 1]\<rparr>,
      clk = 0, appends = (\<lambda>_. None)\<rparr>"

definition sample_created :: sys where
  "sample_created = snd (CreateLogs calm [''a''] sample_new)"

definition sample_fenced :: sys where
  "sample_fenced = snd (Fence calm ''a'' 3 sample_created)"

definition sample_written :: sys where
  "sample_written = snd (Append calm ''a'' 3 1 [[1, 2], [], [9]] sample_fenced)"

definition sample_trimmed :: sys where
  "sample_trimmed = snd (Trim calm ''a'' 1 sample_written)"

text \<open>Somebody fences the log at epoch 4 right after the first statement of the next call.\<close>

definition fenced_meanwhile :: env where
  "fenced_meanwhile = calm\<lparr>interfere := (\<lambda>t d. if t = clk sample_written + 1 then snd (sql_fence ''a'' (int64 4) d) else d)\<rparr>"

text \<open>The log of the run, fenced, written and trimmed.\<close>

definition log_fenced :: alog where
  "log_fenced = \<lparr>a_owner = 3, a_trim = 0, a_hist = []\<rparr>"

definition log_written :: alog where
  "log_written = \<lparr>a_owner = 3, a_trim = 0, a_hist = [(3, [1, 2]), (3, []), (3, [9])]\<rparr>"

definition log_trimmed :: alog where
  "log_trimmed = \<lparr>a_owner = 3, a_trim = 1, a_hist = [(3, [1, 2]), (3, []), (3, [9])]\<rparr>"

lemma sample_new_good: "good Map.empty sample_new"
  by (simp add: good_def db_rel_def cache_ok_def sample_new_def)

lemma sample_created_run: "CreateLogs calm [''a''] sample_new = (Inr (), sample_created)"
  unfolding sample_created_def by (rule prod_eqI) (code_simp, simp)

lemma sample_fenced_run: "Fence calm ''a'' 3 sample_created = (Inr (), sample_fenced)"
  unfolding sample_fenced_def by (rule prod_eqI) (code_simp, simp)

lemma sample_written_run: "Append calm ''a'' 3 1 [[1, 2], [], [9]] sample_fenced = (Inr (), sample_written)"
  unfolding sample_written_def by (rule prod_eqI) (code_simp, simp)

lemma sample_trimmed_run: "Trim calm ''a'' 1 sample_written = (Inr (), sample_trimmed)"
  unfolding sample_trimmed_def by (rule prod_eqI) (code_simp, simp)

lemma sample_created_good: "good [''a'' \<mapsto> new_log] sample_created"
proof -
  have "good (created [''a''] Map.empty) sample_created"
    by (rule quiet_create [OF quiet_calm sample_new_good sample_created_run]) simp
  moreover have "created [''a''] Map.empty = [''a'' \<mapsto> new_log]"
    by (auto simp: created_def fun_eq_iff)
  ultimately show ?thesis by simp
qed

lemma sample_fenced_good: "good [''a'' \<mapsto> log_fenced] sample_fenced"
  using quiet_fence(1) [OF quiet_calm sample_created_good sample_fenced_run, of new_log]
  by (simp add: log_fenced_def new_log_def int64_def)

lemma sample_written_good: "good [''a'' \<mapsto> log_written] sample_written"
  using quiet_append [OF quiet_calm sample_fenced_good _ sample_written_run, of log_fenced]
  by (simp add: log_fenced_def log_written_def int64_def batch_fits_def)

lemma sample_trimmed_good: "good [''a'' \<mapsto> log_trimmed] sample_trimmed"
  using quiet_trim [OF quiet_calm sample_written_good sample_trimmed_run, of log_written]
  by (simp add: log_trimmed_def log_written_def int64_def trim_to_def)

lemma rely_calm [simp]: "rely calm"
  by (rule quiet_rely [OF quiet_calm])

lemma faultless_calm [simp]: "faultless calm"
  by (rule quiet_faultless [OF quiet_calm])

lemma decodes_calm [simp]: "decodes calm"
  using quiet_calm by (simp add: quiet_def)

section \<open>A ring that has turned\<close>

text \<open>
  Tables with entries in both halves: entries 1 and 2 in slot 0, entries 3 and 4 in slot 1,
  which is the current one.
\<close>

definition log_turned :: alog where
  "log_turned = \<lparr>a_owner = 3, a_trim = 0, a_hist = [(3, [1]), (3, [2]), (3, [3]), (3, [4])]\<rparr>"

definition row_turned :: reg_row where
  "row_turned = \<lparr>log_id = ''a'', ordinal = 1, epoch = 3, last_seqno = 4, trim_upto = 0, cur_slot = 1,
     cur_lo = 3, prev_hi = 2\<rparr>"

definition sample_turned :: sys where
  "sample_turned =
     \<lparr>sdb = \<lparr>registry = Some [row_turned], next_ordinal = 2,
        tables = (\<lambda>_. None)(entriesTable 1 0 := Some (run_rows (a_hist log_turned) 1 3),
                            entriesTable 1 1 := Some (run_rows (a_hist log_turned) 3 5)),
        version_table = Some [0, 1]\<rparr>,
      clk = 0, appends = (\<lambda>_. None)\<rparr>"

lemma sample_turned_find: "find_log ''a'' (sdb sample_turned) = Some row_turned"
  by (simp add: find_log_def sample_turned_def row_turned_def)

lemma sample_turned_good: "good [''a'' \<mapsto> log_turned] sample_turned"
proof -
  let ?T = "tables (sdb sample_turned)"
  have "ring_holds (a_hist log_turned) row_turned ?T"
    unfolding ring_holds_def
    by (auto simp: row_turned_def sample_turned_def log_turned_def eval_nat_numeral intro!: exI [of _ 1])
  then have "log_rel log_turned row_turned ?T"
    by (simp add: log_rel_def row_ok_def row_turned_def epochs_ok_def) (simp add: log_turned_def)
  then show ?thesis
    by (auto simp: good_def db_rel_def cache_ok_def sample_turned_def row_turned_def)
qed

text \<open>A ring whose live half is full and whose other half is empty.\<close>

definition log_full :: alog where
  "log_full = \<lparr>a_owner = 3, a_trim = 0, a_hist = replicate 4096 (3, [])\<rparr>"

definition row_full :: reg_row where
  "row_full = \<lparr>log_id = ''a'', ordinal = 1, epoch = 3, last_seqno = 4096, trim_upto = 0, cur_slot = 0,
     cur_lo = 1, prev_hi = 0\<rparr>"

definition sample_full :: sys where
  "sample_full =
     \<lparr>sdb = \<lparr>registry = Some [row_full], next_ordinal = 2,
        tables = (\<lambda>_. None)(entriesTable 1 0 := Some (run_rows (a_hist log_full) 1 4097), entriesTable 1 1 := Some []),
        version_table = Some [0, 1]\<rparr>,
      clk = 0, appends = (\<lambda>_. None)\<rparr>"

lemma sample_full_find: "find_log ''a'' (sdb sample_full) = Some row_full"
  by (simp add: find_log_def sample_full_def row_full_def)

lemma row_full_ok: "row_ok row_full"
  by (simp add: row_ok_def row_full_def)

lemma sample_full_turns: "snd (reclaimSteps (row_state row_full) True)"
  using row_state_ringFull [OF row_full_ok] row_state_prevHi [OF row_full_ok]
  by (simp add: reclaimSteps_rotate row_full_def)

lemma sample_full_good: "good [''a'' \<mapsto> log_full] sample_full"
proof -
  let ?T = "tables (sdb sample_full)" and ?h = "a_hist log_full"
  have len: "length ?h = 4096" by (simp add: log_full_def)
  have t: "?T (entriesTable 1 0) = Some (run_rows ?h 1 4097)" "?T (entriesTable 1 1) = Some []"
    by (simp_all add: sample_full_def)
  have "ring_holds ?h row_full ?T"
    unfolding ring_holds_def len by (rule conjI) (use t in \<open>auto simp: row_full_def intro!: exI [of _ 1]\<close>)
  moreover have "epochs_ok ?h 3"
    by (simp add: epochs_ok_def log_full_def sorted_replicate)
  ultimately have "log_rel log_full row_full ?T"
    using row_full_ok len by (simp add: log_rel_def row_full_def) (simp add: log_full_def)
  then show ?thesis
    by (auto simp: good_def db_rel_def cache_ok_def sample_full_def row_full_def)
qed

text \<open>Somebody trims the turned ring to 2 and reclaims it before the second statement of a call.\<close>

definition trimmed_meanwhile :: env where
  "trimmed_meanwhile =
     calm\<lparr>interfere := (\<lambda>t d. if t = 1 then reclaimed ''a'' True (snd (sql_trim (int64 2) ''a'' d)) else d)\<rparr>"

section \<open>Reachable tables\<close>

lemma sample_new_reachable: "reachable (sdb sample_new)"
  by (auto simp: reachable_def initial_def sample_new_def intro!: exI [of _ "sdb sample_new"])

lemma sample_written_calls:
  "sample_written = run_calls calm [Create_call [''a''], Fence_call ''a'' 3, Append_call ''a'' 3 1 [[1, 2], [], [9]]] sample_new"
  by (simp add: sample_written_def sample_fenced_def sample_created_def)

lemma sample_written_reachable: "reachable (sdb sample_written)"
proof -
  let ?cs = "[Create_call [''a''], Fence_call ''a'' 3, Append_call ''a'' 3 1 [[1, 2], [], [9]]]"
  have "db_steps (sdb sample_new) (sdb (run_calls calm ?cs sample_new))"
    using calls_guarantee [OF rely_calm decodes_calm sample_new_good, of ?cs] by (simp add: batch_fits_def)
  then show ?thesis
    using reachable_steps [OF sample_new_reachable] unfolding sample_written_calls by blast
qed

text \<open>The log's row and its rows, evaluated.\<close>

definition row_written :: reg_row where
  "row_written = \<lparr>log_id = ''a'', ordinal = 1, epoch = 3, last_seqno = 3, trim_upto = 0, cur_slot = 0,
     cur_lo = 1, prev_hi = 0\<rparr>"

definition rows_written :: "entry_row list" where
  "rows_written =
     [\<lparr>row_seqno = 1, row_chunk = 0, row_epoch = 3, row_payload = [1, 2]\<rparr>,
      \<lparr>row_seqno = 2, row_chunk = 0, row_epoch = 3, row_payload = []\<rparr>,
      \<lparr>row_seqno = 3, row_chunk = 0, row_epoch = 3, row_payload = [9]\<rparr>]"

lemma sample_written_find: "find_log ''a'' (sdb sample_written) = Some row_written"
  by code_simp

lemma sample_written_table:
  "tables (sdb sample_written) (entriesTable 1 0) = Some rows_written"
  "tables (sdb sample_written) (entriesTable 1 1) = Some []"
  by code_simp+

end
