(* ===== verification/Load_Samples.thy ===== *)
theory Load_Samples
  imports Load_Drive Samples
begin

text \<open>
  A small configuration of the load generator and runs of it, evaluated; the properties of the
  load generator are applied to them.
\<close>

definition sample_flags :: "flags" where
  "sample_flags = \<lparr>f_sizes = ''1:2, 2'', f_dsn = ''db'', f_schema = ''load'', f_prefix = ''a'', f_logs = 2, f_rps = Fin 2000000,
     f_batch = 1, f_retain = 2, f_epoch = 3, f_conns = 0, f_timeout = 10000000000, f_report = 5000000000,
     f_duration = 0, f_migrate = True\<rparr>"

definition sample_sizes :: sizes where
  "sample_sizes = \<lparr>classes = [\<lparr>sc_bytes = 1, sc_weight = 2\<rparr>, \<lparr>sc_bytes = 2, sc_weight = 1\<rparr>], cum = [2, 3], sz_total = 3\<rparr>"

definition sample_config :: "config" where
  "sample_config = \<lparr>cfg_dsn = ''db'', cfg_schema = ''load'', cfg_prefix = ''a'', cfg_logs = 2, cfg_rps = Fin 2000000,
     cfg_batch = 1, cfg_sizes = sample_sizes, cfg_retain = 2, cfg_stride = 1, cfg_epoch = 3, cfg_conns = 3,
     cfg_timeout = 10000000000, cfg_catchup = 1000000000, cfg_report = 5000000000, cfg_duration = 0,
     cfg_migrate = True, cfg_interval = 1000, cfg_cache = 0\<rparr>"

lemma sample_config_simps:
  "cfg_batch sample_config = 1" "cfg_retain sample_config = 2" "cfg_stride sample_config = 1"
  "cfg_epoch sample_config = 3" "int64 3 = 3" "a_hist new_log = []" "a_owner new_log = 0" "a_trim new_log = 0"
  by (simp_all add: sample_config_def int64_def new_log_def)

lemma sample_config_parsed: "parseFlags (\<lambda>_. 0) 7 sample_flags = Inr sample_config"
  by code_simp

lemma sample_sizes_parsed: "parseSizes ''1:2, 2'' = Inr sample_sizes"
  by code_simp

lemma sample_sizes_ok: "sizes_ok sample_sizes"
  by (simp add: sizes_ok_def sample_sizes_def maxPayload_def)

text \<open>A slot that draws its entry at an offset of the corpus, and a writer over a small corpus.\<close>

definition sample_slot :: "nat \<Rightarrow> slot" where
  "sample_slot off = \<lparr>sl_now = 0, sl_cancelled = False, sl_draws = (\<lambda>_. (0, off)), sl_took = 5000, sl_ended = False\<rparr>"

definition sample_slots :: "slot list" where
  "sample_slots = map sample_slot [0, 1, 2, 3]"

lemma sample_slots_simps:
  "length sample_slots = 4" "sample_slots \<noteq> []" "list_all (\<lambda>sl. \<not> sl_cancelled sl) sample_slots"
  by (simp_all add: sample_slots_def sample_slot_def)

definition sample_writer :: "writer" where
  "sample_writer = snd (claim calm (new_writer sample_config [1, 2, 3, 4] ''a'' sample_created))"

lemma sample_writer_claimed:
  "claim calm (new_writer sample_config [1, 2, 3, 4] ''a'' sample_created) = (Inr (), sample_writer)"
  unfolding sample_writer_def by (rule prod_eqI) (code_simp, simp)

text \<open>The connection is lost once, after the first append had taken effect.\<close>

definition landed_once :: env where
  "landed_once = calm\<lparr>outcome_of := (\<lambda>t. if t = clk (w_store sample_writer) then Landed 0 else Runs)\<rparr>"

definition sample_run :: "status \<times> run_state" where
  "sample_run = run_slots landed_once [sample_slot 0, sample_slot 1, sample_slot 2] (start_run 0 sample_writer)"

lemma usable_calm: "usable_env calm"
  by (simp add: usable_env_def)

text \<open>A corpus of the size a run has.\<close>

definition sample_corpus :: bytes where
  "sample_corpus = replicate 1048576 7"

lemma sample_corpus_size: "int (length sample_corpus) = corpus_size (largest sample_sizes)"
  by (simp add: sample_corpus_def corpus_size_def largest_def sample_sizes_def)

text \<open>The same writer as the one task of a run, and a run over a corpus of the right size.\<close>

definition sample_stop :: slot where
  "sample_stop = (sample_slot 0)\<lparr>sl_cancelled := True\<rparr>"

lemma sample_claim_all:
  "claim_all calm sample_config [1, 2, 3, 4] [''a''] sample_created = (Inr [sample_writer], w_store sample_writer)"
  by (simp add: sample_writer_claimed)

definition sample_drive :: drive_state where
  "sample_drive = start_drive 0 sample_config [sample_writer] (w_store sample_writer)"

lemma sample_claimed:
  obtains ws s where "claim_all calm sample_config sample_corpus [''a''] sample_created = (Inr ws, s)" "length ws = 1"
proof -
  have "checkLogID ''a'' = None" by code_simp
  then have "\<forall>lid \<in> set [''a'']. checkLogID lid = None \<and>
      (\<exists>l. [''a'' \<mapsto> new_log] lid = Some l \<and> a_owner l \<le> int64 (cfg_epoch sample_config))"
    by (simp add: sample_config_simps)
  moreover have "0 < int64 (cfg_epoch sample_config)" by (simp add: sample_config_simps)
  ultimately obtain ws s where "claim_all calm sample_config sample_corpus [''a''] sample_created = (Inr ws, s)" "map w_id ws = [''a'']"
    using claim_all_quiet [OF quiet_calm sample_created_good, of "[''a'']" sample_config sample_corpus]
    by (force simp del: claim_all.simps)
  then show ?thesis by (intro that [of ws s]) auto
qed

text \<open>A pgx that opens every pool it can, a random source, and a schema without tables.\<close>

definition sample_pgx :: pgx where
  "sample_pgx =
     \<lparr>ParseConfig = (\<lambda>_. Inr \<lparr>StatementCacheCapacity = 512, MaxConns = 4, MinConns = 0, search_path = None\<rparr>),
      NewWithConfig = (\<lambda>pc. if MaxConns pc < 1 then Some (DriverError 0) else None)\<rparr>"

definition sample_random :: "nat \<Rightarrow> goerr + bytes" where
  "sample_random n = Inr (replicate n 7)"

definition sample_empty :: sys where
  "sample_empty = sample_new\<lparr>sdb := (sdb sample_new)\<lparr>registry := None, version_table := None\<rparr>\<rparr>"

lemma sample_load_starts:
  obtains msg d s' where "start_load sample_pgx plain_goose sample_random (\<lambda>_. 0) 0 calm sample_config sample_empty = (Inr (msg, d), s')"
proof -
  have "check_ids (log_ids sample_config) = None" by code_simp
  moreover have "0 < int64 (cfg_epoch sample_config)" "cfg_migrate sample_config" "1 \<le> cfg_conns sample_config"
    "cfg_conns sample_config < 2 ^ 31" by (simp_all add: sample_config_def int64_def)
  moreover have "pgx_opens sample_pgx sample_config" "random_fills sample_random"
    by (simp_all add: pgx_opens_def sample_pgx_def random_fills_def sample_random_def)
  moreover have "empty_schema (sdb sample_empty)" by (simp add: empty_schema_def sample_empty_def sample_new_def)
  ultimately show ?thesis
    using that start_load_quiet [OF quiet_calm _ _ plain_goose_applies parseFlags_ok [OF sample_config_parsed],
        where A = Map.empty and s = sample_empty and P = sample_pgx and random = sample_random and wild = "\<lambda>_. 0" and start = 0]
    by fastforce
qed

end
