(* ===== verification/Spec2Isabelle.thy ===== *)
theory Spec2Isabelle
  imports Load_Samples
begin

text \<open>
  Verification of pgnotch, a Go library that keeps append-only logs with fenced ownership in
  PostgreSQL, and of the load generator that comes with it.

  \<^bold>\<open>The program.\<close> A log is a row of the registry table and a ring of two entry tables. A writer
  claims a log by fencing it at an epoch; an append carries the epoch and the first seqno of
  its batch and is one SQL statement that moves the row's last seqno and inserts the entry
  rows, or does nothing. An entry over 8000 bytes is several rows. A trim moves a watermark;
  reclaiming truncates the older half of a ring once the watermark is past it and turns the
  ring when the live half is full. The load generator migrates a schema, creates and claims
  logs, and appends to each at a fixed rate, trimming behind itself.

  \<^bold>\<open>The theories, in the order of their imports.\<close>
    \<^item> \<open>Prelude\<close>: machine integers and their conversions, results of fallible code, list lemmas.
      \<open>Go_Text\<close>: UTF-8 validity and decimal text. \<open>Go_Float\<close>: \<open>float64\<close> as rationals rounded half to
      even at 53 bits, infinities and not-a-number, its conversions and its printed forms.
    \<^item> \<open>Log_Ids\<close> (\<open>log.go\<close>): types, errors and their rank, \<open>checkLogID\<close>. \<open>Refuse\<close> (\<open>refuse.go\<close>): the checks
      and refusals. \<open>Ring_Rules\<close> (\<open>ring.go\<close>): the state of a ring and when it is reclaimed.
      \<open>Chunks\<close> (\<open>chunkArrays\<close>, \<open>chunksOf\<close> and the row loop of \<open>ReadFrom\<close> in \<open>store.go\<close>).
    \<^item> \<open>Registry\<close>: the tables and each SQL statement of \<open>store.go\<close> as a function on them. \<open>Driver\<close>: a
      call to the database in an environment that decides, call by call, what other sessions did
      before it and whether it ran, was lost, or took effect and was lost.
      \<open>Store_Ops\<close> (\<open>store.go\<close>): every operation, call by call, with the statement cache.
    \<^item> \<open>Log_Spec\<close>: what a log is, with neither rows nor rings: an owner, a history, a watermark, and
      the steps of it. \<open>Statements\<close>: each SQL statement refines a step. \<open>Sessions\<close>: the steps any
      session can take on the tables, and the simulation of them by steps of abstract logs.
    \<^item> \<open>Calls\<close>, \<open>Append_Contract\<close>, \<open>Fence_Contract\<close>, \<open>Read_Contract\<close>, \<open>Trim_Contract\<close>,
      \<open>Create_Contract\<close>: for each operation, everything that can have happened when it returns, for
      every behaviour of the others (\<open>rely\<close>) and every failure. \<open>Guarantee\<close>: operations only take
      such steps themselves, so the contracts hold for stores beside each other. \<open>Quiet_Calls\<close>: the
      contracts where nobody else writes and no call fails.
    \<^item> \<open>Schema\<close> (\<open>schema.go\<close>, \<open>Open\<close>, \<open>migrations/00001_registry.sql\<close>): opening, migrating, dropping.
    \<^item> \<open>Load_Sizes\<close>, \<open>Load_Rate\<close>, \<open>Load_Stats\<close>, \<open>Load_Config\<close>, \<open>Load_Writer\<close>: the files \<open>sizes.go\<close>,
      \<open>rate.go\<close>, \<open>stats.go\<close>, \<open>main.go\<close> and \<open>writer.go\<close> of \<open>cmd/pgnotch-load\<close>. \<open>Load_Report\<close>: what it prints
      (\<open>line\<close>, \<open>humanBytes\<close>, \<open>shortDuration\<close>, \<open>report\<close>, \<open>plan\<close>). \<open>Load_Run\<close>: starting a load and running it
      undisturbed. \<open>Load_Drive\<close>: \<open>openPool\<close>, \<open>run\<close> and \<open>drive\<close>, the writers side by side as a step relation.
    \<^item> \<open>Samples\<close>, \<open>Load_Samples\<close>: concrete states and runs, evaluated, for the witnesses.

  \<^bold>\<open>Interfaces.\<close> \<open>payload_codec\<close> (what cutting a payload promises), \<open>table_naming\<close> (no two entry tables
  share a name), \<open>monotone_steps\<close> and \<open>forward_simulation\<close> (what step relations keep), \<open>append_log\<close>
  (what a writer relies on of the store) are locales, each interpreted on the definitions of the
  program.

  \<^bold>\<open>State.\<close> A \<open>sys\<close> is a \<open>Store\<close> over its pool: the tables, the number of calls made, the cache of
  append statements. \<open>good A s\<close> says the tables represent the logs \<open>A\<close> and the cache is right;
  \<open>untouched\<close>, that only others changed the tables; \<open>at_moment\<close>, that up to a moment of a call only
  others had, and which logs the tables represent there; \<open>wrote\<close>, that a batch was added at one moment;
  \<open>statement_at\<close>, the tables the statement of an append meets.
  Words of 64 bits are Go's \<open>uint64\<close>; a PostgreSQL \<open>bigint\<close> is the integer it denotes, and the
  conversions between them are written out where the code makes them.

  \<^bold>\<open>What is shown below.\<close> An append is atomic, is cut off by a later fence, never writes a seqno
  twice, and can be read back; a refusal is true and the right one; a read returns a run of
  whole entries; trimming and reclaiming change nothing but the watermark and free what is
  below it; creation is all or nothing; stores compose; every reachable schema has no gaps, no
  falling epochs, no row over a page; migrating, opening, dropping and the down migration. For
  the load generator: it starts, it writes what it is asked to in bounded space, its writers side
  by side never meet a gap, it fails only when a log is lost to another epoch, and it ends once
  it is told to; a load that starts never panics, and its interval is the one asked for but for
  rounding; it keeps its rate and its burst limit, draws by weight, counts what it does, and prints
  its numbers right to the digit.

  \<^bold>\<open>Bounds.\<close> \<open>batch_fits\<close>: a batch ends below two to the 63, the largest \<open>bigint\<close>. \<open>readable\<close>: a payload of at
  most 262,144,000 bytes, whose chunks sixteen bits number. Beyond these the code misbehaves,
  which is shown as well (\<open>trim_wide_mark\<close>, \<open>fence_wide_epoch\<close>, \<open>read_wide_limit\<close>,
  \<open>read_from_wraps\<close>, \<open>oversized_payload_unreadable\<close>). \<open>Append\<close> is given payloads that are not nil; \<open>Append_slices\<close>
  is the append of a batch with nil payloads, which PostgreSQL refuses (\<open>nil_payload_refused\<close>). No definition needs fuel: loops recurse on their
  data or have a measure, and the writer's unbounded loop is taken slot by slot.

  \<^bold>\<open>Parameters.\<close> How the driver decodes a \<open>bigint\<close> into an unsigned variable (\<open>decodes\<close>), what goose
  does (\<open>goose_applies\<close>: it applies the migration where its version table does not record it), what pgx
  makes of a DSN and a pool (\<open>pgx_opens\<close>: it builds pools of at least one connection), the system's random
  source (\<open>random_fills\<close>), the clock, the random numbers, the text of an error, and what a
  conversion of a \<open>float64\<close> out of an integer's range gives (\<open>wild\<close>, which Go leaves to the machine) are
  arguments.

  \<^bold>\<open>Not modelled.\<close> The text of errors; the \<open>flag\<close> package's reading of arguments, whose result
  \<open>run_load\<close> is given; \<open>doc.go\<close>, which has no code; the tests. A signal, the deadline of a run and the choice
  of the writer that goes next are steps that may happen at any time; a writer's turn is one step, in
  which the calls of the others fall between its own. The deadline of a call is one of its
  failures. Inside a transaction PostgreSQL's row locks are taken as given: what others do is put before
  its first statement or after its commit.
\<close>

section \<open>Appending\<close>

text \<open>
  C1: An append is one atomic unit. For a batch that ends below two to the 63, whatever other sessions
  do meanwhile and whichever calls fail, either the whole batch was added, at one moment, to a log that was then the caller's
  epoch's and ended just below the batch, and the answer is nil or a lost connection; or the
  tables are untouched by this call, and the answer is an error.
\<close>

theorem append_atomic:
  assumes "rely env" "good A s" "batch_fits first ps" "Append env lid ep first ps s = (res, s')"
  shows "wrote env A lid ep first ps s' \<and> (res = Inr () \<or> (\<exists>n. res = Inl (DriverError n)))
    \<or> untouched env s s' \<and> res \<noteq> Inr ()"
  using assms by (cases rule: Append_cases) auto

theorem append_atomic_witness:
  "wrote calm [''a'' \<mapsto> log_fenced] ''a'' 3 1 [[1, 2], [], [9]] sample_written"
  using append_atomic [OF rely_calm sample_fenced_good _ sample_written_run] by (simp add: batch_fits_def)

text \<open>
  C2: A writer that has lost the log cannot slip an append past a completed fence. After
  \<open>Fence\<close> at an epoch has returned nil, and after anything any sessions do from there, an
  append at a lower epoch, by any store, writes nothing and does not succeed; and where its
  arguments are well-formed and no call fails the answer is \<open>ErrFenced\<close>.
\<close>

theorem fence_cuts_off:
  assumes "rely env" "good A s" "Fence env lid ep s = (Inr (), s1)"
    and "db_steps (sdb s1) (sdb s2)" "cache_ok s2"
    and "rely env'" "batch_fits first ps" "ep' < ep" "Append env' lid ep' first ps s2 = (res, s3)"
  shows "untouched env' s2 s3 \<and> res \<noteq> Inr () \<and>
    (faultless env' \<and> (\<exists>lst. checkAppend lid ep' first (length ps) = Inr lst) \<longrightarrow> res = Inl (Sentinel ErrFenced))"
proof -
  from assms(1-3) obtain A1 l where g1: "good A1 s1" and l1: "A1 lid = Some l"
    and ep: "a_owner l = int64 ep" "0 < int64 ep" by (rule Fence_success)
  from g1 assms(4,5) obtain A2 where A2: "logs_steps A1 A2" and g2: "good A2 s2" by (rule good_later)
  from A2 l1 obtain l2 where l2: "A2 lid = Some l2" "log_le l l2" by (rule logs_steps_later)
  have ep': "int64 ep' < int64 ep" using assms(8) ep(2) by (rule int64_mono)
  have later: "\<exists>l3. A3 lid = Some l3 \<and> int64 ep' < a_owner l3" if "meanwhile env' A2 A3" for A3
    using that l2(1)
    by (rule meanwhile_later) (use l2(2) ep(1) ep' in \<open>auto simp: log_le_def\<close>)
  from assms(6) g2 assms(7,9) show ?thesis
  proof (cases rule: Append_cases)
    case written
    then obtain A3 l3 where "meanwhile env' A2 A3" "A3 lid = Some l3" "a_owner l3 = int64 ep'"
      by (auto simp: wrote_def)
    with later [of A3] show ?thesis by auto
  next
    case (refused A3 l3 A4 l4)
    from later [OF meanwhile_trans [OF refused(1,4)]] refused(5) have "int64 ep' < a_owner l4" by auto
    then have "refusal_of lid ep' first (first + of_nat (length ps) - 1) l4 = Sentinel ErrFenced"
      using refusal_of_eq [OF refused(6,5,9,10)] by simp
    then show ?thesis using refused by simp
  next
    case (unknown A3)
    then show ?thesis using later by fastforce
  qed auto
qed

theorem fence_cuts_off_witness:
  "untouched calm sample_fenced (snd (Append calm ''a'' 2 1 [[5]] sample_fenced)) \<and>
   fst (Append calm ''a'' 2 1 [[5]] sample_fenced) = Inl (Sentinel ErrFenced)"
proof -
  have "cache_ok sample_fenced" "batch_fits 1 [[5]]" "(2::Epoch) < 3"
    using sample_fenced_good by (simp_all add: good_def batch_fits_def)
  moreover have "checkAppend ''a'' 2 1 1 = Inr 1" by code_simp
  ultimately show ?thesis
    using fence_cuts_off [OF rely_calm sample_created_good sample_fenced_run rtranclp.rtrancl_refl
        _ rely_calm _ _ surjective_pairing, of 1 "[[5]]" 2] by simp
qed

text \<open>
  C3: What a successful append wrote can be read back. After it, and after anything any
  sessions do from there short of trimming it, a read of the batch's range by any store, made while
  nobody else writes and no call fails, returns every entry of the batch: its seqno, the epoch it
  was written at, its payload whole; as long as the batch ends below two to the 63 and no
  payload of it is over 262,144,000 bytes.
\<close>

theorem append_read_back:
  assumes "rely env" "good A s" "batch_fits first ps" "Append env lid ep first ps s = (Inr (), s1)"
    and "db_steps (sdb s1) (sdb s2)" "cache_ok s2" "find_log lid (sdb s2) = Some r" "trim_upto r < uint first"
    and "quiet env'" "\<forall>p \<in> set ps. readable p"
  shows "fst (ReadFrom env' lid first (int (length ps)) s2) =
    Inr (map (\<lambda>i. \<lparr>Seqno = first + of_nat i, Epoch = ep, Payload = ps ! i\<rparr>) [0..<length ps])"
proof -
  from assms(1-4) obtain A1 l h where g1: "good A1 s1" and l: "A1 lid = Some l"
    and h: "a_hist l = h @ map (Pair (int64 ep)) ps" and first: "uint first = int (length h) + 1"
    and id: "storable_id lid" and ps: "ps \<noteq> []" by (rule Append_success)
  from g1 assms(5,6) obtain A2 where A2: "logs_steps A1 A2" and g2: "good A2 s2" by (rule good_later)
  from A2 l obtain l2 where l2: "A2 lid = Some l2" and "log_le l l2" by (rule logs_steps_later)
  then obtain t where h2: "a_hist l2 = h @ map (Pair (int64 ep)) ps @ t" using h by (auto simp: log_le_def)
  from g2 assms(7) l2 have "int (a_trim l2) = trim_upto r" by (auto simp: log_rel_def elim: good_find)
  then have start: "read_start first (a_trim l2) = uint first" using first assms(8) by (simp add: read_start_def)
  let ?n = "Suc (length h) + length ps"
  have e: "min (Suc (length (a_hist l2))) (nat (uint first + int (length ps))) = ?n" "unat first = Suc (length h)"
    using first h2 by (simp_all add: unat_eq_nat_uint)
  have "checkRead lid first (int (length ps)) = Inr (max first FirstSeqno)"
    using id ps by (simp add: checkRead_def checkLogID_None_iff [symmetric])
  then have "fst (ReadFrom env' lid first (int (length ps)) s2) = Inr (map (entry_of (a_hist l2)) [Suc (length h)..<?n])"
    using ReadFrom_quiet [OF assms(9) g2 l2, of first "int (length ps)"] assms(3) batch_at(2) [OF h2 assms(10)] ps
    by (simp add: start e batch_fits_def del: upt_Suc)
  then show ?thesis by (simp only: batch_entries [OF h2 first])
qed

theorem append_read_back_witness:
  "fst (ReadFrom calm ''a'' 1 3 sample_written) =
    Inr [\<lparr>Seqno = 1, Epoch = 3, Payload = [1, 2]\<rparr>, \<lparr>Seqno = 2, Epoch = 3, Payload = []\<rparr>,
         \<lparr>Seqno = 3, Epoch = 3, Payload = [9]\<rparr>]"
proof -
  obtain r where r: "find_log ''a'' (sdb sample_written) = Some r" "log_rel log_written r (tables (sdb sample_written))"
    using sample_written_good db_rel_obtain [of "[''a'' \<mapsto> log_written]" "sdb sample_written" "''a''" log_written]
    by (auto simp: good_def)
  then have "trim_upto r < uint (1::Seqno)" by (simp add: log_rel_def log_written_def)
  moreover have "cache_ok sample_written" using sample_written_good by (simp add: good_def)
  moreover have "\<forall>p \<in> set [[1, 2], [], [9]]. readable p" by (simp add: readable_iff)
  ultimately show ?thesis
    using append_read_back [OF rely_calm sample_fenced_good _ sample_written_run rtranclp.rtrancl_refl
        _ r(1) _ quiet_calm] by (simp add: batch_fits_def)
qed

text \<open>
  C4: A seqno is written once. After an append has returned nil, and after anything any
  sessions do from there (trims included), an append whose batch starts at or below the last
  seqno of the first never writes and never succeeds, whatever store and epoch it comes from.
\<close>

theorem seqno_written_once:
  assumes "rely env" "good A s" "batch_fits first ps" "Append env lid ep first ps s = (Inr (), s1)"
    and "db_steps (sdb s1) (sdb s2)" "cache_ok s2"
    and "rely env'" "batch_fits first' ps'" "uint first' < uint first + int (length ps)"
    and "Append env' lid ep' first' ps' s2 = (res, s3)"
  shows "untouched env' s2 s3 \<and> res \<noteq> Inr ()"
proof -
  from assms(1-4) obtain A1 l h where g1: "good A1 s1" and l: "A1 lid = Some l"
    and h: "a_hist l = h @ map (Pair (int64 ep)) ps" and first: "uint first = int (length h) + 1"
    by (rule Append_success)
  from g1 assms(5,6) obtain A2 where A2: "logs_steps A1 A2" and g2: "good A2 s2" by (rule good_later)
  from assms(7) g2 assms(8,10) show ?thesis
  proof (cases rule: Append_cases)
    case written
    then obtain A3 l3 where A3: "meanwhile env' A2 A3" "A3 lid = Some l3" "uint first' = int (length (a_hist l3)) + 1"
      by (auto simp: wrote_def)
    have "logs_steps A1 A3" using A2 A3(1) by (auto simp: meanwhile_def)
    then obtain l4 where "A3 lid = Some l4" "log_le l l4" using l by (rule logs_steps_later)
    with A3 h first assms(9) show ?thesis by (auto simp: log_le_def)
  qed auto
qed

theorem seqno_written_once_witness:
  "untouched calm sample_written (snd (Append calm ''a'' 3 2 [[7], [8]] sample_written)) \<and>
   fst (Append calm ''a'' 3 2 [[7], [8]] sample_written) \<noteq> Inr ()"
proof -
  have "cache_ok sample_written" "batch_fits 2 [[7], [8]]" "batch_fits 1 [[1, 2], [], [9]]"
    using sample_written_good by (simp_all add: good_def batch_fits_def)
  then show ?thesis
    using seqno_written_once [OF rely_calm sample_fenced_good _ sample_written_run rtranclp.rtrancl_refl
        _ rely_calm _ _ surjective_pairing, of 2 "[[7], [8]]" 3] by simp
qed

text \<open>
  C5: A refusal writes nothing and says something true of the log. When an append of a
  non-zero epoch answers with one of the package's errors, the tables are untouched by it, and
  at some moment of the call: \<open>ErrFenced\<close>, the log did not exist or belonged to another epoch
  or to nobody; \<open>ErrAlreadyWritten\<close>, it was this epoch's and the batch's first seqno was taken;
  \<open>ErrGap\<close>, it was this epoch's and the entry below the batch was missing.
\<close>

theorem append_refusal_true:
  assumes "rely env" "good A s" "batch_fits first ps" "ep \<noteq> 0"
    and "Append env lid ep first ps s = (Inl (Sentinel x), s')"
  shows "untouched env s s' \<and> (\<exists>A'. logs_steps A A' \<and> good A' s' \<and>
    (case A' lid of
       None \<Rightarrow> x = ErrFenced
     | Some l \<Rightarrow>
         if a_owner l \<noteq> int64 ep then x = ErrFenced
         else if uint first \<le> int (length (a_hist l)) then x = ErrAlreadyWritten
         else x = ErrGap \<and> int (length (a_hist l)) + 1 < uint first))"
  using assms(1-3,5)
proof (cases rule: Append_cases)
  case (malformed err)
  then have "err = Sentinel x" by simp
  with malformed(1) assms(4) checkLogID_not_sentinel show ?thesis
    by (auto simp: checkAppend_def split: option.splits if_splits)
next
  case (unknown A')
  then show ?thesis by (auto simp: meanwhile_def intro!: exI [of _ A'])
next
  case (refused A1 l1 A2 l2)
  then have "logs_steps A A2" by (auto simp: meanwhile_def)
  with refused refusal_of_eq [OF refused(6,5,9,10)] show ?thesis
    by (auto intro!: exI [of _ A2] split: if_splits)
qed auto

theorem append_refusal_true_witness:
  "fst (Append calm ''a'' 3 9 [[7]] sample_written) = Inl (Sentinel ErrGap) \<and>
   untouched calm sample_written (snd (Append calm ''a'' 3 9 [[7]] sample_written))"
proof -
  have "fst (Append calm ''a'' 3 9 [[7]] sample_written) = Inl (Sentinel ErrGap)" by code_simp
  then show ?thesis
    using append_refusal_true [OF rely_calm sample_written_good, of 9 "[[7]]" 3 "''a''" ErrGap]
    by (simp add: prod_eq_iff batch_fits_def)
qed



text \<open>
  For a writer whose epoch is above the log's the second snapshot can name a lower-ranking
  refusal. A log belongs to epoch 3 and a writer appends at epoch 4 without having fenced;
  between the append's statement and the look at the row, somebody fences the log at 4. The
  statement was refused because the log was another epoch's, and the answer is \<open>ErrGap\<close>.
\<close>

theorem append_refusal_can_rank_lower:
  "rely fenced_meanwhile \<and> faultless fenced_meanwhile \<and> good [''a'' \<mapsto> log_written] sample_written \<and>
   appendRefusal ''a'' 4 9 9 (log_found log_written) = Some (Sentinel ErrFenced) \<and>
   fst (Append fenced_meanwhile ''a'' 4 9 [[7]] sample_written) = Inl (Sentinel ErrGap) \<and> ErrFenced < ErrGap"
proof (intro conjI)
  have "db_step d (snd (sql_fence ''a'' (int64 4) d))" for d by (rule step_fence) simp
  then show "rely fenced_meanwhile" by (auto simp: rely_def fenced_meanwhile_def calm_def)
  show "faultless fenced_meanwhile" by (simp add: faultless_def fenced_meanwhile_def calm_def)
  show "good [''a'' \<mapsto> log_written] sample_written" by (rule sample_written_good)
  show "appendRefusal ''a'' 4 9 9 (log_found log_written) = Some (Sentinel ErrFenced)"
    by code_simp
  show "fst (Append fenced_meanwhile ''a'' 4 9 [[7]] sample_written) = Inl (Sentinel ErrGap)"
    by code_simp
  show "ErrFenced < ErrGap" by (simp add: sentinel_order)
qed

text \<open>
  C7: While nobody else writes and no call fails, the answer of a well-formed append, of a
  batch that ends below two to the 63 and has no nil payload, is a function of the log: \<open>ErrFenced\<close> for another epoch's log, then \<open>ErrAlreadyWritten\<close>, then
  \<open>ErrGap\<close>, and otherwise the append succeeds and the log ends with the batch.
\<close>

theorem append_answer:
  assumes "quiet env" "good A s" "A lid = Some l" "batch_fits first ps"
    and "checkAppend lid ep first (length ps) = Inr lst"
  shows "fst (Append env lid ep first ps s) =
    (if a_owner l \<noteq> int64 ep then Inl (Sentinel ErrFenced)
     else if uint first \<le> int (length (a_hist l)) then Inl (Sentinel ErrAlreadyWritten)
     else if int (length (a_hist l)) + 1 < uint first then Inl (Sentinel ErrGap)
     else Inr ()) \<and>
    good (A(lid \<mapsto> (if fst (Append env lid ep first ps s) = Inr ()
       then l\<lparr>a_hist := a_hist l @ map (Pair (int64 ep)) ps\<rparr> else l))) (snd (Append env lid ep first ps s))"
proof -
  obtain res s' where call: "Append env lid ep first ps s = (res, s')" by (cases "Append env lid ep first ps s")
  have "good A s'" if "res \<noteq> Inr ()"
    using quiet_rely [OF assms(1)] assms(2,4) call
    by (cases rule: Append_cases)
      (use that assms quiet_faultless [OF assms(1)] in \<open>auto simp: quiet_meanwhile\<close>)
  moreover have "A(lid \<mapsto> l) = A" using assms(3) by auto
  ultimately show ?thesis
    using Append_quiet [OF assms] quiet_append [OF assms(1,2,4) _ assms(3)] call by auto
qed

theorem append_answer_witness:
  "fst (Append calm ''a'' 3 4 [[5]] sample_written) = Inr () \<and>
   fst (Append calm ''a'' 3 2 [[5]] sample_written) = Inl (Sentinel ErrAlreadyWritten)"
proof -
  have "checkAppend ''a'' 3 4 1 = Inr 4" "checkAppend ''a'' 3 2 1 = Inr 2" by code_simp+
  then show ?thesis
    using append_answer [OF quiet_calm sample_written_good, of "''a''" log_written 4 "[[5]]" 3 4]
      append_answer [OF quiet_calm sample_written_good, of "''a''" log_written 2 "[[5]]" 3 2]
    by (simp add: batch_fits_def log_written_def int64_def)
qed

section \<open>Fencing and handing over\<close>



text \<open>
  C9: While nobody else writes and no call fails, a fence at an epoch a \<open>bigint\<close> can hold answers
  \<open>ErrNoSuchLog\<close> for a log that was not created, \<open>ErrFenced\<close> for one held at a higher epoch,
  and nil otherwise.
\<close>

theorem fence_answer:
  assumes "quiet env" "good A s" "checkFence lid ep = None" "uint ep \<le> bigint_max"
  shows "fst (Fence env lid ep s) =
    (case A lid of
       None \<Rightarrow> Inl (Sentinel ErrNoSuchLog)
     | Some l \<Rightarrow> if uint ep < a_owner l then Inl (Sentinel ErrFenced) else Inr ())"
proof (cases "A lid")
  case None
  then show ?thesis using Fence_quiet [OF assms(1-3)] by simp
next
  case (Some l)
  have "uint (uint64 (a_owner l)) = a_owner l"
    using good_log(1,2) [OF assms(2) Some] by (simp add: uint_uint64)
  then show ?thesis
    using Some Fence_quiet [OF assms(1-3)] assms(4)
    by (auto simp: fence_refusal_of_def int64_small word_less_def)
qed

theorem fence_answer_witness:
  "fst (Fence calm ''a'' 2 sample_fenced) = Inl (Sentinel ErrFenced) \<and>
   fst (Fence calm ''b'' 2 sample_fenced) = Inl (Sentinel ErrNoSuchLog)"
proof -
  have "checkFence ''a'' 2 = None" "checkFence ''b'' 2 = None" by code_simp+
  then show ?thesis
    using fence_answer [OF quiet_calm sample_fenced_good, of "''a''" 2]
      fence_answer [OF quiet_calm sample_fenced_good, of "''b''" 2] by (simp add: log_fenced_def)
qed

text \<open>
  Fencing is idempotent per epoch: after a fence has returned nil, the same fence again
  returns nil and leaves every table exactly as it was.
\<close>

theorem fence_idempotent:
  assumes "quiet env" "good A s" "Fence env lid ep s = (Inr (), s')"
  shows "fst (Fence env lid ep s') = Inr () \<and> sdb (snd (Fence env lid ep s')) = sdb s'"
proof -
  from quiet_rely [OF assms(1)] assms(2,3) obtain A' l where g: "good A' s'" and l: "A' lid = Some l"
    and own: "a_owner l = int64 ep" by (rule Fence_success)
  have "checkFence lid ep = None" using assms(3) by (auto simp: Fence_def split: option.splits)
  then have ok: "fst (Fence env lid ep s') = Inr ()" using Fence_quiet [OF assms(1) g] l own by simp
  then have "sdb (snd (Fence env lid ep s')) = upd_log lid (\<lambda>r. r\<lparr>epoch := int64 ep\<rparr>) (sdb s')"
    using Fence_quiet_db [OF assms(1) g] by (simp add: prod_eq_iff)
  with ok Fence_quiet_db [OF assms] show ?thesis by (simp add: upd_log_twice)
qed

theorem fence_idempotent_witness:
  "fst (Fence calm ''a'' 3 sample_fenced) = Inr () \<and> sdb (snd (Fence calm ''a'' 3 sample_fenced)) = sdb sample_fenced"
  by (rule fence_idempotent [OF quiet_calm sample_created_good sample_fenced_run])

text \<open>
  An epoch above the largest \<open>bigint\<close> can never be fenced: the conversion to \<open>int64\<close> is
  negative, the update matches no row, and the answer on an existing log is neither nil nor
  \<open>ErrFenced\<close> but the internal error for a fence the row admits.
\<close>

theorem fence_wide_epoch:
  assumes "quiet env" "good A s" "checkFence lid ep = None" "A lid = Some l" "bigint_max < uint ep"
  shows "fst (Fence env lid ep s) = Inl RefusedAdmittedFence"
proof -
  note b = good_log(1,2) [OF assms(2,4)]
  have "int64 ep < 0" using int64_large [OF assms(5)] uint_lt2p [of ep] by simp
  moreover have "\<not> ep < uint64 (a_owner l)"
    using b assms(5) by (simp add: word_less_def uint_uint64)
  ultimately show ?thesis
    using Fence_quiet [OF assms(1-3)] assms(4) b(1) by (simp add: fence_refusal_of_def)
qed

theorem fence_wide_epoch_witness:
  "fst (Fence calm ''a'' 9223372036854775808 sample_created) = Inl RefusedAdmittedFence"
proof -
  have "checkFence ''a'' 9223372036854775808 = None" by code_simp
  then show ?thesis
    using fence_wide_epoch [OF quiet_calm sample_created_good, of "''a''" 9223372036854775808 new_log] by simp
qed

text \<open>
  C10: Taking a log over works, while nobody else writes and no call fails. After a fence of a log has
  returned nil, \<open>NextSeqno\<close> answers one past the last entry the log had, and an append there
  under the fenced epoch succeeds, of any batch that is not empty, has no nil payload and ends below two to the 63.
\<close>

theorem handover:
  assumes "quiet env" "good A s" "Fence env lid ep s = (Inr (), s1)"
  shows "\<exists>l n s2. A lid = Some l \<and> NextSeqno env lid s1 = (Inr n, s2) \<and> uint n = int (length (a_hist l)) + 1 \<and>
    (\<forall>ps. ps \<noteq> [] \<and> batch_fits n ps \<longrightarrow> fst (Append env lid ep n ps s2) = Inr ())"
proof -
  note env = quiet_rely [OF assms(1)]
  have dec: "decodes env" using assms(1) by (simp add: quiet_def)
  obtain l where l: "A lid = Some l"
    using env assms(2,3) by (cases rule: Fence_cases) (auto simp: quiet_meanwhile [OF assms(1)])
  note g1 = quiet_fence(1) [OF assms(1-3) l]
  have "checkFence lid ep = None" using assms(3) by (auto simp: Fence_def split: option.splits)
  then have id: "checkLogID lid = None" "ep \<noteq> 0" by (auto simp: checkFence_def split: option.splits if_splits)
  obtain r s2 where next': "NextSeqno env lid s1 = (r, s2)" by (cases "NextSeqno env lid s1")
  have n: "r = Inr (uint64 (int (length (a_hist l)) + 1)) \<and> good (A(lid \<mapsto> l\<lparr>a_owner := int64 ep\<rparr>)) s2"
    using env dec g1 next'
    by (cases rule: NextSeqno_cases) (use id in \<open>auto simp: quiet_meanwhile [OF assms(1)] quiet_faultless [OF assms(1)]\<close>)
  let ?n = "uint64 (int (length (a_hist l)) + 1) :: u64"
  have un: "uint ?n = int (length (a_hist l)) + 1" using good_log(3) [OF assms(2) l] by (simp add: uint_uint64)
  have "fst (Append env lid ep ?n ps s2) = Inr ()" if ps: "ps \<noteq> []" "batch_fits ?n ps" for ps
  proof -
    have "?n \<noteq> 0" using un by auto
    then have "checkAppend lid ep ?n (length ps) = Inr (?n + of_nat (length ps) - 1)"
      using id ps(1) by (simp add: checkAppend_Inr_iff checkLogID_None_iff)
    from Append_quiet [OF assms(1) n [THEN conjunct2] _ ps(2) this] un show ?thesis by simp
  qed
  then show ?thesis using l next' n un by blast
qed

theorem handover_witness:
  "\<exists>n s2. NextSeqno calm ''a'' sample_fenced = (Inr n, s2) \<and> uint n = 1 \<and> fst (Append calm ''a'' 3 n [[5]] s2) = Inr ()"
  using handover [OF quiet_calm sample_created_good sample_fenced_run] by (auto simp: new_log_def batch_fits_def)

section \<open>Reading\<close>

text \<open>
  C11: A read returns an unbroken run of one log, in seqno order, each entry whole, whatever other
  sessions do between its two statements and whatever payloads the log holds, from a seqno a \<open>bigint\<close>
  can hold. When it answers nil, at the moment of the first statement the log stood as \<open>l1\<close> and when
  it returns as \<open>l2\<close>: the entries are those of \<open>l2\<close> from the first seqno asked for that \<open>l1\<close> had not
  trimmed, or from at most one past the trims of \<open>l2\<close>, to the end of the log or of the range asked
  for, as the query gets that end; or there was no such log and there are no entries. The call
  changes nothing.
\<close>

theorem read_is_a_run:
  assumes "rely env" "decodes env" "good A s" "uint frm \<le> bigint_max"
    and "ReadFrom env lid frm limit s = (Inr es, s')"
  shows "untouched env s s' \<and> 1 \<le> limit \<and>
    ((\<exists>A'. at_moment env A s A' s' \<and> A' lid = None \<and> es = []) \<or>
     (\<exists>s1 A1 l1 A2 l2 m. at_moment env A s A1 s1 \<and> A1 lid = Some l1 \<and> at_moment env A1 s1 A2 s' \<and> A2 lid = Some l2 \<and>
        read_start frm (a_trim l1) \<le> int m \<and> int m \<le> max (read_start frm (a_trim l1)) (int (a_trim l2) + 1) \<and>
        es = map (entry_of (a_hist l2))
           [m..<min (Suc (length (a_hist l2))) (nat (read_end (read_start frm (a_trim l1)) limit + 1))]))"
  using assms
proof (cases rule: ReadFrom_cases)
  case (missing A')
  then show ?thesis by (auto simp: at_moment_def)
next
  case (read A1 l1 A2 l2 m rows s1)
  let ?b = "min (Suc (length (a_hist l2))) (nat (read_end (read_start frm (a_trim l1)) limit + 1))"
  have "collect_rows rows [] = Inr es" using read(11) by simp
  then have "run_readable (a_hist l2) m ?b"
    using read(13,12) good_log(3) [OF read(5,4)] by (intro collected_readable) simp_all
  with read(10) have "es = map (entry_of (a_hist l2)) [m..<?b]" by simp
  then show ?thesis using read(2,4,6-9,14,15) by blast
next
  case (malformed err)
  then show ?thesis by simp
next
  case (failed A' err)
  then show ?thesis by simp
qed

theorem read_is_a_run_witness:
  "\<exists>s1 A1 l1 A2 l2 m. at_moment calm [''a'' \<mapsto> log_trimmed] sample_trimmed A1 s1 \<and> A1 ''a'' = Some l1 \<and>
     at_moment calm A1 s1 A2 (snd (ReadFrom calm ''a'' 1 2 sample_trimmed)) \<and> A2 ''a'' = Some l2 \<and>
     [\<lparr>Seqno = 2, Epoch = 3, Payload = []\<rparr>, \<lparr>Seqno = 3, Epoch = 3, Payload = [9]\<rparr>] = map (entry_of (a_hist l2))
       [m..<min (Suc (length (a_hist l2))) (nat (read_end (read_start 1 (a_trim l1)) 2 + 1))]"
proof -
  have run: "ReadFrom calm ''a'' 1 2 sample_trimmed =
      (Inr [\<lparr>Seqno = 2, Epoch = 3, Payload = []\<rparr>, \<lparr>Seqno = 3, Epoch = 3, Payload = [9]\<rparr>],
       snd (ReadFrom calm ''a'' 1 2 sample_trimmed))" by (rule prod_eqI) (code_simp, simp)
  have "uint (1 :: Seqno) \<le> bigint_max" by simp
  from read_is_a_run [OF rely_calm decodes_calm sample_trimmed_good this run] show ?thesis
  proof (elim conjE disjE exE, goal_cases)
    case 2
    then show ?case by (intro exI conjI)
  qed simp
qed

text \<open>
  C12: While nobody else writes and no call fails, a read of a log returns exactly its entries
  from the first seqno asked for and not trimmed, up to the limit or the end of the log, and
  fewer than \<open>limit\<close> entries only where the log ends. This is for a seqno asked for and a last seqno of
  the range that a \<open>bigint\<close> can hold, and a log with no payload over 262,144,000 bytes; for others
  see \<open>read_wide_limit\<close>, \<open>read_from_wraps\<close> and \<open>oversized_payload_unreadable\<close>.
\<close>

theorem read_answer:
  assumes "quiet env" "good A s" "A lid = Some l" "checkRead lid frm limit = Inr frm'" "uint frm \<le> bigint_max"
    and "read_start frm (a_trim l) + limit - 1 \<le> bigint_max" "list_all (readable \<circ> snd) (a_hist l)"
  shows "\<exists>es. fst (ReadFrom env lid frm limit s) = Inr es \<and>
    es = map (entry_of (a_hist l))
      [nat (read_start frm (a_trim l))..<min (Suc (length (a_hist l))) (nat (read_start frm (a_trim l) + limit))] \<and>
    (int (length es) < limit \<longrightarrow> int (length (a_hist l)) < read_start frm (a_trim l) + int (length es))"
proof -
  let ?a = "nat (read_start frm (a_trim l))"
  let ?b = "min (Suc (length (a_hist l))) (nat (read_start frm (a_trim l) + limit))"
  have "run_readable (a_hist l) ?a ?b" using assms(7) by (intro run_readable_all) (simp_all add: read_start_def)
  then have "fst (ReadFrom env lid frm limit s) = Inr (map (entry_of (a_hist l)) [?a..<?b])"
    by (rule ReadFrom_quiet [OF assms(1-6)])
  moreover have "1 \<le> read_start frm (a_trim l)" "1 \<le> limit"
    using assms(4) by (auto simp: read_start_def checkRead_def split: option.splits if_splits)
  then have "int (length (a_hist l)) < read_start frm (a_trim l) + int (?b - ?a)" if "int (?b - ?a) < limit"
    using that by (simp add: min_def split: if_splits)
  ultimately show ?thesis by auto
qed

theorem read_answer_witness:
  "fst (ReadFrom calm ''a'' 2 1 sample_trimmed) = Inr [\<lparr>Seqno = 2, Epoch = 3, Payload = []\<rparr>]"
proof -
  have "checkRead ''a'' 2 1 = Inr 2" by code_simp
  moreover have "list_all (readable \<circ> snd) (a_hist log_trimmed)" by (simp add: log_trimmed_def readable_iff)
  ultimately show ?thesis
    using read_answer [OF quiet_calm sample_trimmed_good, of "''a''" log_trimmed 2 1 2]
    by (simp add: log_trimmed_def read_start_def entry_of_def uint64_def upt_rec)
qed

text \<open>
  A limit whose range runs past the largest \<open>bigint\<close> reads nothing. The upper bound of the
  query is negative, so the answer is the empty list, whatever the log holds.
\<close>

theorem read_wide_limit:
  assumes "quiet env" "good A s" "A lid = Some l" "checkRead lid frm limit = Inr frm'" "uint frm \<le> bigint_max"
    and "limit \<le> bigint_max" "bigint_max < read_start frm (a_trim l) + limit - 1"
  shows "fst (ReadFrom env lid frm limit s) = Inr []"
proof -
  let ?start = "read_start frm (a_trim l)"
  obtain res s' where call: "ReadFrom env lid frm limit s = (res, s')" by (cases "ReadFrom env lid frm limit s")
  have dec: "decodes env" using assms(1) by (simp add: quiet_def)
  have lo: "1 \<le> ?start" "?start \<le> bigint_max"
    using good_log(3,4) [OF assms(2,3)] assms(5) by (simp_all add: read_start_def)
  then have "uint (uint64 (?start + limit - 1)) = ?start + limit - 1"
    using assms(6,7) by (intro uint_uint64_full) simp_all
  then have e: "read_end ?start limit < 0"
    using int64_large [of "uint64 (?start + limit - 1)"] assms(6,7) lo by (simp add: read_end_def)
  from quiet_rely [OF assms(1)] dec assms(2,5) call show ?thesis
  proof (cases rule: ReadFrom_cases)
    case (read A1 l1 A2 l2 m rows)
    then have eq: "l1 = l" "l2 = l" using assms(1,3) by (auto simp: quiet_meanwhile)
    have z: "min (Suc (length (a_hist l))) (nat (read_end ?start limit + 1)) = 0" using e by simp
    from read(10) show ?thesis by (simp add: eq z call run_readable_def)
  qed (use assms quiet_faultless [OF assms(1)] call in \<open>auto simp: quiet_meanwhile\<close>)
qed

theorem read_wide_limit_witness:
  "fst (ReadFrom calm ''a'' 2 9223372036854775807 sample_written) = Inr []"
proof -
  have "checkRead ''a'' 2 9223372036854775807 = Inr 2" by code_simp
  then show ?thesis
    using read_wide_limit [OF quiet_calm sample_written_good, of "''a''" log_written 2 9223372036854775807 2]
    by (simp add: log_written_def read_start_def)
qed

text \<open>
  A read from a seqno just below two to the 64 wraps around and returns the log's oldest
  rows. On a log of three entries trimmed to seqno 1, reading up to 5 entries from the largest
  \<open>Seqno\<close> answers with entries 1, 2 and 3, all below the seqno asked for, and the first of
  them trimmed.
\<close>

theorem read_from_wraps:
  "good [''a'' \<mapsto> log_trimmed] sample_trimmed \<and> a_trim log_trimmed = 1 \<and>
   fst (ReadFrom calm ''a'' 18446744073709551615 5 sample_trimmed) =
     Inr [\<lparr>Seqno = 1, Epoch = 3, Payload = [1, 2]\<rparr>, \<lparr>Seqno = 2, Epoch = 3, Payload = []\<rparr>,
          \<lparr>Seqno = 3, Epoch = 3, Payload = [9]\<rparr>]"
proof (intro conjI)
  show "good [''a'' \<mapsto> log_trimmed] sample_trimmed" by (rule sample_trimmed_good)
  show "a_trim log_trimmed = 1" by (simp add: log_trimmed_def)
  show "fst (ReadFrom calm ''a'' 18446744073709551615 5 sample_trimmed) =
     Inr [\<lparr>Seqno = 1, Epoch = 3, Payload = [1, 2]\<rparr>, \<lparr>Seqno = 2, Epoch = 3, Payload = []\<rparr>,
          \<lparr>Seqno = 3, Epoch = 3, Payload = [9]\<rparr>]" by code_simp
qed

text \<open>
  C13: A payload of more than 262,144,000 bytes is taken and cannot be read back. While nobody else
  writes and no call fails, its owner appends it as the next entry of a log and the answer is nil;
  right after it a read that starts at the entry, with any limit whose range a \<open>bigint\<close> can hold, fails: the
  chunk numbers overflow sixteen bits, the row that comes first in the order of the query has a
  negative one, and the error is a chunk "without its first".
\<close>

theorem oversized_payload_unreadable:
  assumes "quiet env" "good A s" "A lid = Some l" "a_owner l = int64 ep" "uint first = int (length (a_hist l)) + 1"
    and "checkAppend lid ep first 1 = Inr lst" "batch_fits first [p]" "262144000 < length p"
    and "1 \<le> limit" "uint first + limit - 1 \<le> bigint_max"
  shows "\<exists>s1. Append env lid ep first [p] s = (Inr (), s1) \<and>
    (\<exists>c. c < 0 \<and> fst (ReadFrom env lid first limit s1) = Inl (ChunkWithoutFirst c (uint first)))"
proof -
  let ?l = "l\<lparr>a_hist := a_hist l @ [(int64 ep, p)]\<rparr>"
  have "fst (Append env lid ep first [p] s) = Inr ()" using Append_quiet [OF assms(1-3,7)] assms(4-6) by simp
  then obtain s1 where s1: "Append env lid ep first [p] s = (Inr (), s1)" by (cases "Append env lid ep first [p] s") simp
  have g: "good (A(lid \<mapsto> ?l)) s1" using quiet_append [OF assms(1,2,7) s1 assms(3)] by simp
  have start: "read_start first (a_trim l) = uint first"
    using good_log(4) [OF assms(2,3)] assms(5) by (simp add: read_start_def)
  have "checkRead lid first limit = Inr (max first FirstSeqno)"
    using assms(6,9) by (simp add: checkRead_def checkAppend_Inr_iff checkLogID_None_iff [symmetric])
  moreover have "nat (uint first) - 1 = length (a_hist l)" "uint first \<le> bigint_max" using assms(5,9,10) by simp_all
  ultimately show ?thesis
    using ReadFrom_oversized [OF assms(1) g, of lid ?l first limit] s1 assms(5,8,10)
    by (simp add: start readable_iff del: One_nat_def)
qed

theorem oversized_payload_unreadable_witness:
  "\<exists>s1. Append calm ''a'' 3 1 [replicate 262144001 0] sample_fenced = (Inr (), s1) \<and>
    (\<exists>c. c < 0 \<and> fst (ReadFrom calm ''a'' 1 1 s1) = Inl (ChunkWithoutFirst c 1))"
proof -
  have "checkAppend ''a'' 3 1 1 = Inr 1" by code_simp
  then show ?thesis
    using oversized_payload_unreadable [OF quiet_calm sample_fenced_good, of "''a''" log_fenced 3 1 1 "replicate 262144001 0" 1]
    by (simp add: log_fenced_def int64_def batch_fits_def)
qed

text \<open>
  A short read does not always mean the log ends there. A log holds entries 1 to 4, the
  first two in the older half of its ring; a read of two entries from seqno 1 has looked at the
  row when another session trims the log to 2 and reclaims the older half. The read answers
  with no entries at all, and the same read a moment later answers with entries 3 and 4.
\<close>

theorem short_read_before_the_end:
  "rely trimmed_meanwhile \<and> faultless trimmed_meanwhile \<and> good [''a'' \<mapsto> log_turned] sample_turned \<and>
   fst (ReadFrom trimmed_meanwhile ''a'' 1 2 sample_turned) = Inr [] \<and>
   fst (ReadFrom calm ''a'' 1 2 (snd (ReadFrom trimmed_meanwhile ''a'' 1 2 sample_turned))) =
     Inr [\<lparr>Seqno = 3, Epoch = 3, Payload = [3]\<rparr>, \<lparr>Seqno = 4, Epoch = 3, Payload = [4]\<rparr>]"
proof (intro conjI)
  have "db_step d (snd (sql_trim (int64 2) ''a'' d))" for d by (rule step_trim)
  then have "db_steps d (reclaimed ''a'' True (snd (sql_trim (int64 2) ''a'' d)))" for d
    using step_reclaim [of "snd (sql_trim (int64 2) ''a'' d)" "''a''" True]
    by (meson converse_rtranclp_into_rtranclp r_into_rtranclp)
  then show "rely trimmed_meanwhile" by (simp add: rely_def trimmed_meanwhile_def calm_def)
  show "faultless trimmed_meanwhile" by (simp add: faultless_def trimmed_meanwhile_def calm_def)
  show "good [''a'' \<mapsto> log_turned] sample_turned" by (rule sample_turned_good)
  show "fst (ReadFrom trimmed_meanwhile ''a'' 1 2 sample_turned) = Inr []" by code_simp
  show "fst (ReadFrom calm ''a'' 1 2 (snd (ReadFrom trimmed_meanwhile ''a'' 1 2 sample_turned))) =
     Inr [\<lparr>Seqno = 3, Epoch = 3, Payload = [3]\<rparr>, \<lparr>Seqno = 4, Epoch = 3, Payload = [4]\<rparr>]" by code_simp
qed

section \<open>Trimming and reclaiming\<close>



text \<open>
  C15: Space comes back. While nobody else writes and no call fails, after a trim that reaches the
  last seqno the older half of the ring holds, that half's table is empty.
\<close>

theorem trim_empties_older_half:
  assumes "quiet env" "good A s" "find_log lid (sdb s) = Some r" "checkTrim lid upTo = Inr True"
    and "prev_hi r \<noteq> 0" "prev_hi r \<le> int64 upTo"
  shows "fst (Trim env lid upTo s) = Inr () \<and>
    tables (sdb (snd (Trim env lid upTo s))) (entriesTable (ordinal r) (prevSlot (row_state r))) = Some []"
proof -
  note q = Trim_quiet_db [OF assms(1-4)]
  from assms(2,3) obtain l where "log_rel l r (tables (sdb s))" by (rule good_find)
  then have "row_ok r" by (simp add: log_rel_def)
  then have "cur_lo r - 1 \<le> trim_upto (trim_row upTo r)"
    using assms(5,6) by (auto simp: row_ok_def trim_row_def)
  then have e: "prevEmpty (row_state (trim_row upTo r))"
    using q assms(5) row_state_prevEmpty [of "trim_row upTo r"] by simp
  have "find_log lid (upd_log lid (trim_row upTo) (sdb s)) = Some (trim_row upTo r)"
    using assms(3) by (simp add: find_log_upd)
  from reclaimed_table [OF this e] q e show ?thesis by (simp add: prevSlot_def row_state_def)
qed

theorem trim_empties_older_half_witness:
  "fst (Trim calm ''a'' 2 sample_turned) = Inr () \<and>
   tables (sdb (snd (Trim calm ''a'' 2 sample_turned))) (entriesTable 1 0) = Some []"
proof -
  have "checkTrim ''a'' 2 = Inr True" by code_simp
  then show ?thesis
    using trim_empties_older_half [OF quiet_calm sample_turned_good sample_turned_find, of 2]
    by (simp add: row_turned_def int64_def prevSlot_def row_state_def)
qed

text \<open>
  C16: The ring never turns onto entries. When the state of a row lets the ring turn, the half
  that becomes current is an empty table, the live entries stay in the other half, and the
  next append goes to the emptied one.
\<close>

theorem rotation_meets_empty_half:
  assumes "db_rel A d" "find_log lid d = Some r" "snd (reclaimSteps (row_state r) m)"
  shows "tables (reclaimed lid m d) (entriesTable (ordinal r) (1 - cur_slot r)) = Some [] \<and>
    tables (reclaimed lid m d) (entriesTable (ordinal r) (cur_slot r)) = tables d (entriesTable (ordinal r) (cur_slot r)) \<and>
    (\<exists>r'. find_log lid (reclaimed lid m d) = Some r' \<and> cur_slot r' = 1 - cur_slot r \<and>
       cur_lo r' = last_seqno r + 1 \<and> prev_hi r' = last_seqno r)"
proof -
  from db_rel_find(2) [OF assms(1,2)] obtain l where lr: "log_rel l r (tables d)" by blast
  then have ok: "row_ok r" and ring: "ring_holds (a_hist l) r (tables d)" by (auto simp: log_rel_def)
  let ?t = "fst (reclaimSteps (row_state r) m)"
  let ?d1 = "if ?t then truncated lid r d else d"
  have d: "reclaimed lid m d = upd_log lid rotate_row ?d1" using assms(2,3) by (simp add: reclaimed_def split_beta Let_def)
  have "?t \<or> prev_hi r = 0"
    using assms(3) row_state_prevHi [OF ok] by (auto simp: reclaimSteps_truncate reclaimSteps_rotate)
  then have "tables ?d1 (entriesTable (ordinal r) (1 - cur_slot r)) = Some []"
    using truncated_table ring by (auto simp: ring_holds_def)
  moreover have "1 - cur_slot r \<noteq> cur_slot r" using ok by (auto simp: row_ok_def)
  then have "tables ?d1 (entriesTable (ordinal r) (cur_slot r)) = tables d (entriesTable (ordinal r) (cur_slot r))"
    by (simp add: truncated_def)
  moreover have "find_log lid (reclaimed lid m d) = map_option rotate_row (find_log lid ?d1)"
    unfolding d by (simp add: find_log_upd)
  ultimately show ?thesis
    using assms(2) find_truncated [OF assms(2)] unfolding d by (auto simp: rotate_row_def)
qed

theorem rotation_meets_empty_half_witness:
  "tables (reclaimed ''a'' True (sdb sample_full)) (entriesTable 1 1) = Some []"
  using rotation_meets_empty_half [OF _ sample_full_find sample_full_turns, of "[''a'' \<mapsto> log_full]"] sample_full_good
  by (simp add: good_def row_full_def)

text \<open>
  C17: Reclaiming is invisible. Whatever other sessions do and whichever calls fail, a reclaim for
  a log's row either leaves the tables to the others or commits one change, and the logs the
  tables represent just before that change are the logs they represent after it: owners,
  watermarks and every entry ever appended.
\<close>

theorem reclaim_invisible:
  assumes "rely env" "decodes env" "good A s" "find_log lid (sdb s) = Some r" "ordinal r = st_ordinal st"
    and "reclaim env st s = (res, s')"
  shows "\<exists>s1 A1. untouched env s s1 \<and> logs_steps A A1 \<and> good A1 s1 \<and> good A1 s' \<and>
    (sdb s' = sdb s1 \<or> sdb s' = reclaimed lid (prevEmpty st) (sdb s1)) \<and> (faultless env \<longrightarrow> res = Inr ())"
  using assms
proof (cases rule: reclaim_cases)
  case idle
  then show ?thesis using assms(3) by (intro exI [of _ s] exI [of _ A]) simp
next
  case (committed s1 A1)
  then have "logs_steps A A1" by (simp add: meanwhile_def)
  with committed show ?thesis by blast
next
  case (failed A1 err)
  then have "logs_steps A A1" by (simp add: meanwhile_def)
  with failed show ?thesis by blast
qed

theorem reclaim_invisible_witness:
  "\<exists>s1 A1. untouched calm sample_turned s1 \<and> logs_steps [''a'' \<mapsto> log_turned] A1 \<and> good A1 s1 \<and>
     good A1 (snd (reclaim calm (row_state row_turned) sample_turned))"
proof -
  have "ordinal row_turned = st_ordinal (row_state row_turned)" by (simp add: row_state_def)
  from reclaim_invisible [OF rely_calm decodes_calm sample_turned_good sample_turned_find this surjective_pairing]
  show ?thesis by blast
qed

text \<open>
  A trim mark above the largest \<open>bigint\<close> trims nothing. \<open>Trim\<close> with an \<open>upTo\<close> of two to the 63 or
  more (\<open>MaxUint64\<close>, "everything") answers nil and leaves the watermark where it was.
\<close>

theorem trim_wide_mark:
  assumes "quiet env" "good A s" "find_log lid (sdb s) = Some r" "checkTrim lid upTo = Inr True"
    and "bigint_max < uint upTo"
  shows "fst (Trim env lid upTo s) = Inr () \<and>
    (\<exists>r'. find_log lid (sdb (snd (Trim env lid upTo s))) = Some r' \<and> trim_upto r' = trim_upto r)"
proof -
  note q = Trim_quiet_db [OF assms(1-4)]
  from assms(2,3) obtain l where "log_rel l r (tables (sdb s))" by (rule good_find)
  then have "row_ok r" by (simp add: log_rel_def)
  moreover have "int64 upTo < 0" using int64_large [OF assms(5)] uint_lt2p [of upTo] by simp
  ultimately have t: "trim_upto (trim_row upTo r) = trim_upto r" by (auto simp: trim_row_def row_ok_def)
  have "find_log lid (upd_log lid (trim_row upTo) (sdb s)) = Some (trim_row upTo r)"
    using assms(3) by (simp add: find_log_upd)
  from reclaimed_trim [OF this] q t show ?thesis by simp
qed

theorem trim_wide_mark_witness:
  "fst (Trim calm ''a'' 18446744073709551615 sample_turned) = Inr () \<and>
   (\<exists>r'. find_log ''a'' (sdb (snd (Trim calm ''a'' 18446744073709551615 sample_turned))) = Some r' \<and> trim_upto r' = 0)"
proof -
  have "checkTrim ''a'' 18446744073709551615 = Inr True" by code_simp
  then show ?thesis
    using trim_wide_mark [OF quiet_calm sample_turned_good sample_turned_find, of 18446744073709551615]
    by (simp add: row_turned_def)
qed

section \<open>Creating logs\<close>

text \<open>
  C18: Creating a batch of logs is all or nothing, whatever other sessions do and whichever calls fail.
  Either at one moment of the call, before which only others had changed the tables, every id of the
  batch that did not exist came to exist as a new, unowned and empty log, every other log staying as
  it was (and the answer is nil or a lost connection); or no log was created by the call, which at
  most spent ordinals, and unless the batch was empty the answer is an error.
\<close>

theorem create_all_or_nothing:
  assumes "rely env" "good A s" "CreateLogs env ids s = (res, s')"
  shows "(\<exists>s1 A1. at_moment env A s A1 s1 \<and>
      good (\<lambda>lid. if lid \<in> set ids \<and> A1 lid = None then Some new_log else A1 lid) s' \<and>
      (res = Inr () \<or> (\<exists>n. res = Inl (DriverError n)))) \<or>
    (\<exists>s1 n. untouched env s s1 \<and> next_ordinal (sdb s1) \<le> n \<and> sdb s' = (sdb s1)\<lparr>next_ordinal := n\<rparr>) \<and>
      (res = Inr () \<longrightarrow> ids = [])"
  using assms
proof (cases rule: CreateLogs_cases)
  case (created A1 s1)
  then show ?thesis unfolding created_def by blast
next
  case (failed A1 err)
  then show ?thesis by (auto simp: spent_def)
next
  case empty
  then show ?thesis using spent_untouched [of env s s'] by (simp add: spent_def)
next
  case (malformed err)
  then show ?thesis using spent_untouched [of env s s'] by (simp add: spent_def)
qed

theorem create_all_or_nothing_witness:
  "\<exists>s1 A1. at_moment calm Map.empty sample_new A1 s1 \<and>
     good (\<lambda>lid. if lid \<in> set [''a''] \<and> A1 lid = None then Some new_log else A1 lid) sample_created"
  using create_all_or_nothing [OF rely_calm sample_new_good sample_created_run] by simp

text \<open>
  Creation is idempotent: creating ids that all exist answers nil and leaves every table and
  every row of the registry exactly as it was, ownership and entries included; only the
  sequence behind the ordinals advances.
\<close>

theorem create_existing:
  assumes "quiet env" "good A s" "\<forall>lid \<in> set ids. A lid \<noteq> None" "check_ids ids = None"
  shows "fst (CreateLogs env ids s) = Inr () \<and>
    registry (sdb (snd (CreateLogs env ids s))) = registry (sdb s) \<and>
    tables (sdb (snd (CreateLogs env ids s))) = tables (sdb s)"
  using CreateLogs_existing [OF assms] by simp

theorem create_existing_witness:
  "fst (CreateLogs calm [''a''] sample_written) = Inr () \<and>
   tables (sdb (snd (CreateLogs calm [''a''] sample_written))) = tables (sdb sample_written)"
proof -
  have "check_ids [''a''] = None" by code_simp
  then show ?thesis using create_existing [OF quiet_calm sample_written_good, of "[''a'']"] by simp
qed

section \<open>Many stores over one schema\<close>

text \<open>
  C19: The tables refine the abstract logs. From a migrated schema with no logs, whatever steps
  any sessions take, the tables represent abstract logs that came about by creating, fencing,
  appending and trimming alone.
\<close>

theorem tables_refine_logs:
  assumes "initial d" "db_steps d d'"
  shows "\<exists>A. logs_steps Map.empty A \<and> db_rel A d'"
  using sim.simulates_run [OF assms(2) db_rel_initial [OF assms(1)]] .

theorem tables_refine_logs_witness:
  "\<exists>A. logs_steps Map.empty A \<and> db_rel A (snd (sql_trim 7 ''a'' (sdb sample_new)))"
proof -
  have "db_step (sdb sample_new) (snd (sql_trim (int64 7) ''a'' (sdb sample_new)))" by (rule step_trim)
  moreover have "initial (sdb sample_new)" by (simp add: initial_def sample_new_def)
  ultimately show ?thesis
    using tables_refine_logs [of "sdb sample_new" "snd (sql_trim (int64 7) ''a'' (sdb sample_new))"]
    by (auto simp: int64_def)
qed

text \<open>
  C20: Stores do not break each other. A store that runs any sequence of calls, with any calls to
  the database failing, among sessions that only take steps of the schema, itself only
  takes steps of the schema, and its statement cache stays right; so the tables still represent
  abstract logs, later ones.
\<close>

theorem stores_compose:
  assumes "rely env" "decodes env" "good A s" "list_all call_fits cs"
  shows "db_steps (sdb s) (sdb (run_calls env cs s)) \<and> cache_ok (run_calls env cs s) \<and>
    (\<exists>A'. logs_steps A A' \<and> good A' (run_calls env cs s))"
proof -
  note c = calls_guarantee [OF assms]
  then obtain A' where "logs_steps A A'" "good A' (run_calls env cs s)"
    using good_later [OF assms(3)] by blast
  with c show ?thesis by blast
qed

theorem stores_compose_witness:
  "cache_ok (run_calls calm [Trim_call ''a'' 2, Append_call ''a'' 3 4 [[5]], Read_call ''a'' 1 9] sample_written)"
  using stores_compose [OF rely_calm decodes_calm sample_written_good,
      of "[Trim_call ''a'' 2, Append_call ''a'' 3 4 [[5]], Read_call ''a'' 1 9]"]
  by (simp add: batch_fits_def)

text \<open>
  C21: A log has no gaps. In every reachable schema both tables of a log's ring exist; every
  seqno above its watermark and up to its last has its first row in one of them, and no row
  lies outside seqnos 1 to the last.
\<close>

theorem log_has_no_gaps:
  assumes "reachable d" "find_log lid d = Some r"
  shows "\<exists>t0 t1. tables d (entriesTable (ordinal r) 0) = Some t0 \<and> tables d (entriesTable (ordinal r) 1) = Some t1 \<and>
    (\<forall>n. trim_upto r < n \<and> n \<le> last_seqno r \<longrightarrow> (\<exists>x \<in> set (t0 @ t1). row_seqno x = n \<and> row_chunk x = 0)) \<and>
    (\<forall>x \<in> set (t0 @ t1). 1 \<le> row_seqno x \<and> row_seqno x \<le> last_seqno r)"
proof -
  from assms(1) obtain A where "db_rel A d" by (rule reachable_rel)
  then obtain l plo t0 t1 where lr: "log_rel l r (tables d)" and plo: "1 \<le> plo" "plo \<le> Suc (a_trim l)"
    and t: "tables d (entriesTable (ordinal r) 0) = Some t0" "tables d (entriesTable (ordinal r) 1) = Some t1"
    and ms: "mset (t0 @ t1) = mset (run_rows (a_hist l) plo (Suc (length (a_hist l))))"
    using assms(2) by (rule log_rows)
  have set: "set (t0 @ t1) = set (run_rows (a_hist l) plo (Suc (length (a_hist l))))" using ms by (rule mset_eq_setD)
  have len: "int (length (a_hist l)) = last_seqno r" "int (a_trim l) = trim_upto r" using lr by (auto simp: log_rel_def)
  have "\<exists>x \<in> set (t0 @ t1). row_seqno x = n \<and> row_chunk x = 0" if n: "trim_upto r < n" "n \<le> last_seqno r" for n
  proof -
    from entry_at_first_row [of "a_hist l" "nat n"] obtain x where
      x: "x \<in> set (entry_at (a_hist l) (nat n))" "row_seqno x = int (nat n)" "row_chunk x = 0" by blast
    have "plo \<le> nat n" "nat n < Suc (length (a_hist l))" using n plo len by linarith+
    then have "x \<in> set (t0 @ t1)" using x(1) unfolding set run_rows_member by blast
    then show ?thesis using x n len by (intro bexI [of _ x]) auto
  qed
  moreover have "1 \<le> row_seqno x \<and> row_seqno x \<le> last_seqno r" if "x \<in> set (t0 @ t1)" for x
    using that plo(1) len unfolding set run_rows_member by (auto dest: entry_at_seqno)
  ultimately show ?thesis using t by blast
qed

theorem log_has_no_gaps_witness:
  "\<exists>x. x \<in> set rows_written \<and> row_seqno x = 2 \<and> row_chunk x = 0"
proof -
  have "ordinal row_written = 1" "trim_upto row_written < 2" "2 \<le> last_seqno row_written"
    by (simp_all add: row_written_def)
  then show ?thesis
    using log_has_no_gaps [OF sample_written_reachable sample_written_find] sample_written_table by fastforce
qed

text \<open>
  C22: Epochs never decrease along a log. In every reachable schema, of two rows of one log the
  one with the lower seqno has no higher epoch, and no row has an epoch above the log's own.
\<close>

theorem epochs_never_decrease:
  assumes "reachable d" "find_log lid d = Some r"
    and "tables d (entriesTable (ordinal r) s) = Some t" "tables d (entriesTable (ordinal r) s') = Some t'"
    and "s \<in> {0, 1}" "s' \<in> {0, 1}" "x \<in> set t" "y \<in> set t'" "row_seqno x \<le> row_seqno y"
  shows "0 < row_epoch x \<and> row_epoch x \<le> row_epoch y \<and> row_epoch y \<le> epoch r"
proof -
  from assms(1) obtain A where "db_rel A d" by (rule reachable_rel)
  then obtain l plo t0 t1 where lr: "log_rel l r (tables d)" and plo: "1 \<le> plo" "plo \<le> Suc (a_trim l)"
    and T: "tables d (entriesTable (ordinal r) 0) = Some t0" "tables d (entriesTable (ordinal r) 1) = Some t1"
    and ms: "mset (t0 @ t1) = mset (run_rows (a_hist l) plo (Suc (length (a_hist l))))"
    using assms(2) by (rule log_rows)
  have set: "set (t0 @ t1) = set (run_rows (a_hist l) plo (Suc (length (a_hist l))))" using ms by (rule mset_eq_setD)
  have ep: "epochs_ok (a_hist l) (epoch r)" using lr by (simp add: log_rel_def)
  have row: "\<exists>i < length (a_hist l). row_seqno z = int (Suc i) \<and> row_epoch z = fst (a_hist l ! i)"
    if "z \<in> set (t0 @ t1)" for z
    using that plo(1) unfolding set by (rule run_row_epoch)
  have "x \<in> set (t0 @ t1)" "y \<in> set (t0 @ t1)" using assms(3-8) T by auto
  then obtain i j where i: "i < length (a_hist l)" "row_seqno x = int (Suc i)" "row_epoch x = fst (a_hist l ! i)"
    and j: "j < length (a_hist l)" "row_seqno y = int (Suc j)" "row_epoch y = fst (a_hist l ! j)"
    using row by blast
  have "i \<le> j" using assms(9) i(2) j(2) by simp
  then have "fst (a_hist l ! i) \<le> fst (a_hist l ! j)"
    using ep j(1) sorted_nth_mono [of "map fst (a_hist l)" i j] by (simp add: epochs_ok_def)
  moreover have "0 < fst (a_hist l ! i)" "fst (a_hist l ! j) \<le> epoch r"
    using ep i(1) j(1) by (auto simp: epochs_ok_def)
  ultimately show ?thesis using i j by simp
qed

theorem epochs_never_decrease_witness:
  "0 < row_epoch (rows_written ! 0) \<and> row_epoch (rows_written ! 0) \<le> row_epoch (rows_written ! 2) \<and>
   row_epoch (rows_written ! 2) \<le> epoch row_written"
  using epochs_never_decrease [OF sample_written_reachable sample_written_find, of 0 rows_written 0 rows_written
      "rows_written ! 0" "rows_written ! 2"] sample_written_table
  by (simp add: row_written_def rows_written_def)

text \<open>
  C23: Every row fits a page: in every reachable schema no row of a log carries more than
  \<open>MaxEntryChunk\<close> bytes of payload.
\<close>

theorem rows_fit_a_page:
  assumes "reachable d" "find_log lid d = Some r"
    and "tables d (entriesTable (ordinal r) s) = Some t" "s \<in> {0, 1}" "x \<in> set t"
  shows "length (row_payload x) \<le> MaxEntryChunk"
proof -
  from assms(1) obtain A where "db_rel A d" by (rule reachable_rel)
  then obtain l plo t0 t1 where "log_rel l r (tables d)" "1 \<le> plo" "plo \<le> Suc (a_trim l)"
    and T: "tables d (entriesTable (ordinal r) 0) = Some t0" "tables d (entriesTable (ordinal r) 1) = Some t1"
    and ms: "mset (t0 @ t1) = mset (run_rows (a_hist l) plo (Suc (length (a_hist l))))"
    using assms(2) by (rule log_rows)
  have "x \<in> set (t0 @ t1)" using assms(3-5) T by auto
  then have "x \<in> set (run_rows (a_hist l) plo (Suc (length (a_hist l))))" using mset_eq_setD [OF ms] by blast
  then show ?thesis using codec.row_bound by (auto simp: run_rows_def entry_at_def entry_rows_def)
qed

theorem rows_fit_a_page_witness:
  "length (row_payload (rows_written ! 0)) \<le> MaxEntryChunk"
  using rows_fit_a_page [OF sample_written_reachable sample_written_find, of 0 rows_written "rows_written ! 0"]
    sample_written_table by (simp add: row_written_def rows_written_def)

section \<open>The schema\<close>

text \<open>
  C24: Migrating, then opening, while nobody else writes and no call fails, with a goose that does what
  it documents: it applies the migration where its version table does not record it. On a schema with
  no table of this package \<open>Migrate\<close> answers nil, and so does \<open>Open\<close> after it, and the store is one over
  a schema with no logs, with a cache that has nothing wrong in it. Migrating again, after anything
  stores have done there since, answers nil and changes nothing. A registry that no version table
  records is refused, and left as it is with its entry tables.
\<close>

theorem migrate_then_open:
  assumes "quiet env" "goose_applies G" "empty_schema (sdb s)"
  shows "fst (Migrate G env s) = Inr () \<and> initial (sdb (snd (Migrate G env s))) \<and>
    fst (Open env (snd (Migrate G env s))) = Inr () \<and> good Map.empty (snd (Open env (snd (Migrate G env s)))) \<and>
    (\<forall>s' :: sys. db_steps (sdb (snd (Migrate G env s))) (sdb s') \<longrightarrow>
       fst (Migrate G env s') = Inr () \<and> sdb (snd (Migrate G env s')) = sdb s') \<and>
    (\<forall>s' :: sys. registry (sdb s') \<noteq> None \<and> version_table (sdb s') = None \<longrightarrow> fst (Migrate G env s') \<noteq> Inr () \<and>
       registry (sdb (snd (Migrate G env s'))) = registry (sdb s') \<and> tables (sdb (snd (Migrate G env s'))) = tables (sdb s'))"
proof (intro conjI allI impI)
  note m = goose_applies_Migrate [OF assms(2,1)]
  let ?d = "sdb (snd (Migrate G env s))"
  have up: "up_one migration_up (sdb s) = (Inr (), (sdb s)\<lparr>registry := Some [], next_ordinal := 1, version_table := Some [0, 1]\<rparr>)"
    using assms(3) by (intro up_one_fresh) (simp_all add: empty_schema_def)
  show "fst (Migrate G env s) = Inr ()" using m(1) up by simp
  show i: "initial ?d" using m(2) [of s] up assms(3) by (simp add: initial_def empty_schema_def)
  then show "fst (Open env (snd (Migrate G env s))) = Inr ()" "good Map.empty (snd (Open env (snd (Migrate G env s))))"
    using db_rel_initial [OF i] by (simp_all add: Open_quiet [OF assms(1)] good_def cache_ok_def initial_def)
  fix s' :: sys
  { assume "db_steps ?d (sdb s')"
    then have "records (sdb s')" using version_steps [of ?d "sdb s'"] m(2) [of s] up by (simp add: records_def)
    then show "fst (Migrate G env s') = Inr ()" "sdb (snd (Migrate G env s')) = sdb s'"
      using m(1,2) by (simp_all add: up_one_recorded) }
  { assume "registry (sdb s') \<noteq> None \<and> version_table (sdb s') = None"
    then have "up_one migration_up (sdb s') = (Inl duplicate_table, with_versions (sdb s'))" "version_table (sdb s') = None"
      using up_one_unrecorded [of "sdb s'"] by (auto simp: records_def)
    then show "fst (Migrate G env s') \<noteq> Inr ()" "registry (sdb (snd (Migrate G env s'))) = registry (sdb s')"
      "tables (sdb (snd (Migrate G env s'))) = tables (sdb s')" using m(1,2) by (simp_all add: with_versions_def) }
qed

theorem migrate_then_open_witness:
  "good Map.empty (snd (Open calm (snd (Migrate plain_goose calm sample_empty)))) \<and>
   fst (Migrate plain_goose calm (snd (Migrate plain_goose calm sample_empty))) = Inr ()"
  using migrate_then_open [OF quiet_calm plain_goose_applies, of sample_empty]
  by (simp add: empty_schema_def sample_empty_def sample_new_def)

text \<open>
  C25: Opening creates nothing, whatever other sessions do: \<open>Open\<close> leaves every table as it is. When its
  call runs it succeeds where the registry exists at that moment and answers \<open>ErrNotMigrated\<close> where it
  does not; when its call fails the answer is an error, and never \<open>ErrNotMigrated\<close>.
\<close>

theorem open_creates_nothing:
  "untouched env s (snd (Open env s)) \<and>
   (if outcome_of env (clk s) = Runs
    then fst (Open env s) = (if registry (sdb (others env s)) = None then Inl (Sentinel ErrNotMigrated) else Inr ())
    else \<exists>err. fst (Open env s) = Inl err \<and> (\<forall>x. err \<noteq> Sentinel x))"
  using Open_untouched [of env s "fst (Open env s)" "snd (Open env s)"] Open_answer [of env s] by simp

text \<open>
  C26: Dropping leaves nothing behind. From any schema that stores can have brought about, while
  nobody else writes and no call fails, \<open>Drop\<close> removes the registry, goose's version table and every entry table, because each of
  those belongs to a log of the registry.
\<close>

theorem drop_leaves_nothing:
  assumes "quiet env" "reachable (sdb s)"
  shows "fst (Drop env s) = Inr () \<and> registry (sdb (snd (Drop env s))) = None \<and>
    version_table (sdb (snd (Drop env s))) = None \<and> (\<forall>t. tables (sdb (snd (Drop env s))) t = None)"
  using Drop_quiet [OF assms(1) no_orphans_reachable [OF assms(2)]] by simp

theorem drop_leaves_nothing_witness:
  "fst (Drop calm sample_written) = Inr () \<and> (\<forall>t. tables (sdb (snd (Drop calm sample_written))) t = None)"
  using drop_leaves_nothing [OF quiet_calm sample_written_reachable] by simp

text \<open>
  C27: The down migration removes what \<open>Drop\<close> removes. From any schema that stores can have
  brought about, the names its SQL formats are the names the package gives the entry tables:
  it answers nil and leaves no registry and no entry table, like \<open>Drop\<close>.
\<close>

theorem down_drops_what_drop_drops:
  assumes "quiet env" "reachable (sdb s)" "registry (sdb s) \<noteq> None"
  shows "fst (migration_down (sdb s)) = Inr () \<and>
    tables (snd (migration_down (sdb s))) = tables (sdb (snd (Drop env s))) \<and>
    registry (snd (migration_down (sdb s))) = registry (sdb (snd (Drop env s)))"
proof -
  note orphans = no_orphans_reachable [OF assms(2)]
  from assms(3) obtain rows where "registry (sdb s) = Some rows" by auto
  with migration_down_tables [OF orphans] Drop_quiet [OF assms(1) orphans] show ?thesis by simp
qed

theorem down_drops_what_drop_drops_witness:
  "tables (snd (migration_down (sdb sample_written))) = tables (sdb (snd (Drop calm sample_written)))"
proof -
  have "registry (sdb sample_written) \<noteq> None" using sample_written_find by (auto simp: find_log_def split: option.splits)
  then show ?thesis using down_drops_what_drop_drops [OF quiet_calm sample_written_reachable] by simp
qed

section \<open>Identifiers\<close>

text \<open>
  C28: An identifier is accepted exactly when it is not empty, at most 255 bytes long, without a
  NUL, and the UTF-8 encoding of some sequence of Unicode scalar values.
\<close>

theorem identifiers_accepted:
  "checkLogID lid = None \<longleftrightarrow>
     lid \<noteq> [] \<and> length lid \<le> 255 \<and> CHR 0x00 \<notin> set lid \<and>
     (\<exists>rs. list_all scalar rs \<and> map of_char lid = concat (map encode_rune rs))"
  by (simp add: checkLogID_None_iff storable_id_def utf8_text_def MaxLogIDBytes_def)

section \<open>The load generator\<close>

text \<open>
  C29: Starting a load, while nobody else writes and no call fails. Where pgx accepts the DSN and builds
  pools of at least one connection, goose does what it documents and the random bytes come; for an
  accepted configuration that migrates, names logs with ids the package accepts, asks for 1 to 2^31 - 1
  connections and an epoch below two to the 63; on a schema with no table of the package, or a migrated
  one where no log it names belongs to a later epoch: a run starts. It migrates, opens and creates,
  draws its corpus and claims every log, their ids all different, each writer standing right past the
  end of its own log; and ownership is all that changed of the logs that were there.
\<close>

theorem load_starts:
  assumes "quiet env" "pgx_opens P cfg" "random_fills random" "goose_applies G"
    and "config_ok cfg" "cfg_migrate cfg" "check_ids (log_ids cfg) = None" "0 < int64 (cfg_epoch cfg)"
    and "1 \<le> cfg_conns cfg" "cfg_conns cfg < 2 ^ 31"
    and "empty_schema (sdb s) \<and> A = Map.empty \<or> good A s \<and> records (sdb s)"
    and "\<forall>lid \<in> set (log_ids cfg). \<forall>l. A lid = Some l \<longrightarrow> a_owner l \<le> int64 (cfg_epoch cfg)"
  shows "\<exists>n ws s'. start_load P G random wild start env cfg s =
      (Inr (plan wild (cfg\<lparr>cfg_cache := n\<rparr>) ws, start_drive start (cfg\<lparr>cfg_cache := n\<rparr>) ws s'), s') \<and>
    map w_id ws = log_ids cfg \<and> distinct (log_ids cfg) \<and> length (log_ids cfg) = nat (cfg_logs cfg) \<and>
    good (taken (log_ids cfg) (int64 (cfg_epoch cfg)) (created (log_ids cfg) A)) s' \<and>
    (\<forall>w \<in> set ws. \<forall>l. created (log_ids cfg) A (w_id w) = Some l \<longrightarrow> uint (w_next w) = int (length (a_hist l)) + 1)"
proof -
  from start_load_quiet [OF assms, of wild start] obtain n buf ws s' where
    r: "start_load P G random wild start env cfg s =
      (Inr (plan wild (cfg\<lparr>cfg_cache := n\<rparr>) ws, start_drive start (cfg\<lparr>cfg_cache := n\<rparr>) ws s'), s')"
    "map fixed_of ws = map (\<lambda>lid. (lid, cfg_epoch cfg, cfg\<lparr>cfg_cache := n\<rparr>, buf)) (log_ids cfg)"
    "good (taken (log_ids cfg) (int64 (cfg_epoch cfg)) (created (log_ids cfg) A)) s'"
    "\<forall>w \<in> set ws. \<forall>l. created (log_ids cfg) A (w_id w) = Some l \<longrightarrow> uint (w_next w) = int (length (a_hist l)) + 1" by blast
  have "map w_id ws = map fst (map fixed_of ws)" by (simp add: fixed_of_def)
  also have "\<dots> = log_ids cfg" unfolding r(2) by (simp add: comp_def)
  finally show ?thesis using r(1,3,4) log_ids_distinct length_log_ids by blast
qed

theorem load_starts_witness:
  "\<exists>n ws s'. start_load sample_pgx plain_goose sample_random (\<lambda>_. 0) 0 calm sample_config sample_empty =
      (Inr (plan (\<lambda>_. 0) (sample_config\<lparr>cfg_cache := n\<rparr>) ws, start_drive 0 (sample_config\<lparr>cfg_cache := n\<rparr>) ws s'), s') \<and>
    map w_id ws = [''a-0000'', ''a-0001'']"
proof -
  have ids: "log_ids sample_config = [''a-0000'', ''a-0001'']" by code_simp
  have "check_ids (log_ids sample_config) = None" by code_simp
  moreover have "0 < int64 (cfg_epoch sample_config)" "cfg_migrate sample_config" "1 \<le> cfg_conns sample_config"
    "cfg_conns sample_config < 2 ^ 31" by (simp_all add: sample_config_def int64_def)
  moreover have "pgx_opens sample_pgx sample_config" "random_fills sample_random"
    by (simp_all add: pgx_opens_def sample_pgx_def random_fills_def sample_random_def)
  moreover have "empty_schema (sdb sample_empty)"
    by (simp add: empty_schema_def sample_empty_def sample_new_def)
  ultimately have "\<exists>n ws s'. start_load sample_pgx plain_goose sample_random (\<lambda>_. 0) 0 calm sample_config sample_empty =
      (Inr (plan (\<lambda>_. 0) (sample_config\<lparr>cfg_cache := n\<rparr>) ws, start_drive 0 (sample_config\<lparr>cfg_cache := n\<rparr>) ws s'), s') \<and>
    map w_id ws = log_ids sample_config"
    using load_starts [OF quiet_calm _ _ plain_goose_applies parseFlags_ok [OF sample_config_parsed],
        where A = Map.empty and s = sample_empty and P = sample_pgx and random = sample_random and wild = "\<lambda>_. 0" and start = 0]
    by fastforce
  then show ?thesis unfolding ids .
qed

text \<open>
  C30: A load nobody disturbs writes everything it is asked to, within bounded space. A writer that
  claimed its log and runs any number of slots sends a batch in every one: it is still going,
  its log is what it was and the batches after it, all of its epoch and all readable, as
  many as were asked for; the appends it counts are the slots. It never trims the entries it
  was told to retain, and what is left above the watermark is less than those and one stride.
\<close>

theorem quiet_load_runs:
  assumes "quiet env" "good A s" "A lid = Some l" "checkLogID lid = None"
    and "config_ok cfg" "cfg_retain cfg \<le> bigint_max" "sizes_ok (cfg_sizes cfg)"
    and "int (length buf) = corpus_size (largest (cfg_sizes cfg))"
    and "a_owner l \<le> int64 (cfg_epoch cfg)" "0 < int64 (cfg_epoch cfg)"
    and "list_all (\<lambda>sl. \<not> sl_cancelled sl) slots" "slots \<noteq> []"
    and "int (length (a_hist l)) + 1 + int (length slots) * cfg_batch cfg \<le> bigint_max"
  shows "\<exists>w x A' l' ps. claim env (new_writer cfg buf lid s) = (Inr (), w) \<and>
    run_slots env slots (start_run start w) = (Going, x) \<and> good A' (w_store (r_w x)) \<and> A' lid = Some l' \<and>
    a_hist l' = a_hist l @ map (Pair (int64 (cfg_epoch cfg))) ps \<and>
    length ps = length slots * nat (cfg_batch cfg) \<and> list_all readable ps \<and>
    c_appends (w_c (r_w x)) = of_nat (length slots) \<and>
    int (a_trim l') \<le> max (int (a_trim l)) (int (length (a_hist l')) - cfg_retain cfg) \<and>
    (0 < cfg_retain cfg \<longrightarrow> int (length (a_hist l')) - int (a_trim l') < cfg_retain cfg + cfg_stride cfg)"
proof -
  let ?l = "l\<lparr>a_owner := int64 (cfg_epoch cfg)\<rparr>" and ?A = "A(lid \<mapsto> l\<lparr>a_owner := int64 (cfg_epoch cfg)\<rparr>)"
  from assms(1-4,9,10) obtain w where w: "claim env (new_writer cfg buf lid s) = (Inr (), w)"
    "same_writer (new_writer cfg buf lid s) w" "caught_up ?A ?l w" by (rule claim_quiet)
  have f: "w_id w = lid" "w_cfg w = cfg" "w_epoch w = cfg_epoch cfg" "w_corpus w = buf"
    using w(2) by (simp_all add: same_writer_def new_writer_def)
  have "between_slots ?A ?l (start_run start w)"
    using w(3) assms(5-8) f(2,4) by (simp add: between_slots_def start_run_def newPacer_def config_ok_def)
  moreover have "uint (w_next (r_w (start_run start w))) + int (length slots) * cfg_batch (w_cfg (r_w (start_run start w))) \<le> bigint_max"
    using w(3) f(2) assms(13) by (simp add: start_run_def caught_up_def)
  ultimately obtain x A' l' where r: "run_slots env slots (start_run start w) = (Going, x)"
    "between_slots A' l' x" "same_writer w (r_w x)" "adds_batches w (length slots) ?l l'" "keeps_enough cfg ?l l'"
    "c_appends (w_c (r_w x)) = c_appends (w_c w) + of_nat (length slots)"
    using run_slots_quiet [OF assms(1) _ assms(11,12)] f(2) by (fastforce simp: start_run_def)
  have "c_appends (w_c w) = 0" using claim_counters [OF w(1)] by (simp add: new_writer_def no_counters_def)
  moreover have "good A' (w_store (r_w x))" "A' lid = Some l'"
    using r(2,3) f(1) by (auto simp: between_slots_def caught_up_def same_writer_def)
  moreover from r(4) f obtain ps where "a_hist l' = a_hist l @ map (Pair (int64 (cfg_epoch cfg))) ps"
    "length ps = length slots * nat (cfg_batch cfg)" "list_all readable ps"
    by (auto simp: adds_batches_def list_all_iff)
  moreover have "int (a_trim l') \<le> max (int (a_trim l)) (int (length (a_hist l')) - cfg_retain cfg)"
    "0 < cfg_retain cfg \<longrightarrow> int (length (a_hist l')) - int (a_trim l') < cfg_retain cfg + cfg_stride cfg"
    using r(5) by (simp_all add: keeps_enough_def)
  ultimately show ?thesis using w(1) r(1,6) add_0 by metis
qed

theorem quiet_load_runs_witness:
  "\<exists>w x A' l' ps. claim calm (new_writer sample_config sample_corpus ''a'' sample_created) = (Inr (), w) \<and>
    run_slots calm sample_slots (start_run 0 w) = (Going, x) \<and>
    good A' (w_store (r_w x)) \<and> A' ''a'' = Some l' \<and> length ps = 4 \<and>
    a_hist l' = map (Pair 3) ps \<and> c_appends (w_c (r_w x)) = 4 \<and> int (length (a_hist l')) - int (a_trim l') < 3"
proof -
  have "checkLogID ''a'' = None" by code_simp
  moreover have "int (length sample_corpus) = corpus_size (largest (cfg_sizes sample_config))"
    using sample_corpus_size by (simp add: sample_config_def)
  moreover have "sizes_ok (cfg_sizes sample_config)" using sample_sizes_ok by (simp add: sample_config_def)
  ultimately have "\<exists>w x A' l' ps. claim calm (new_writer sample_config sample_corpus ''a'' sample_created) = (Inr (), w) \<and>
    run_slots calm sample_slots (start_run 0 w) = (Going, x) \<and>
    good A' (w_store (r_w x)) \<and> A' ''a'' = Some l' \<and> a_hist l' = a_hist new_log @ map (Pair (int64 3)) ps \<and>
    length ps = 4 \<and> list_all readable ps \<and> c_appends (w_c (r_w x)) = of_nat 4 \<and>
    int (a_trim l') \<le> max (int (a_trim new_log)) (int (length (a_hist l')) - 2) \<and>
    (0 < (2 :: int) \<longrightarrow> int (length (a_hist l')) - int (a_trim l') < 2 + 1)"
    using quiet_load_runs [OF quiet_calm sample_created_good _ _ parseFlags_ok [OF sample_config_parsed],
        of "''a''" new_log sample_corpus sample_slots 0]
    by (simp add: sample_config_simps sample_slots_simps)
  then show ?thesis by (fastforce simp: sample_config_simps)
qed

text \<open>
  C31: No writer of a run loses its place. From the claims on, whatever turns the writers take
  side by side, whatever other sessions do to their logs and whichever calls fail, no writer ever
  stands past its log's end: in no run is a gap counted, which the code calls unreachable.
\<close>

theorem writers_meet_no_gap:
  assumes "usable_env env'" "good A s" "claim_all env' cfg buf ids s = (Inr ws, s1)" "usable_env env"
    and "(\<lambda>d d'. drive_fits d \<and> drive_step env d d')\<^sup>*\<^sup>* (start_drive start cfg ws s1) d"
  shows "c_gaps (d_c d) = 0 \<and>
    (\<forall>(st, x) \<in> set (d_tasks d). \<exists>A l. good A (d_store d) \<and> A (w_id (r_w x)) = Some l \<and>
       uint (w_next (r_w x)) \<le> int (length (a_hist l)) + 1)"
proof -
  have "places_ok d"
    using assms(5)
  proof (induction rule: rtranclp_induct)
    case base
    show ?case using assms(1-3) by (rule start_places_ok)
  next
    case (step d1 d2)
    then show ?case using places_ok_step [OF assms(4)] by blast
  qed
  then show ?thesis by (fastforce simp: places_ok_def store.reached_def holds_log_def)
qed

theorem writers_meet_no_gap_witness:
  "c_gaps (d_c (drive_slot landed_once 0 (sample_slot 0) sample_drive)) = 0"
proof -
  have "usable_env landed_once"
    using quiet_calm by (simp add: landed_once_def usable_env_def rely_def decodes_def quiet_def)
  moreover have "drive_fits sample_drive" by code_simp
  moreover have "drive_step landed_once sample_drive (drive_slot landed_once 0 (sample_slot 0) sample_drive)"
    by (intro step_slot) (simp_all add: sample_drive_def sample_slot_def start_drive_def writer_starts_def)
  ultimately show ?thesis
    using writers_meet_no_gap [OF usable_calm sample_created_good sample_claim_all, of landed_once 0]
    by (simp add: sample_drive_def r_into_rtranclp)
qed

text \<open>
  C32: A run ends. Once the context is over, by a signal, the run's deadline or a writer's failure, a
  turn of each writer that notices it is enough, in any order and however often: every writer has
  returned, the answer is the first failure or nil, and nothing more was written.
\<close>

theorem run_ends:
  assumes "claim_all env' cfg buf ids s = (Inr ws, s1)" "config_ok cfg" "sizes_ok (cfg_sizes cfg)"
    and "int (length buf) = corpus_size (largest (cfg_sizes cfg))"
    and "(drive_step env)\<^sup>*\<^sup>* (start_drive start cfg ws s1) d" "d_ended d"
    and "list_all (sl_cancelled \<circ> snd) turns" "fst ` set turns = {..<length ws}"
  shows "(drive_step env)\<^sup>*\<^sup>* d (drive_turns env turns d) \<and> d_store (drive_turns env turns d) = d_store d \<and>
    drive_result (drive_turns env turns d) = Some (case d_failures d of [] \<Rightarrow> None | err # _ \<Rightarrow> Some err)"
proof -
  have ok: "tasks_ok d" using drive_run_keeps(2) [OF assms(5) start_tasks_ok [OF assms(1-4)]] .
  have len: "length (d_tasks d) = length ws" using drive_run_keeps(1) [OF assms(5)] by (simp add: start_drive_tasks(1))
  show ?thesis
    using drive_turns_steps [OF ok assms(7) _ assms(6)] drive_turns_ended [OF ok assms(7), of env] assms(8) len by simp
qed

theorem run_ends_witness:
  "\<exists>ws s. claim_all calm sample_config sample_corpus [''a''] sample_created = (Inr ws, s) \<and>
     drive_result (drive_turns calm [(0, sample_stop)] ((start_drive 0 sample_config ws s)\<lparr>d_ended := True\<rparr>)) = Some None"
proof -
  obtain ws s where ws: "claim_all calm sample_config sample_corpus [''a''] sample_created = (Inr ws, s)" "length ws = 1"
    by (rule sample_claimed)
  let ?d = "(start_drive 0 sample_config ws s)\<lparr>d_ended := True\<rparr>"
  have "(drive_step calm)\<^sup>*\<^sup>* (start_drive 0 sample_config ws s) ?d" by (intro r_into_rtranclp step_stop)
  moreover have "sizes_ok (cfg_sizes sample_config)" "int (length sample_corpus) = corpus_size (largest (cfg_sizes sample_config))"
    using sample_sizes_ok sample_corpus_size by (simp_all add: sample_config_def)
  moreover have "list_all (sl_cancelled \<circ> snd) [(0 :: nat, sample_stop)]" by (simp add: sample_stop_def)
  moreover have "d_failures ?d = []" "{..<length ws} = {0}" using ws(2) by (auto simp: start_drive_def)
  ultimately show ?thesis
    using run_ends [OF ws(1) parseFlags_ok [OF sample_config_parsed], where env = calm and d = ?d and turns = "[(0, sample_stop)]"]
      ws(1) by auto
qed

text \<open>
  C33: A run fails only by losing a log. Whatever happens, every failure a writer reports is
  \<open>ErrFenced\<close>, and so is the error a run returns; the channel never gets more failures than it has
  room for, so that no writer blocks on it; and a failure ends the context of every writer. No other
  refusal, a gap in the log for one, ends a run.
\<close>

theorem run_fails_only_fenced:
  assumes "(drive_step env)\<^sup>*\<^sup>* (start_drive start cfg ws s) d"
  shows "list_all (\<lambda>err. errors_Is err ErrFenced) (d_failures d) \<and> length (d_failures d) \<le> length ws \<and>
    (d_failures d = [] \<or> d_ended d) \<and> (\<forall>err. drive_result d = Some (Some err) \<longrightarrow> errors_Is err ErrFenced)"
proof -
  have "failures_ok (start_drive start cfg ws s)"
    using start_drive_tasks(2) by (force simp: failures_ok_def start_drive_def filter_empty_conv)
  with assms have ok: "failures_ok d" by (rule drive_run_keeps(3))
  have "length (d_failures d) \<le> length (d_tasks d)" using ok by (simp add: failures_ok_def)
  moreover have "length (d_tasks d) = length ws" using drive_run_keeps(1) [OF assms] by (simp add: start_drive_tasks(1))
  moreover have "errors_Is err ErrFenced" if "drive_result d = Some (Some err)" for err
    using that ok by (auto simp: drive_result_def failures_ok_def split: if_splits list.splits)
  ultimately show ?thesis using ok by (auto simp: failures_ok_def)
qed

theorem run_fails_only_fenced_witness:
  "length (d_failures (drive_slot calm 0 (sample_slot 0) sample_drive)) \<le> 1"
proof -
  have "drive_step calm sample_drive (drive_slot calm 0 (sample_slot 0) sample_drive)"
    by (intro step_slot) (simp_all add: sample_drive_def sample_slot_def start_drive_def writer_starts_def)
  then show ?thesis
    using run_fails_only_fenced [of calm 0 sample_config "[sample_writer]" "w_store sample_writer"]
    by (simp add: sample_drive_def r_into_rtranclp)
qed

text \<open>
  A batch that is acknowledged is sent once more. The connection is lost right after an
  append took effect; the replay is answered with \<open>ErrAlreadyWritten\<close>, which the writer counts as
  the acknowledgement of it and by which it moves on past the entry, and then the next slot
  appends the very same batch again: the log holds it twice, where the run drew it once.
\<close>

theorem acknowledged_batch_sent_again:
  "let (st, x) = sample_run in
   st = Going \<and> c_acks (w_c (r_w x)) = 1 \<and> c_appends (w_c (r_w x)) = 1 \<and>
   fst (ReadFrom calm ''a'' 1 9 (w_store (r_w x))) =
     Inr [\<lparr>Seqno = 1, Epoch = 3, Payload = [1]\<rparr>, \<lparr>Seqno = 2, Epoch = 3, Payload = [1]\<rparr>]"
  by code_simp

text \<open>
  C34: The rate is kept and bursts are bounded. For every configuration the flags are accepted for,
  the pacer gives a slot for every reading of the clock; no slot runs before its turn, counting
  the ones given up on; and however late a writer gets, the slots after any slot come no closer
  together than the interval, less the one catch-up it may make good.
\<close>

theorem pacing_keeps_rate:
  assumes "parseFlags wild unix fl = Inr cfg" "start - hd nows \<le> bigint_max"
  shows "\<exists>slots. pace (newPacer start (cfg_interval cfg) (cfg_catchup cfg)) nows = Some slots \<and> length slots = length nows \<and>
    (clock_follows nows slots \<longrightarrow>
      (\<forall>n < length nows. start + (int n + sum_list (map snd (take (Suc n) slots))) * cfg_interval cfg \<le> fst (slots ! n)) \<and>
      (\<forall>m n. m < n \<longrightarrow> n < length nows \<longrightarrow>
        fst (slots ! m) + int (n - m) * cfg_interval cfg - cfg_catchup cfg \<le> fst (slots ! n)))"
proof -
  let ?p = "newPacer start (cfg_interval cfg) (cfg_catchup cfg)"
  have p: "0 < interval ?p" "interval ?p \<le> bigint_max" "0 \<le> catchup ?p" "catchup ?p < bigint_max"
    using parseFlags_ok [OF assms(1)] by (simp_all add: config_ok_def newPacer_def second_def)
  from pace_total [OF p(1)] obtain slots where s: "pace ?p nows = Some slots" "length slots = length nows" by blast
  have "due ?p - hd nows \<le> bigint_max" using assms(2) by (simp add: newPacer_def)
  with pace_paced [OF p _ s(1)] s show ?thesis by (auto simp: paced_def newPacer_def)
qed

theorem pacing_keeps_rate_witness:
  "pace (newPacer 0 1000 1000000000) [0, 5000000000, 5000000400] =
     Some [(0, 0), (5000000000, 4999999), (5000001000, 0)] \<and>
   0 + (1 + (4999999 :: int)) * 1000 \<le> 5000000000"
proof -
  have "cfg_interval sample_config = 1000" "cfg_catchup sample_config = 1000000000"
    by (simp_all add: sample_config_def)
  moreover have p: "pace (newPacer 0 1000 1000000000) [0, 5000000000, 5000000400] =
     Some [(0, 0), (5000000000, 4999999), (5000001000, 0)]" by code_simp
  moreover have "clock_follows [0, 5000000000, 5000000400] [(0, 0), (5000000000, 4999999), (5000001000, 0)]"
    by (auto simp: clock_follows_def less_Suc_eq nth_Cons split: nat.splits)
  ultimately have "\<forall>n < Suc (Suc (Suc 0)). 0 + (int n + sum_list (map snd (take (Suc n)
        [(0, 0), (5000000000, 4999999), (5000001000 :: int, 0)]))) * 1000
      \<le> fst ([(0, 0), (5000000000, 4999999 :: int), (5000001000, 0)] ! n)"
    using pacing_keeps_rate [OF sample_config_parsed, of 0 "[0, 5000000000, 5000000400]"] by simp
  from spec [OF this, of 1] p show ?thesis by simp
qed

text \<open>
  C35: Lengths are drawn by weight. For a distribution that was read and whose weights add up
  within an \<open>int\<close>, a draw never runs past the classes: of the numbers below the total weight,
  exactly as many fall in a class as it weighs, and what is drawn for a random number is the length of
  the class the number, taken below the total, falls in, which is at most the largest the tool admits.
\<close>

theorem lengths_drawn_by_weight:
  assumes "parseSizes spec = Inr s" "sum_list (map sc_weight (classes s)) \<le> bigint_max" "i < length (classes s)"
  shows "int (card {x. x < nat (sz_total s) \<and> draw_index s (int x) = i}) = sc_weight (classes s ! i) \<and>
    (\<forall>x. draw_index s (int x mod sz_total s) < length (classes s) \<and>
       draw s x = Some (sc_bytes (classes s ! draw_index s (int x mod sz_total s))) \<and>
       0 \<le> sc_bytes (classes s ! draw_index s (int x mod sz_total s)) \<and>
       sc_bytes (classes s ! draw_index s (int x mod sz_total s)) \<le> maxPayload)"
proof -
  have ok: "sizes_ok s" using assms(1,2) by (rule parseSizes_ok)
  have "0 \<le> sc_bytes (classes s ! k) \<and> sc_bytes (classes s ! k) \<le> maxPayload" if "k < length (classes s)" for k
    using ok that by (auto simp: sizes_ok_def list_all_length)
  then show ?thesis using draw_index_card [OF ok assms(3)] draw_falls [OF ok parseSizes_nonempty [OF assms(1)]] by blast
qed

theorem lengths_drawn_by_weight_witness:
  "card {x. x < nat (sz_total sample_sizes) \<and> draw_index sample_sizes (int x) = 0} = 2"
  using lengths_drawn_by_weight [OF sample_sizes_parsed, of 0] by (simp add: sample_sizes_def)

text \<open>
  C36: The rows a run reports are the rows it writes. What the writer counts for a batch, by a
  formula of its own, is the number of rows the append sends for it, which is also what the
  append reserves room for; and an entry is counted as cut exactly when it takes several rows.
\<close>

theorem rows_counted_are_rows_sent:
  "c_rows (record_batch ps c) = c_rows c + of_nat (length (unnest e (chunkArrays first ps))) \<and>
   length (unnest e (chunkArrays first ps)) = chunkArrays_cap ps \<and>
   c_cut (record_batch ps c) = c_cut c + of_nat (length (filter (\<lambda>p. 1 < length (chunksOf p)) ps)) \<and>
   c_entries (record_batch ps c) = c_entries c + of_nat (length ps)"
  by (simp add: record_batch_def unnest_rows chunk_count_rowsOf chunkArrays_cap_def length_chunksOf)

text \<open>
  C37: A reported latency is at most a quarter above the sample it names. Whatever durations were
  observed, below 146 years each and up to \<open>2 ^ 53\<close> of them, the quantile at \<open>q\<close> names a sample at
  most one and a half places from the rank asked for, the last one for \<open>q = 1\<close>: it is no less than that
  sample, in microseconds, and at most a quarter more.
\<close>

theorem quantile_near_sample:
  assumes "ds \<noteq> []" "length ds \<le> 2 ^ 53" "\<forall>d \<in> set ds. d < 2 ^ 62" "0 \<le> x" "x \<le> 1"
  shows "\<exists>k < length ds. \<bar>of_nat k - x * (of_nat (length ds) - 1)\<bar> \<le> 3 / 2 \<and> (x = 1 \<longrightarrow> k = length ds - 1) \<and>
    1000 * uint (sort (map micros ds) ! k) \<le> quantile wild (observed ds) (Fin x) \<and>
    4 * quantile wild (observed ds) (Fin x) \<le> 5 * (1000 * uint (sort (map micros ds) ! k))"
proof -
  have n: "0 < length ds" "length ds < 2 ^ 64" using assms(1,2) by simp_all
  from assms(4,5) n(1) assms(2) obtain k where k: "k < length ds"
    "quantile_rank wild (Fin x) (of_nat (length ds) - 1) = of_nat k"
    "\<bar>of_nat k - x * (of_nat (length ds) - 1)\<bar> \<le> 3 / 2" "x = 1 \<longrightarrow> k = length ds - 1"
    by (rule quantile_rank_near [where wild = wild])
  from quantile_bounds [OF k(1) n(2) k(2) assms(3)] k show ?thesis by blast
qed

theorem quantile_near_sample_witness:
  "1000 * uint (sort (map micros [5000000, 9000, 70000]) ! 2) \<le>
     quantile (\<lambda>_. 0) (observed [5000000, 9000, 70000]) (Fin 1)"
proof -
  define ds :: "int list" where "ds = [5000000, 9000, 70000]"
  have "ds \<noteq> []" "length ds \<le> 2 ^ 53" "\<forall>d \<in> set ds. d < 2 ^ 62" and k: "length ds - 1 = 2" by (simp_all add: ds_def)
  from quantile_near_sample [OF this(1-3), of 1 "\<lambda>_. 0"] show ?thesis unfolding ds_def [symmetric] k by auto
qed

text \<open>
  C38: The interval is the rate asked for. For every accepted rate that is a number and whose exact
  interval, the number of logs over the rate, is at most 2^62 nanoseconds (146 years), the interval a
  writer keeps is the exact one to within a nanosecond and a part in 2^51 of it, in spite of the
  roundings of its three floating-point steps.
\<close>

theorem interval_near_rate:
  assumes "parseFlags wild unix fl = Inr cfg" "f_rps fl = Fin r" "f_logs fl < 2 ^ 63"
    and "of_int second * of_int (f_logs fl) / r \<le> 2 ^ 62"
  shows "\<bar>of_int (cfg_interval cfg) - of_int second * of_int (f_logs fl) / r\<bar> \<le>
    1 + of_int second * of_int (f_logs fl) / r / 2 ^ 51"
proof -
  from assms(1) obtain sz where "parseSizes (f_sizes fl) = Inr sz"
    by (cases "parseSizes (f_sizes fl)") (auto simp: parseFlags_def)
  with assms(1,2) have "0 < f_logs fl" "0 < r" "0 < rate_interval wild (f_logs fl) (Fin r)"
    "cfg_interval cfg = rate_interval wild (f_logs fl) (Fin r)"
    by (auto simp: parseFlags_def checkFlags_def Let_def split: if_splits)
  then show ?thesis using rate_interval_near [OF _ assms(3) _ refl assms(4)] by simp
qed

theorem interval_near_rate_witness:
  "\<bar>of_int (cfg_interval sample_config) - of_int second * 2 / 2000000\<bar> \<le> (1 + of_int second * 2 / 2000000 / 2 ^ 51 :: rat)"
  using interval_near_rate [OF sample_config_parsed, of 2000000] by (simp add: sample_flags_def second_def)



text \<open>
  C40: A printed byte count is right to the digit. Below 1024 it is the count itself; from there on the
  tenths and the unit shown are at least 1.0, at most 1024.0 short of the largest unit, and
  within 0.0501 of the count in that unit, for every count of 64 bits.
\<close>

theorem human_bytes_right:
  "uint n < 1024 \<and> humanBytes n = show_nat (unat n) @ '' B'' \<or>
   (\<exists>t k u. (k, u) \<in> {(10, '' KiB''), (20, '' MiB''), (30, '' GiB'')} \<and> humanBytes n = show_tenths t @ u \<and>
      10 \<le> t \<and> (k = 30 \<or> t \<le> 10240) \<and> \<bar>rat_of_nat t / 10 - rat_of_int (uint n) / 2 ^ k\<bar> \<le> 501 / 10000)"
  by (rule humanBytes_near)

end
